(* ===== verification/Prelude.thy ===== *)
theory Prelude
  imports "HOL-Library.Word" "HOL-Library.Multiset" "HOL-Library.AList"
    "HOL-Library.Monad_Syntax"
begin

text \<open>
  Shared vocabulary of the development: the machine integers of the Rust sources, the
  reading of a vector element that panics out of range, hash maps with their iteration
  order, text formatting and parsing, the interface of a codec (a printer with its parser)
  and the interface of a transition system with its invariant rule.

  A function whose Rust counterpart can panic (an index out of range) returns an
  \<open>option\<close>; the outer \<open>None\<close> is the panic. Rust's integers are words, so additions and
  subtractions wrap as in a release build; the component theories show where no wrap can
  happen, and there a debug build agrees.
\<close>

named_theorems rust_defs \<open>definitions of standard library operations\<close>
named_theorems pool_simps \<open>field equations of the resource pools\<close>
named_theorems sched_simps \<open>field equations of the scheduler state\<close>

section \<open>Machine integers\<close>

type_synonym u32 = "32 word"
type_synonym u64 = "64 word"

type_synonym i32 = int
type_synonym i64 = int

type_synonym datetime = int

text \<open>\<open>saturating_sub\<close> and \<open>div_ceil\<close> of Rust's unsigned integers, and the cast \<open>as i32\<close>.\<close>

definition saturating_sub :: "'a::len word \<Rightarrow> 'a word \<Rightarrow> 'a word" where
  "saturating_sub a b = (if a < b then 0 else a - b)"

definition div_ceil :: "'a::len word \<Rightarrow> 'a word \<Rightarrow> 'a word" where
  "div_ceil a b = (let q = a div b; r = a mod b in if r > 0 then q + 1 else q)"

definition as_i32 :: "i64 \<Rightarrow> i32" where
  "as_i32 n = signed_take_bit 31 n"

definition is_i32 :: "int \<Rightarrow> bool" where
  "is_i32 n \<longleftrightarrow> - (2 ^ 31) \<le> n \<and> n < 2 ^ 31"

lemma as_i32_id: "is_i32 n \<Longrightarrow> as_i32 n = n"
  by (simp add: is_i32_def as_i32_def signed_take_bit_int_eq_self)

lemma unat_saturating_sub: "unat (saturating_sub a b) = unat a - unat b"
  by (simp add: saturating_sub_def word_less_nat_alt unat_sub_if')

lemma unat_sub_le: "b \<le> a \<Longrightarrow> unat (a - b) = unat a - unat b"
  by (rule unat_sub)

lemma unat_add_le:
  fixes a b c :: "'a::len word"
  assumes "unat a + unat b \<le> unat c"
  shows "unat (a + b) = unat a + unat b"
proof -
  have "unat c < 2 ^ LENGTH('a)" by (rule unsigned_less)
  with assms have "unat a + unat b < 2 ^ LENGTH('a)" by linarith
  then show ?thesis by (simp add: unat_word_ariths)
qed

lemma unat_ucast_u64: "unat (ucast (x :: u32) :: u64) = unat x"
proof -
  have "unat x < 2 ^ LENGTH(32)" by (rule unsigned_less)
  then have "unat x < 2 ^ LENGTH(64)" by simp
  then show ?thesis by (simp only: unsigned_ucast_eq take_bit_nat_eq_self)
qed

lemma div_ceil_zero [simp]: "div_ceil 0 b = 0"
  by (simp add: div_ceil_def)

text \<open>The rounding division gives the least share whose multiple reaches the whole.\<close>

lemma unat_div_ceil:
  fixes a b :: "'a::len word"
  assumes b: "b \<noteq> 0"
  shows "unat (div_ceil a b) = unat a div unat b + (if unat a mod unat b = 0 then 0 else 1)"
proof (cases "a mod b = 0")
  case True
  then have "unat a mod unat b = 0" by (metis unat_0 unat_mod)
  with True show ?thesis by (simp add: div_ceil_def unat_div)
next
  case False
  then have m: "unat a mod unat b \<noteq> 0" by (metis unat_eq_zero unat_mod)
  have pos: "0 < unat b" using b by (simp add: unat_gt_0)
  have lt: "unat a div unat b < unat a"
  proof (rule div_less_dividend)
    show "1 < unat b" using m pos by (cases "unat b = 1") auto
    show "0 < unat a" using m by (cases "unat a = 0") auto
  qed
  have "unat (a div b) + unat (1 :: 'a word) \<le> unat a"
    using lt by (simp add: unat_div)
  then have "unat (a div b + 1) = unat (a div b) + unat (1 :: 'a word)"
    by (rule unat_add_le)
  with False m show ?thesis
    by (simp add: div_ceil_def unat_div word_gt_0)
qed

lemma div_ceil_least:
  fixes a b s :: "'a::len word"
  assumes b: "b \<noteq> 0"
  shows "div_ceil a b \<le> s \<longleftrightarrow> unat a \<le> unat s * unat b"
proof -
  let ?q = "unat a div unat b" and ?r = "unat a mod unat b"
  have pos: "0 < unat b" using b by (simp add: unat_gt_0)
  have split: "unat a = ?q * unat b + ?r" by simp
  have r: "?r < unat b" using pos by simp
  have "?q + (if ?r = 0 then 0 else 1) \<le> unat s \<longleftrightarrow> unat a \<le> unat s * unat b"
  proof (cases "?r = 0")
    case True
    then show ?thesis using pos split by (metis add.right_neutral mult_le_cancel2)
  next
    case False
    have "Suc ?q \<le> unat s \<longleftrightarrow> ?q * unat b + ?r \<le> unat s * unat b"
    proof
      assume "Suc ?q \<le> unat s"
      then have "Suc ?q * unat b \<le> unat s * unat b" by (rule mult_le_mono1)
      then show "?q * unat b + ?r \<le> unat s * unat b"
        using r by (simp only: mult_Suc)
    next
      assume le: "?q * unat b + ?r \<le> unat s * unat b"
      show "Suc ?q \<le> unat s"
      proof (rule ccontr)
        assume "\<not> Suc ?q \<le> unat s"
        then have "unat s * unat b \<le> ?q * unat b" by (simp add: mult_le_mono1)
        with le have "?r = 0" by linarith
        with False show False ..
      qed
    qed
    then show ?thesis using False split by simp
  qed
  then show ?thesis by (simp add: word_le_nat_alt unat_div_ceil [OF b])
qed

section \<open>Vectors\<close>

text \<open>Reading and writing a vector element; out of range is a panic.\<close>

definition vec_get :: "'a list \<Rightarrow> nat \<Rightarrow> 'a option" where
  "vec_get xs i = (if i < length xs then Some (xs ! i) else None)"

definition vec_set :: "'a list \<Rightarrow> nat \<Rightarrow> 'a \<Rightarrow> 'a list option" where
  "vec_set xs i x = (if i < length xs then Some (xs[i := x]) else None)"

lemma vec_get_Some [simp]: "i < length xs \<Longrightarrow> vec_get xs i = Some (xs ! i)"
  by (simp add: vec_get_def)

lemma vec_get_None [simp]: "length xs \<le> i \<Longrightarrow> vec_get xs i = None"
  by (simp add: vec_get_def)

lemma vec_set_Some [simp]: "i < length xs \<Longrightarrow> vec_set xs i x = Some (xs[i := x])"
  by (simp add: vec_set_def)

lemma vec_set_None [simp]: "length xs \<le> i \<Longrightarrow> vec_set xs i x = None"
  by (simp add: vec_set_def)

text \<open>\<open>find_map\<close> over a list: the first element the function accepts.\<close>

fun find_map :: "('a \<Rightarrow> 'b option) \<Rightarrow> 'a list \<Rightarrow> 'b option" where
  "find_map f [] = None"
| "find_map f (x # xs) = (case f x of Some y \<Rightarrow> Some y | None \<Rightarrow> find_map f xs)"

lemma find_eq_find_map: "find P xs = find_map (\<lambda>x. if P x then Some x else None) xs"
  by (induction xs) auto

lemma find_Some_imp: "find P xs = Some x \<Longrightarrow> x \<in> set xs \<and> P x"
  by (auto simp: find_Some_iff)

lemma find_key: "distinct (map f xs) \<Longrightarrow> x \<in> set xs \<Longrightarrow> find (\<lambda>y. f y = f x) xs = Some x"
  by (induction xs) auto

lemma count_list_replicate: "count_list (replicate n x) y = (if x = y then n else 0)"
  by (induction n) auto

lemma count_list_le_length_filter: "P x \<Longrightarrow> count_list xs x \<le> length (filter P xs)"
  by (induction xs) auto

lemma length_filter_le_filter: "(\<And>x. P x \<Longrightarrow> Q x) \<Longrightarrow> length (filter P xs) \<le> length (filter Q xs)"
  by (induction xs) auto

lemma length_filter_remove:
  "x \<notin> S \<Longrightarrow>
   length (filter (\<lambda>y. y \<notin> insert x S) ys) = length (filter (\<lambda>y. y \<notin> S) ys) - count_list ys x"
proof (induction ys)
  case (Cons y ys)
  then show ?case
    using count_list_le_length_filter [of "\<lambda>y. y \<notin> S" x ys] by auto
qed simp

lemma count_mset_pos: "x \<in> set xs \<Longrightarrow> 0 < count (mset xs) x"
  by simp

lemma count_mset_distinct: "distinct xs \<Longrightarrow> count (mset xs) x = (if x \<in> set xs then 1 else 0)"
  by (simp add: distinct_count_atmost_1)

lemma distinct_if_count: "(\<And>x. count (mset xs) x \<le> 1) \<Longrightarrow> distinct xs"
proof (induction xs)
  case (Cons y ys)
  have le: "count (mset ys) x + (if x = y then 1 else 0) \<le> 1" for x
    using Cons.prems [of x] by (cases "x = y") simp_all
  have "count (mset ys) x \<le> 1" for x by (rule add_leD1 [OF le])
  then have "distinct ys" by (rule Cons.IH)
  moreover have "y \<notin> set ys" using le [of y] count_mset_pos [of y ys] by auto
  ultimately show ?case by simp
qed simp

section \<open>Hash maps\<close>

text \<open>
  A \<open>HashMap\<close> is an association list with distinct keys whose order is the map's
  iteration order. The order is arbitrary; theorems quantify over all lists.
\<close>

definition hm_wf :: "('k \<times> 'v) list \<Rightarrow> bool" where
  "hm_wf m \<longleftrightarrow> distinct (map fst m)"

abbreviation hm_get :: "('k \<times> 'v) list \<Rightarrow> 'k \<Rightarrow> 'v option" where
  "hm_get m k \<equiv> map_of m k"

abbreviation hm_insert :: "'k \<Rightarrow> 'v \<Rightarrow> ('k \<times> 'v) list \<Rightarrow> ('k \<times> 'v) list" where
  "hm_insert \<equiv> AList.update"

abbreviation hm_remove :: "'k \<Rightarrow> ('k \<times> 'v) list \<Rightarrow> ('k \<times> 'v) list" where
  "hm_remove \<equiv> AList.delete"

text \<open>A write through \<open>get_mut\<close>: nothing happens when the key is absent.\<close>

fun hm_modify :: "'k \<Rightarrow> ('v \<Rightarrow> 'v) \<Rightarrow> ('k \<times> 'v) list \<Rightarrow> ('k \<times> 'v) list" where
  "hm_modify k f [] = []"
| "hm_modify k f ((k', v) # m) = (if k' = k then (k', f v) # m else (k', v) # hm_modify k f m)"

lemma map_fst_hm_modify [simp]: "map fst (hm_modify k f m) = map fst m"
  by (induction m) auto

lemma hm_get_modify [simp]:
  "hm_get (hm_modify k f m) k' = (if k' = k then map_option f (hm_get m k) else hm_get m k')"
  by (induction m) auto

lemma hm_modify_absent: "hm_get m k = None \<Longrightarrow> hm_modify k f m = m"
  by (induction m) (auto split: if_splits)

lemma hm_wf_modify [simp]: "hm_wf (hm_modify k f m) = hm_wf m"
  by (simp add: hm_wf_def)

lemma hm_wf_insert: "hm_wf m \<Longrightarrow> hm_wf (hm_insert k v m)"
  by (simp add: hm_wf_def distinct_update)

lemma hm_wf_Nil [simp]: "hm_wf []"
  by (simp add: hm_wf_def)

lemma set_hm_insert: "set (hm_insert k v m) \<subseteq> insert (k, v) (set m)"
  by (induction m) auto

lemma hm_wf_remove: "hm_wf m \<Longrightarrow> hm_wf (hm_remove k m)"
  by (simp add: hm_wf_def distinct_delete)

lemma hm_get_insert: "hm_get (hm_insert k v m) k' = (if k' = k then Some v else hm_get m k')"
  by (simp add: update_conv')

lemma hm_get_remove: "hm_get (hm_remove k m) k' = (if k' = k then None else hm_get m k')"
  by (simp add: delete_conv')

lemma hm_get_in: "hm_wf m \<Longrightarrow> (k, v) \<in> set m \<longleftrightarrow> hm_get m k = Some v"
  by (simp add: hm_wf_def)

lemma map_of_rev_distinct:
  assumes "distinct (map fst xs)"
  shows "map_of (rev xs) = map_of xs"
proof -
  have "map_of (rev xs) k = Some y \<longleftrightarrow> map_of xs k = Some y" for k y
    using assms by (simp add: rev_map [symmetric])
  then show ?thesis by (metis ext not_Some_eq)
qed

section \<open>Text\<close>

text \<open>
  A Rust string is the list of its bytes. Decimal printing is \<open>format!("{}", n)\<close>;
  the parsers are \<open>str::parse\<close> for a width given in bits.
\<close>

definition digit :: "nat \<Rightarrow> char" where
  "digit n = char_of (48 + n)"

definition is_digit :: "char \<Rightarrow> bool" where
  "is_digit c \<longleftrightarrow> 48 \<le> (of_char c :: nat) \<and> (of_char c :: nat) \<le> 57"

definition digit_val :: "char \<Rightarrow> nat" where
  "digit_val c = of_char c - 48"

fun dec :: "nat \<Rightarrow> string" where
  "dec n = (if n < 10 then [digit n] else dec (n div 10) @ [digit (n mod 10)])"

declare dec.simps [simp del]

definition dec_int :: "int \<Rightarrow> string" where
  "dec_int n = (if n < 0 then ''-'' @ dec (nat (- n)) else dec (nat n))"

definition digits_val :: "string \<Rightarrow> nat" where
  "digits_val s = foldl (\<lambda>n c. 10 * n + digit_val c) 0 s"

definition parse_uint :: "nat \<Rightarrow> string \<Rightarrow> nat option" where
  "parse_uint w s =
     (let ds = (case s of c # r \<Rightarrow> if c = CHR ''+'' then r else s | [] \<Rightarrow> s) in
      if ds \<noteq> [] \<and> list_all is_digit ds \<and> digits_val ds < 2 ^ w then Some (digits_val ds) else None)"

definition parse_i32 :: "string \<Rightarrow> i32 option" where
  "parse_i32 s =
     (let (neg, ds) = (case s of c # r \<Rightarrow>
                         if c = CHR ''-'' then (True, r) else if c = CHR ''+'' then (False, r) else (False, s)
                       | [] \<Rightarrow> (False, s));
          v = (if neg then - int (digits_val ds) else int (digits_val ds))
      in if ds \<noteq> [] \<and> list_all is_digit ds \<and> is_i32 v then Some v else None)"

definition quoted :: "string \<Rightarrow> string" where
  "quoted s = [CHR 0x27] @ s @ [CHR 0x27]"

text \<open>Joining with a separator, splitting at one, trimming white space (of the ASCII range).\<close>

fun join :: "string \<Rightarrow> string list \<Rightarrow> string" where
  "join sep [] = []"
| "join sep [x] = x"
| "join sep (x # y # zs) = x @ sep @ join sep (y # zs)"

fun split_on :: "(char \<Rightarrow> bool) \<Rightarrow> string \<Rightarrow> string list" where
  "split_on p [] = [[]]"
| "split_on p (c # cs) =
     (if p c then [] # split_on p cs
      else (case split_on p cs of [] \<Rightarrow> [[c]] | w # ws \<Rightarrow> (c # w) # ws))"

definition is_ws :: "char \<Rightarrow> bool" where
  "is_ws c \<longleftrightarrow> (of_char c :: nat) \<in> {9, 10, 11, 12, 13, 32}"

definition trim :: "string \<Rightarrow> string" where
  "trim s = rev (dropWhile is_ws (rev (dropWhile is_ws s)))"

definition split_whitespace :: "string \<Rightarrow> string list" where
  "split_whitespace s = filter (\<lambda>w. w \<noteq> []) (split_on is_ws s)"

definition newline :: char where
  "newline = char_of (10 :: nat)"

definition is_prefix :: "string \<Rightarrow> string \<Rightarrow> bool" where
  "is_prefix p s \<longleftrightarrow> take (length p) s = p"

fun contains :: "string \<Rightarrow> string \<Rightarrow> bool" where
  "contains [] p = (p = [])"
| "contains (c # cs) p = (is_prefix p (c # cs) \<or> contains cs p)"

definition is_lower :: "char \<Rightarrow> bool" where
  "is_lower c \<longleftrightarrow> 97 \<le> (of_char c :: nat) \<and> (of_char c :: nat) \<le> 122"

definition is_upper :: "char \<Rightarrow> bool" where
  "is_upper c \<longleftrightarrow> 65 \<le> (of_char c :: nat) \<and> (of_char c :: nat) \<le> 90"

definition is_ascii_alphabetic :: "char \<Rightarrow> bool" where
  "is_ascii_alphabetic c \<longleftrightarrow> is_lower c \<or> is_upper c"

definition is_ascii_alphanumeric :: "char \<Rightarrow> bool" where
  "is_ascii_alphanumeric c \<longleftrightarrow> is_ascii_alphabetic c \<or> is_digit c"

lemma of_char_digit: "n < 10 \<Longrightarrow> (of_char (digit n) :: nat) = 48 + n"
  by (simp add: digit_def)

lemma is_digit_digit: "n < 10 \<Longrightarrow> is_digit (digit n)"
  by (simp add: is_digit_def of_char_digit)

lemma digit_val_digit: "n < 10 \<Longrightarrow> digit_val (digit n) = n"
  by (simp add: digit_val_def of_char_digit)

lemma dec_nonempty [simp]: "dec n \<noteq> []"
  by (subst dec.simps) simp

lemma dec_digits: "list_all is_digit (dec n)"
proof (induction n rule: dec.induct)
  case (1 n)
  show ?case
  proof (cases "n < 10")
    case True
    then show ?thesis by (subst dec.simps) (simp add: is_digit_digit)
  next
    case False
    with "1.IH" have "list_all is_digit (dec (n div 10))" by simp
    with False show ?thesis by (subst dec.simps) (simp add: is_digit_digit)
  qed
qed

lemma digits_val_snoc: "digits_val (s @ [c]) = 10 * digits_val s + digit_val c"
  by (simp add: digits_val_def)

lemma digits_val_dec [simp]: "digits_val (dec n) = n"
proof (induction n rule: dec.induct)
  case (1 n)
  show ?case
  proof (cases "n < 10")
    case True
    then show ?thesis
      by (subst dec.simps) (simp add: digits_val_def digit_val_digit)
  next
    case False
    with "1.IH" have "digits_val (dec (n div 10)) = n div 10" by simp
    with False show ?thesis
      by (subst dec.simps) (simp add: digits_val_snoc digit_val_digit)
  qed
qed

lemma dec_inject [simp]: "dec m = dec n \<longleftrightarrow> m = n"
  by (metis digits_val_dec)

lemma digit_not_plus: "is_digit c \<Longrightarrow> c \<noteq> CHR ''+'' \<and> c \<noteq> CHR ''-''"
  by (auto simp: is_digit_def)

lemma parse_uint_dec:
  assumes "n < 2 ^ w"
  shows "parse_uint w (dec n) = Some n"
proof -
  obtain c r where cr: "dec n = c # r" by (cases "dec n") auto
  have ds: "list_all is_digit (c # r)" and v: "digits_val (c # r) = n"
    using dec_digits [of n] digits_val_dec [of n] by (simp_all add: cr)
  then have "c \<noteq> CHR ''+''" using digit_not_plus [of c] by simp
  with ds v assms show ?thesis by (simp add: parse_uint_def cr)
qed

section \<open>The interface of a codec\<close>

text \<open>
  Several parts of the program print a value for storage or for the wire and read it back.
  The contract is that reading a printed value gives the value, and that only printed
  values are read.
\<close>

locale codec =
  fixes enc :: "'a \<Rightarrow> 'b" and dec_opt :: "'b \<Rightarrow> 'a option"
  assumes dec_enc: "dec_opt (enc x) = Some x"
    and dec_only: "dec_opt b = Some x \<Longrightarrow> enc x = b"
begin

lemma enc_inj: "enc x = enc y \<longleftrightarrow> x = y"
  by (metis dec_enc option.inject)

lemma dec_iff: "dec_opt b = Some x \<longleftrightarrow> b = enc x"
  using dec_enc dec_only by blast

lemma dec_none_iff: "dec_opt b = None \<longleftrightarrow> b \<notin> range enc"
  by (metis dec_enc dec_only not_None_eq rangeE rangeI option.distinct(1))

lemma dec_map_list: "map (dec_opt \<circ> enc) xs = map Some xs"
  by (simp add: dec_enc)

end

section \<open>The interface of a transition system\<close>

text \<open>
  The concurrent parts of the program are step relations. An invariant that holds initially
  and is kept by every step holds in every reachable state.
\<close>

inductive reach :: "('s \<Rightarrow> bool) \<Rightarrow> ('s \<Rightarrow> 's \<Rightarrow> bool) \<Rightarrow> 's \<Rightarrow> bool" for init step where
  reach_init: "init s \<Longrightarrow> reach init step s"
| reach_step: "reach init step s \<Longrightarrow> step s t \<Longrightarrow> reach init step t"

locale invariant_system =
  fixes init :: "'s \<Rightarrow> bool" and step :: "'s \<Rightarrow> 's \<Rightarrow> bool" and inv :: "'s \<Rightarrow> bool"
  assumes inv_init: "init s \<Longrightarrow> inv s"
    and inv_step: "inv s \<Longrightarrow> step s t \<Longrightarrow> inv t"
begin

lemma inv_reach: "reach init step s \<Longrightarrow> inv s"
  by (induction rule: reach.induct) (auto intro: inv_init inv_step)

lemma inv_steps: "step\<^sup>*\<^sup>* s t \<Longrightarrow> inv s \<Longrightarrow> inv t"
  by (induction rule: rtranclp_induct) (auto intro: inv_step)

lemma reach_steps: "step\<^sup>*\<^sup>* s t \<Longrightarrow> reach init step s \<Longrightarrow> reach init step t"
  by (induction rule: rtranclp_induct) (auto intro: reach_step)

end

end
