(* ===== verification/Workflow_Spec.thy ===== *)
theory Workflow_Spec
  imports Prelude
begin

text \<open>
  The declared workflow (src/src/workflow/spec.rs): resource requirements, jobs and
  workflows, the defaults of omitted fields, the card counts tried for a job that gives only
  VRAM, and each card's even share of the VRAM. The YAML reader itself is serde's.
\<close>

record resource_spec =
  rs_cpu :: u32
  rs_memory_mb :: u64
  rs_gpu :: u32
  rs_vram_mb :: u64

record job_spec =
  js_id :: string
  js_command :: string
  js_depends_on :: "string list"
  js_resources :: resource_spec

record workflow_spec =
  ws_name :: string
  ws_jobs :: "job_spec list"

definition default_cpu :: u32 where
  "default_cpu = 1"

definition default_memory_mb :: u64 where
  "default_memory_mb = 512"

definition resource_spec_default :: resource_spec where
  "resource_spec_default =
     \<lparr>rs_cpu = default_cpu, rs_memory_mb = default_memory_mb, rs_gpu = 0, rs_vram_mb = 0\<rparr>"

definition job_spec_default :: job_spec where
  "job_spec_default =
     \<lparr>js_id = [], js_command = [], js_depends_on = [], js_resources = resource_spec_default\<rparr>"

definition GPU_COUNTS :: "u32 list" where
  "GPU_COUNTS = [1, 2, 4, 8]"

definition gpu_options :: "resource_spec \<Rightarrow> resource_spec list" where
  "gpu_options s =
     (if rs_gpu s > 0 \<or> rs_vram_mb s = 0 then [s]
      else map (\<lambda>gpu. s\<lparr>rs_gpu := gpu\<rparr>) GPU_COUNTS)"

definition vram_per_gpu :: "resource_spec \<Rightarrow> u64" where
  "vram_per_gpu s = (if rs_gpu s = 0 then 0 else div_ceil (rs_vram_mb s) (ucast (rs_gpu s)))"

section \<open>The requests a job is tried with\<close>

lemma gpu_options_nonempty: "gpu_options s \<noteq> []"
  by (simp add: gpu_options_def GPU_COUNTS_def)

lemma gpu_options_keep:
  "opt \<in> set (gpu_options s) \<Longrightarrow>
   rs_cpu opt = rs_cpu s \<and> rs_memory_mb opt = rs_memory_mb s \<and> rs_vram_mb opt = rs_vram_mb s"
  by (auto simp: gpu_options_def split: if_splits)

lemma gpu_options_own: "rs_gpu s > 0 \<Longrightarrow> gpu_options s = [s]"
  by (simp add: gpu_options_def)

lemma gpu_options_cpu_only: "rs_gpu s = 0 \<Longrightarrow> rs_vram_mb s = 0 \<Longrightarrow> gpu_options s = [s]"
  by (simp add: gpu_options_def)

lemma gpu_options_sorted: "sorted_wrt (\<lambda>a b. rs_gpu a < rs_gpu b) (gpu_options s)"
  by (simp add: gpu_options_def GPU_COUNTS_def)

text \<open>A job that asks for VRAM is only ever tried on at least one card.\<close>

lemma gpu_options_vram_gpu:
  "opt \<in> set (gpu_options s) \<Longrightarrow> rs_vram_mb s \<noteq> 0 \<Longrightarrow> 0 < rs_gpu opt"
  by (auto simp: gpu_options_def GPU_COUNTS_def split: if_splits)

text \<open>
  The share is the least amount for which the given number of cards holds the whole request:
  a card holds its share exactly when that many such cards hold the job's VRAM.
\<close>

lemma vram_per_gpu_share:
  fixes v :: u64
  assumes "rs_gpu s \<noteq> 0"
  shows "vram_per_gpu s \<le> v \<longleftrightarrow> unat (rs_vram_mb s) \<le> unat (rs_gpu s) * unat v"
proof -
  have "(ucast (rs_gpu s) :: u64) \<noteq> 0"
    using assms unat_ucast_u64 [of "rs_gpu s"] by (metis unat_eq_zero)
  then have "div_ceil (rs_vram_mb s) (ucast (rs_gpu s)) \<le> v \<longleftrightarrow>
      unat (rs_vram_mb s) \<le> unat v * unat (ucast (rs_gpu s) :: u64)"
    by (rule div_ceil_least)
  then show ?thesis using assms by (simp add: vram_per_gpu_def unat_ucast_u64 mult.commute)
qed

end
