(* ===== verification/Discovery.thy ===== *)
theory Discovery
  imports Workflow_Spec
begin

text \<open>
  The machine's inventory (src/src/resource/discovery.rs). NVML is a library outside the
  repository; what it answers is the argument: \<open>None\<close> where the call fails.
\<close>

record gpu_info =
  gi_index :: u32
  gi_name :: string
  gi_vram_mb :: u64
  gi_uuid :: string

record system_resources =
  cpu_cores :: u32
  memory_mb :: u64
  gpus :: "gpu_info list"

record nvml_device =
  dev_name :: "string option"
  dev_memory_total :: "u64 option"
  dev_uuid :: "string option"

record nvml_answers =
  device_count :: "u32 option"
  device_by_index :: "u32 \<Rightarrow> nvml_device option"

definition gpu_of_device :: "u32 \<Rightarrow> nvml_device \<Rightarrow> gpu_info" where
  "gpu_of_device index device =
     \<lparr>gi_index = index,
      gi_name = (case dev_name device of Some n \<Rightarrow> n | None \<Rightarrow> ''unknown''),
      gi_vram_mb = (case dev_memory_total device of Some t \<Rightarrow> t div 1024 div 1024 | None \<Rightarrow> 0),
      gi_uuid = (case dev_uuid device of Some u \<Rightarrow> u | None \<Rightarrow> [])\<rparr>"

definition query_devices :: "nvml_answers \<Rightarrow> u32 list \<Rightarrow> gpu_info list" where
  "query_devices nvml indices =
     List.map_filter (\<lambda>index. map_option (gpu_of_device index) (device_by_index nvml index)) indices"

definition discover_gpus :: "nvml_answers option \<Rightarrow> gpu_info list" where
  "discover_gpus init =
     (case init of
        None \<Rightarrow> []
      | Some nvml \<Rightarrow> (case device_count nvml of
          None \<Rightarrow> []
        | Some cnt \<Rightarrow> query_devices nvml (map of_nat [0..<unat cnt])))"

definition job_memory_mb :: "u64 \<Rightarrow> u64" where
  "job_memory_mb total_mb = saturating_sub total_mb (max (total_mb div 10) 1024)"

definition discover :: "nat \<Rightarrow> u64 \<Rightarrow> nvml_answers option \<Rightarrow> system_resources" where
  "discover cpus total_memory nvml =
     \<lparr>cpu_cores = of_nat cpus,
      memory_mb = job_memory_mb (total_memory div 1024 div 1024),
      gpus = discover_gpus nvml\<rparr>"

section \<open>The inventory's shape\<close>

text \<open>
  A pool keeps its per-card vectors by position but reads them by the card's own index, so an
  inventory is usable when the indices are the positions.
\<close>

definition dense :: "gpu_info list \<Rightarrow> bool" where
  "dense gs \<longleftrightarrow> map gi_index gs = map of_nat [0..<length gs] \<and> length gs \<le> 2 ^ 32"

lemma dense_index: "dense gs \<Longrightarrow> i < length gs \<Longrightarrow> unat (gi_index (gs ! i)) = i"
proof -
  assume d: "dense gs" and i: "i < length gs"
  then have "gi_index (gs ! i) = map of_nat [0..<length gs] ! i"
    by (metis dense_def nth_map)
  then have "gi_index (gs ! i) = of_nat i" using i by simp
  moreover have "i < 2 ^ 32" using d i by (simp add: dense_def)
  ultimately show ?thesis by (simp add: unat_of_nat take_bit_nat_eq_self)
qed

lemma dense_in_range: "dense gs \<Longrightarrow> g \<in> set gs \<Longrightarrow> unat (gi_index g) < length gs \<and> gs ! unat (gi_index g) = g"
  by (auto simp: in_set_conv_nth dense_index)

lemma query_devices_all:
  assumes "\<And>i. i \<in> set is \<Longrightarrow> device_by_index nvml i \<noteq> None"
  shows "map gi_index (query_devices nvml is) = is"
  using assms
  by (induction "is") (fastforce simp: query_devices_def map_filter_simps gpu_of_device_def split: option.splits)+

lemma query_devices_index:
  "g \<in> set (query_devices nvml is) \<Longrightarrow> gi_index g \<in> set is \<and> device_by_index nvml (gi_index g) \<noteq> None"
  by (induction "is") (auto simp: query_devices_def map_filter_simps gpu_of_device_def split: option.splits)

lemma discover_gpus_dense:
  assumes "device_count nvml = Some cnt"
    and "\<And>i. i < cnt \<Longrightarrow> device_by_index nvml i \<noteq> None"
  shows "dense (discover_gpus (Some nvml)) \<and> length (discover_gpus (Some nvml)) = unat cnt"
proof -
  have bound: "unat cnt < 2 ^ LENGTH(32)" by (rule unsigned_less)
  have small: "of_nat i < cnt" if "i < unat cnt" for i
    using that bound by (simp add: word_less_nat_alt unat_of_nat take_bit_nat_eq_self)
  have "map gi_index (query_devices nvml (map of_nat [0..<unat cnt])) = map of_nat [0..<unat cnt]"
    using assms(2) small by (intro query_devices_all) auto
  moreover from this have "length (query_devices nvml (map of_nat [0..<unat cnt])) = unat cnt"
    by (metis length_map length_upt minus_nat.diff_0)
  ultimately show ?thesis using bound by (simp add: discover_gpus_def assms(1) dense_def)
qed

text \<open>Jobs never get more than nine tenths of the memory, and at least 1 GB is left to the system.\<close>

lemma job_memory_headroom:
  "unat (job_memory_mb t) + max (unat t div 10) 1024 \<le> max (unat t) (max (unat t div 10) 1024)"
proof -
  have "unat (max (t div 10) 1024) = max (unat t div 10) 1024"
    by (simp add: max_def word_le_nat_alt unat_div)
  then show ?thesis by (simp only: job_memory_mb_def unat_saturating_sub) arith
qed

end
