(* ===== verification/Resource_Pool.thy ===== *)
theory Resource_Pool
  imports Discovery
begin

text \<open>
  One node's resources (src/src/resource/pool.rs): the inventory, what is free of it and which
  cards are blocked; the operations that book and release. Operations that index a vector by a
  card's index return an \<open>option\<close> whose \<open>None\<close> is the index panic.
\<close>

record gpu_allocation =
  ga_index :: u32
  ga_vram_mb :: u64

record allocation =
  al_cpu :: u32
  al_memory_mb :: u64
  al_gpus :: "gpu_allocation list"

record resource_pool =
  total :: system_resources
  available_cpu :: u32
  available_memory_mb :: u64
  available_vram_mb :: "u64 list"
  blocked :: "bool list"

definition pool_new :: "system_resources \<Rightarrow> resource_pool" where
  "pool_new resources =
     \<lparr>total = resources,
      available_cpu = cpu_cores resources,
      available_memory_mb = memory_mb resources,
      available_vram_mb = map gi_vram_mb (gpus resources),
      blocked = replicate (length (gpus resources)) False\<rparr>"

text \<open>\<open>book\<close> saturates and passes over a card the inventory does not have.\<close>

definition book_gpu :: "gpu_allocation \<Rightarrow> u64 list \<Rightarrow> u64 list" where
  "book_gpu gpu free =
     (let i = unat (ga_index gpu) in
      if i < length free then free[i := saturating_sub (free ! i) (ga_vram_mb gpu)] else free)"

definition book :: "allocation \<Rightarrow> resource_pool \<Rightarrow> resource_pool" where
  "book alloc p =
     p\<lparr>available_cpu := saturating_sub (available_cpu p) (al_cpu alloc),
       available_memory_mb := saturating_sub (available_memory_mb p) (al_memory_mb alloc),
       available_vram_mb := fold book_gpu (al_gpus alloc) (available_vram_mb p)\<rparr>"

definition reserve_card :: "u32 \<Rightarrow> resource_pool \<Rightarrow> (allocation option \<times> resource_pool) option" where
  "reserve_card index p =
     (case find (\<lambda>gpu. gi_index gpu = index) (gpus (total p)) of
        None \<Rightarrow> Some (None, p)
      | Some gpu \<Rightarrow>
          if gi_vram_mb gpu = 0 then Some (None, p)
          else do {
            free \<leftarrow> vec_get (available_vram_mb p) (unat index);
            if free \<noteq> gi_vram_mb gpu then Some (None, p)
            else do {
              vram \<leftarrow> vec_set (available_vram_mb p) (unat index) 0;
              Some (Some \<lparr>al_cpu = 0, al_memory_mb = 0,
                          al_gpus = [\<lparr>ga_index = index, ga_vram_mb = gi_vram_mb gpu\<rparr>]\<rparr>,
                    p\<lparr>available_vram_mb := vram\<rparr>) } })"

text \<open>
  The card filter of \<open>try_find_gpus\<close>, in the order of its tests, and its lazy selection:
  once enough cards are found no further card is looked at.
\<close>

definition card_usable :: "resource_pool \<Rightarrow> u64 \<Rightarrow> gpu_info \<Rightarrow> bool option" where
  "card_usable p share gpu =
     (if gi_vram_mb gpu > 0 then do {
        free \<leftarrow> vec_get (available_vram_mb p) (unat (gi_index gpu));
        if free = gi_vram_mb gpu then do {
          b \<leftarrow> vec_get (blocked p) (unat (gi_index gpu));
          Some (\<not> b \<and> gi_vram_mb gpu \<ge> share) }
        else Some False }
      else Some False)"

fun select_gpus :: "resource_pool \<Rightarrow> u64 \<Rightarrow> nat \<Rightarrow> gpu_info list \<Rightarrow> gpu_allocation list option" where
  "select_gpus p share 0 gs = Some []"
| "select_gpus p share (Suc n) [] = Some []"
| "select_gpus p share (Suc n) (gpu # gs) = do {
     ok \<leftarrow> card_usable p share gpu;
     if ok then do {
       rest \<leftarrow> select_gpus p share n gs;
       Some (\<lparr>ga_index = gi_index gpu, ga_vram_mb = gi_vram_mb gpu\<rparr> # rest) }
     else select_gpus p share (Suc n) gs }"

definition try_find_gpus :: "resource_pool \<Rightarrow> resource_spec \<Rightarrow> gpu_allocation list option option" where
  "try_find_gpus p spec =
     (if rs_gpu spec = 0 then Some (Some [])
      else do {
        selected \<leftarrow> select_gpus p (vram_per_gpu spec) (unat (rs_gpu spec)) (gpus (total p));
        Some (if length selected = unat (rs_gpu spec) then Some selected else None) })"

definition can_admit :: "resource_pool \<Rightarrow> resource_spec \<Rightarrow> bool option" where
  "can_admit p spec = do {
     found \<leftarrow> try_find_gpus p spec;
     Some (found \<noteq> None \<and> available_cpu p \<ge> rs_cpu spec \<and> available_memory_mb p \<ge> rs_memory_mb spec) }"

definition could_fit :: "resource_pool \<Rightarrow> resource_spec \<Rightarrow> bool" where
  "could_fit p spec =
     (let matching_gpus = length (filter (\<lambda>gpu. gi_vram_mb gpu > 0 \<and> gi_vram_mb gpu \<ge> vram_per_gpu spec)
                                         (gpus (total p))) in
      cpu_cores (total p) \<ge> rs_cpu spec \<and> memory_mb (total p) \<ge> rs_memory_mb spec
      \<and> matching_gpus \<ge> unat (rs_gpu spec))"

fun take_vram :: "gpu_allocation list \<Rightarrow> u64 list \<Rightarrow> u64 list option" where
  "take_vram [] free = Some free"
| "take_vram (gpu # rest) free = do {
     v \<leftarrow> vec_get free (unat (ga_index gpu));
     free' \<leftarrow> vec_set free (unat (ga_index gpu)) (v - ga_vram_mb gpu);
     take_vram rest free' }"

definition try_reserve :: "resource_spec \<Rightarrow> resource_pool \<Rightarrow> (allocation option \<times> resource_pool) option" where
  "try_reserve spec p =
     (if available_cpu p < rs_cpu spec then Some (None, p)
      else if available_memory_mb p < rs_memory_mb spec then Some (None, p)
      else do {
        found \<leftarrow> (if rs_gpu spec = 0 then Some (Some []) else try_find_gpus p spec);
        case found of
          None \<Rightarrow> Some (None, p)
        | Some gpu_allocs \<Rightarrow> do {
            vram \<leftarrow> take_vram gpu_allocs (available_vram_mb p);
            Some (Some \<lparr>al_cpu = rs_cpu spec, al_memory_mb = rs_memory_mb spec, al_gpus = gpu_allocs\<rparr>,
                  p\<lparr>available_cpu := available_cpu p - rs_cpu spec,
                    available_memory_mb := available_memory_mb p - rs_memory_mb spec,
                    available_vram_mb := vram\<rparr>) } })"

fun give_vram :: "gpu_allocation list \<Rightarrow> u64 list \<Rightarrow> u64 list option" where
  "give_vram [] free = Some free"
| "give_vram (gpu # rest) free = do {
     v \<leftarrow> vec_get free (unat (ga_index gpu));
     free' \<leftarrow> vec_set free (unat (ga_index gpu)) (v + ga_vram_mb gpu);
     give_vram rest free' }"

definition release :: "allocation \<Rightarrow> resource_pool \<Rightarrow> resource_pool option" where
  "release alloc p = do {
     vram \<leftarrow> give_vram (al_gpus alloc) (available_vram_mb p);
     Some (p\<lparr>available_cpu := available_cpu p + al_cpu alloc,
             available_memory_mb := available_memory_mb p + al_memory_mb alloc,
             available_vram_mb := vram\<rparr>) }"

section \<open>The ledger: what is free plus what is held is the total\<close>

definition card_ids :: "allocation \<Rightarrow> nat list" where
  "card_ids a = map (\<lambda>g. unat (ga_index g)) (al_gpus a)"

definition held_cards :: "allocation multiset \<Rightarrow> nat multiset" where
  "held_cards H = (\<Sum>a\<in>#H. mset (card_ids a))"

definition held_cpu :: "allocation multiset \<Rightarrow> nat" where
  "held_cpu H = (\<Sum>a\<in>#H. unat (al_cpu a))"

definition held_memory :: "allocation multiset \<Rightarrow> nat" where
  "held_memory H = (\<Sum>a\<in>#H. unat (al_memory_mb a))"

definition whole_cards :: "gpu_info list \<Rightarrow> allocation \<Rightarrow> bool" where
  "whole_cards gs a \<longleftrightarrow>
     list_all (\<lambda>g. unat (ga_index g) < length gs \<and> ga_vram_mb g = gi_vram_mb (gs ! unat (ga_index g))
                   \<and> 0 < ga_vram_mb g) (al_gpus a)"

definition pool_shape :: "resource_pool \<Rightarrow> bool" where
  "pool_shape p \<longleftrightarrow> dense (gpus (total p)) \<and> length (available_vram_mb p) = length (gpus (total p))
     \<and> length (blocked p) = length (gpus (total p))"

definition ledger :: "resource_pool \<Rightarrow> allocation multiset \<Rightarrow> bool" where
  "ledger p H \<longleftrightarrow> pool_shape p
     \<and> unat (available_cpu p) + held_cpu H = unat (cpu_cores (total p))
     \<and> unat (available_memory_mb p) + held_memory H = unat (memory_mb (total p))
     \<and> (\<forall>a. a \<in># H \<longrightarrow> whole_cards (gpus (total p)) a)
     \<and> (\<forall>i. count (held_cards H) i \<le> 1)
     \<and> (\<forall>i < length (gpus (total p)). available_vram_mb p ! i =
          (if i \<in># held_cards H then 0 else gi_vram_mb (gpus (total p) ! i)))"

lemma held_simps [simp]:
  "held_cpu {#} = 0" "held_memory {#} = 0" "held_cards {#} = {#}"
  "held_cpu (add_mset a H) = unat (al_cpu a) + held_cpu H"
  "held_memory (add_mset a H) = unat (al_memory_mb a) + held_memory H"
  "held_cards (add_mset a H) = mset (card_ids a) + held_cards H"
  by (simp_all add: held_cpu_def held_memory_def held_cards_def)

lemma ledger_new: "dense (gpus r) \<Longrightarrow> ledger (pool_new r) {#}"
  by (simp add: ledger_def pool_shape_def pool_new_def)

lemma ledger_shape: "ledger p H \<Longrightarrow> pool_shape p"
  by (simp add: ledger_def)

section \<open>Card selection\<close>

definition whole :: "gpu_info \<Rightarrow> gpu_allocation" where
  "whole gpu = \<lparr>ga_index = gi_index gpu, ga_vram_mb = gi_vram_mb gpu\<rparr>"

definition usable :: "resource_pool \<Rightarrow> u64 \<Rightarrow> gpu_info \<Rightarrow> bool" where
  "usable p share gpu \<longleftrightarrow> 0 < gi_vram_mb gpu \<and> available_vram_mb p ! unat (gi_index gpu) = gi_vram_mb gpu
     \<and> \<not> blocked p ! unat (gi_index gpu) \<and> share \<le> gi_vram_mb gpu"

definition usable_cards :: "resource_pool \<Rightarrow> resource_spec \<Rightarrow> gpu_info list" where
  "usable_cards p spec = filter (usable p (vram_per_gpu spec)) (gpus (total p))"

lemma card_usable_shape:
  "pool_shape p \<Longrightarrow> gpu \<in> set (gpus (total p)) \<Longrightarrow> card_usable p share gpu = Some (usable p share gpu)"
  using dense_in_range [of "gpus (total p)" gpu]
  by (auto simp: card_usable_def usable_def pool_shape_def)

lemma select_gpus_shape:
  assumes "pool_shape p" and "set gs \<subseteq> set (gpus (total p))"
  shows "select_gpus p share n gs = Some (map whole (take n (filter (usable p share) gs)))"
  using assms(2)
proof (induction gs arbitrary: n)
  case Nil
  then show ?case by (cases n) simp_all
next
  case (Cons gpu gs)
  then have "card_usable p share gpu = Some (usable p share gpu)"
    by (intro card_usable_shape [OF assms(1)]) simp
  with Cons show ?case by (cases n) (simp_all add: whole_def)
qed

lemma try_find_gpus_shape:
  assumes "pool_shape p"
  shows "try_find_gpus p spec =
    Some (if unat (rs_gpu spec) \<le> length (usable_cards p spec)
          then Some (map whole (take (unat (rs_gpu spec)) (usable_cards p spec))) else None)"
  using select_gpus_shape [OF assms order_refl]
  by (auto simp: try_find_gpus_def usable_cards_def min_def)

lemma whole_ids: "card_ids \<lparr>al_cpu = c, al_memory_mb = m, al_gpus = map whole gs\<rparr> = map (\<lambda>g. unat (gi_index g)) gs"
  by (simp add: card_ids_def whole_def)

lemma dense_ids_distinct: "dense gs \<Longrightarrow> distinct (map (\<lambda>g. unat (gi_index g)) gs)"
proof -
  assume "dense gs"
  then have "map (\<lambda>g. unat (gi_index g)) gs = [0..<length gs]"
    by (intro nth_equalityI) (auto simp: dense_index)
  then show ?thesis by simp
qed

lemma selected_ids_distinct:
  assumes "pool_shape p"
  shows "distinct (map (\<lambda>g. unat (gi_index g)) (take n (usable_cards p spec)))"
proof -
  have "distinct (map (\<lambda>g. unat (gi_index g)) (usable_cards p spec))"
    unfolding usable_cards_def
    using dense_ids_distinct assms by (intro distinct_map_filter) (auto simp: pool_shape_def)
  then show ?thesis by (metis distinct_take take_map)
qed

section \<open>Booking and releasing card memory\<close>

lemma take_vram_whole:
  assumes "distinct (map (\<lambda>g. unat (ga_index g)) gs)"
    and "list_all (\<lambda>g. unat (ga_index g) < length free \<and> free ! unat (ga_index g) = ga_vram_mb g) gs"
  shows "\<exists>free'. take_vram gs free = Some free' \<and> length free' = length free
    \<and> (\<forall>i < length free. free' ! i = (if i \<in> set (map (\<lambda>g. unat (ga_index g)) gs) then 0 else free ! i))"
  using assms
proof (induction gs arbitrary: free)
  case Nil
  then show ?case by simp
next
  case (Cons g gs)
  let ?i = "unat (ga_index g)" and ?free = "free[unat (ga_index g) := free ! unat (ga_index g) - ga_vram_mb g]"
  have i: "?i < length free" "free ! ?i = ga_vram_mb g" using Cons.prems by auto
  have "list_all (\<lambda>g. unat (ga_index g) < length ?free \<and> ?free ! unat (ga_index g) = ga_vram_mb g) gs"
    using Cons.prems by (auto simp: list_all_iff nth_list_update)
  with Cons.IH [of ?free] Cons.prems obtain free' where free': "take_vram gs ?free = Some free'"
    "length free' = length ?free"
    "\<forall>k < length ?free. free' ! k = (if k \<in> set (map (\<lambda>g. unat (ga_index g)) gs) then 0 else ?free ! k)"
    by auto
  then show ?case using i by (auto simp: nth_list_update)
qed

lemma give_vram_whole:
  assumes "distinct (map (\<lambda>g. unat (ga_index g)) gs)"
    and "list_all (\<lambda>g. unat (ga_index g) < length free \<and> free ! unat (ga_index g) = 0
                        \<and> ga_vram_mb g = full (unat (ga_index g))) gs"
  shows "\<exists>free'. give_vram gs free = Some free' \<and> length free' = length free
    \<and> (\<forall>i < length free. free' ! i = (if i \<in> set (map (\<lambda>g. unat (ga_index g)) gs) then full i else free ! i))"
  using assms
proof (induction gs arbitrary: free)
  case Nil
  then show ?case by simp
next
  case (Cons g gs)
  let ?i = "unat (ga_index g)" and ?free = "free[unat (ga_index g) := free ! unat (ga_index g) + ga_vram_mb g]"
  have i: "?i < length free" "free ! ?i = 0" "ga_vram_mb g = full ?i" using Cons.prems by auto
  have "list_all (\<lambda>g. unat (ga_index g) < length ?free \<and> ?free ! unat (ga_index g) = 0
      \<and> ga_vram_mb g = full (unat (ga_index g))) gs"
    using Cons.prems by (auto simp: list_all_iff nth_list_update)
  with Cons.IH [of ?free] Cons.prems obtain free' where free': "give_vram gs ?free = Some free'"
    "length free' = length ?free"
    "\<forall>k < length ?free. free' ! k = (if k \<in> set (map (\<lambda>g. unat (ga_index g)) gs) then full k else ?free ! k)"
    by auto
  then show ?case using i by (auto simp: nth_list_update)
qed

section \<open>Every operation keeps the ledger\<close>

text \<open>An allocation a pool can still take: within what is free, whole cards nobody holds.\<close>

definition fits :: "resource_pool \<Rightarrow> allocation multiset \<Rightarrow> allocation \<Rightarrow> bool" where
  "fits p H a \<longleftrightarrow> al_cpu a \<le> available_cpu p \<and> al_memory_mb a \<le> available_memory_mb p
     \<and> whole_cards (gpus (total p)) a \<and> distinct (card_ids a) \<and> set (card_ids a) \<inter> set_mset (held_cards H) = {}"

lemma ledger_add:
  assumes L: "ledger p H" and F: "fits p H a"
    and vram: "length vram = length (available_vram_mb p)"
      "\<forall>i < length (available_vram_mb p). vram ! i = (if i \<in> set (card_ids a) then 0 else available_vram_mb p ! i)"
  shows "ledger (p\<lparr>available_cpu := available_cpu p - al_cpu a,
                    available_memory_mb := available_memory_mb p - al_memory_mb a,
                    available_vram_mb := vram\<rparr>) (add_mset a H)"
proof -
  have "unat (available_cpu p - al_cpu a) + unat (al_cpu a) = unat (available_cpu p)"
    "unat (available_memory_mb p - al_memory_mb a) + unat (al_memory_mb a) = unat (available_memory_mb p)"
    using F by (simp_all add: fits_def unat_sub_le word_le_nat_alt)
  moreover have "count (mset (card_ids a) + held_cards H) i \<le> 1" for i
  proof -
    have "count (mset (card_ids a)) i = (if i \<in> set (card_ids a) then 1 else 0)"
      using F by (intro count_mset_distinct) (simp add: fits_def)
    then have "i \<in> set (card_ids a) \<Longrightarrow> count (mset (card_ids a)) i = 1"
      "i \<notin> set (card_ids a) \<Longrightarrow> count (mset (card_ids a)) i = 0" by (simp_all only: if_True if_False)
    moreover have "count (held_cards H) i \<le> 1" using L by (simp add: ledger_def)
    moreover have "i \<in> set (card_ids a) \<Longrightarrow> count (held_cards H) i = 0"
      using F by (auto simp: fits_def not_in_iff [symmetric])
    ultimately show ?thesis unfolding plus_multiset.rep_eq by (cases "i \<in> set (card_ids a)") linarith+
  qed
  ultimately show ?thesis using L F vram
    by (auto simp: ledger_def pool_shape_def fits_def)
qed

lemma ledger_usable_free:
  assumes L: "ledger p H" and g: "g \<in> set (gpus (total p))" and u: "usable p share g"
  shows "unat (gi_index g) \<notin># held_cards H"
  using assms dense_in_range [of "gpus (total p)" g]
  by (auto simp: ledger_def usable_def pool_shape_def split: if_splits)

definition admits :: "resource_pool \<Rightarrow> resource_spec \<Rightarrow> bool" where
  "admits p spec \<longleftrightarrow> rs_cpu spec \<le> available_cpu p \<and> rs_memory_mb spec \<le> available_memory_mb p
     \<and> unat (rs_gpu spec) \<le> length (usable_cards p spec)"

definition granted :: "resource_pool \<Rightarrow> resource_spec \<Rightarrow> allocation" where
  "granted p spec = \<lparr>al_cpu = rs_cpu spec, al_memory_mb = rs_memory_mb spec,
     al_gpus = map whole (take (unat (rs_gpu spec)) (usable_cards p spec))\<rparr>"

lemma granted_fits:
  assumes L: "ledger p H" and A: "admits p spec"
  shows "fits p H (granted p spec)"
proof -
  let ?cs = "take (unat (rs_gpu spec)) (usable_cards p spec)"
  have shape: "pool_shape p" by (rule ledger_shape [OF L])
  have card: "g \<in> set (gpus (total p)) \<and> usable p (vram_per_gpu spec) g" if "g \<in> set ?cs" for g
    using in_set_takeD [OF that] by (simp add: usable_cards_def)
  have "unat (gi_index g) < length (gpus (total p)) \<and> gpus (total p) ! unat (gi_index g) = g \<and> 0 < gi_vram_mb g"
    if "g \<in> set ?cs" for g
    using card [OF that] shape dense_in_range by (auto simp: pool_shape_def usable_def)
  then have "whole_cards (gpus (total p)) (granted p spec)"
    by (auto simp: whole_cards_def granted_def list_all_iff whole_def)
  moreover have "distinct (card_ids (granted p spec))"
    using selected_ids_distinct [OF shape] by (simp add: granted_def whole_ids)
  moreover have "set (card_ids (granted p spec)) \<inter> set_mset (held_cards H) = {}"
    using card ledger_usable_free [OF L] by (fastforce simp: granted_def whole_ids)
  ultimately show ?thesis using A by (simp add: fits_def admits_def granted_def)
qed

lemma granted_free:
  assumes L: "ledger p H" and A: "admits p spec"
  shows "list_all (\<lambda>g. unat (ga_index g) < length (available_vram_mb p)
           \<and> available_vram_mb p ! unat (ga_index g) = ga_vram_mb g) (al_gpus (granted p spec))"
  using granted_fits [OF L A] L
  by (fastforce simp: list_all_iff fits_def whole_cards_def ledger_def pool_shape_def card_ids_def)

text \<open>
  A reservation either changes nothing, when the request is not admitted, or takes exactly what
  was asked for. It never panics on a pool whose ledger is in order.
\<close>

lemma try_reserve_refuses:
  assumes "pool_shape p" and "\<not> admits p spec"
  shows "try_reserve spec p = Some (None, p)"
  using assms try_find_gpus_shape [OF assms(1), of spec]
  by (auto simp: try_reserve_def admits_def not_le not_less)

lemma try_reserve_grants:
  assumes L: "ledger p H" and A: "admits p spec"
  shows "\<exists>p'. try_reserve spec p = Some (Some (granted p spec), p') \<and> ledger p' (add_mset (granted p spec) H)
           \<and> total p' = total p \<and> blocked p' = blocked p"
proof -
  let ?a = "granted p spec"
  have F: "fits p H ?a" by (rule granted_fits [OF L A])
  obtain vram where v: "take_vram (al_gpus ?a) (available_vram_mb p) = Some vram"
    "length vram = length (available_vram_mb p)"
    "\<forall>i < length (available_vram_mb p). vram ! i = (if i \<in> set (card_ids ?a) then 0 else available_vram_mb p ! i)"
    using take_vram_whole [OF _ granted_free [OF L A]] F by (auto simp: fits_def card_ids_def)
  have found: "(if rs_gpu spec = 0 then Some (Some []) else try_find_gpus p spec) = Some (Some (al_gpus ?a))"
    using A try_find_gpus_shape [OF ledger_shape [OF L], of spec] by (auto simp: granted_def admits_def)
  show ?thesis
    using ledger_add [OF L F v(2,3)] A v(1) found
    by (auto simp: try_reserve_def granted_def admits_def not_less)
qed

lemma ledger_remove:
  assumes L: "ledger p (add_mset a H)"
    and vram: "length vram = length (available_vram_mb p)"
      "\<forall>i < length (available_vram_mb p). vram ! i =
         (if i \<in> set (card_ids a) then gi_vram_mb (gpus (total p) ! i) else available_vram_mb p ! i)"
  shows "ledger (p\<lparr>available_cpu := available_cpu p + al_cpu a,
                    available_memory_mb := available_memory_mb p + al_memory_mb a,
                    available_vram_mb := vram\<rparr>) H"
proof -
  have "unat (available_cpu p + al_cpu a) = unat (available_cpu p) + unat (al_cpu a)"
    using L by (intro unat_add_le [of _ _ "cpu_cores (total p)"]) (simp add: ledger_def)
  moreover have "unat (available_memory_mb p + al_memory_mb a) = unat (available_memory_mb p) + unat (al_memory_mb a)"
    using L by (intro unat_add_le [of _ _ "memory_mb (total p)"]) (simp add: ledger_def)
  moreover have once: "count (mset (card_ids a)) i + count (held_cards H) i \<le> 1" for i
    using L by (simp add: ledger_def)
  have "count (held_cards H) i \<le> 1" for i using once [of i] by simp
  moreover have "i \<notin># held_cards H" if "i \<in> set (card_ids a)" for i
  proof -
    have "0 < count (mset (card_ids a)) i" by (rule count_mset_pos [OF that])
    then have "count (held_cards H) i = 0" using once [of i] by linarith
    then show ?thesis by (simp add: not_in_iff)
  qed
  ultimately show ?thesis using L vram
    by (auto simp: ledger_def pool_shape_def)
qed

lemma release_held:
  assumes L: "ledger p (add_mset a H)"
  shows "\<exists>p'. release a p = Some p' \<and> ledger p' H \<and> total p' = total p \<and> blocked p' = blocked p"
proof -
  have once: "count (mset (card_ids a)) i + count (held_cards H) i \<le> 1" for i
    using L by (simp add: ledger_def)
  have dist: "distinct (card_ids a)"
    using once by (intro distinct_if_count) (meson add_leD1)
  have "whole_cards (gpus (total p)) a" using L by (simp add: ledger_def)
  then have "list_all (\<lambda>g. unat (ga_index g) < length (available_vram_mb p) \<and> available_vram_mb p ! unat (ga_index g) = 0
      \<and> ga_vram_mb g = gi_vram_mb (gpus (total p) ! unat (ga_index g))) (al_gpus a)"
    using L by (auto simp: whole_cards_def list_all_iff ledger_def pool_shape_def card_ids_def)
  from give_vram_whole [OF _ this] dist obtain vram where v:
    "give_vram (al_gpus a) (available_vram_mb p) = Some vram" "length vram = length (available_vram_mb p)"
    "\<forall>i < length (available_vram_mb p). vram ! i =
       (if i \<in> set (card_ids a) then gi_vram_mb (gpus (total p) ! i) else available_vram_mb p ! i)"
    by (auto simp: card_ids_def)
  with ledger_remove [OF L v(2,3)] show ?thesis by (simp add: release_def)
qed

text \<open>What is free is determined by what is held, so undoing a reservation restores the pool.\<close>

lemma ledger_unique:
  assumes "ledger p H" "ledger q H" "total p = total q" "blocked p = blocked q"
  shows "p = q"
proof -
  have "available_cpu p = available_cpu q" "available_memory_mb p = available_memory_mb q"
    using assms by (simp_all add: ledger_def word_unat_eq_iff)
  moreover have "available_vram_mb p = available_vram_mb q"
    using assms by (intro nth_equalityI) (simp_all add: ledger_def pool_shape_def)
  ultimately show ?thesis using assms(3,4) by simp
qed

lemma reserve_card_ledger:
  assumes L: "ledger p H"
  shows "reserve_card index p = Some (None, p) \<or>
    (\<exists>a p'. reserve_card index p = Some (Some a, p') \<and> ledger p' (add_mset a H)
       \<and> total p' = total p \<and> blocked p' = blocked p \<and> card_ids a = [unat index])"
proof (cases "find (\<lambda>gpu. gi_index gpu = index) (gpus (total p))")
  case None
  then show ?thesis by (simp add: reserve_card_def)
next
  case (Some gpu)
  then have g: "gpu \<in> set (gpus (total p))" "gi_index gpu = index" using find_Some_imp by fastforce+
  then have i: "unat index < length (gpus (total p))" "gpus (total p) ! unat index = gpu"
    using L dense_in_range by (auto simp: ledger_def pool_shape_def)
  have len: "length (available_vram_mb p) = length (gpus (total p))"
    using L by (simp add: ledger_def pool_shape_def)
  show ?thesis
  proof (cases "gi_vram_mb gpu = 0 \<or> available_vram_mb p ! unat index \<noteq> gi_vram_mb gpu")
    case True
    then show ?thesis using Some i len by (auto simp: reserve_card_def)
  next
    case False
    let ?a = "\<lparr>al_cpu = 0, al_memory_mb = 0, al_gpus = [\<lparr>ga_index = index, ga_vram_mb = gi_vram_mb gpu\<rparr>]\<rparr>"
    have "fits p H ?a"
      using False L i len
      by (auto simp: fits_def whole_cards_def card_ids_def ledger_def word_gt_0 split: if_splits)
    from ledger_add [OF L this, of "(available_vram_mb p)[unat index := 0]"]
    have "ledger (p\<lparr>available_vram_mb := (available_vram_mb p)[unat index := 0]\<rparr>) (add_mset ?a H)"
      by (simp add: nth_list_update card_ids_def)
    moreover have "card_ids ?a = [unat index]" by (simp add: card_ids_def)
    ultimately show ?thesis using False Some i len by (auto simp: reserve_card_def)
  qed
qed

lemma book_gpu_whole:
  assumes "distinct (map (\<lambda>g. unat (ga_index g)) gs)"
    and "list_all (\<lambda>g. unat (ga_index g) < length free \<and> free ! unat (ga_index g) = ga_vram_mb g) gs"
  shows "take_vram gs free = Some (fold book_gpu gs free)"
  using assms
proof (induction gs arbitrary: free)
  case (Cons g gs)
  let ?free = "free[unat (ga_index g) := 0]"
  have "list_all (\<lambda>g. unat (ga_index g) < length ?free \<and> ?free ! unat (ga_index g) = ga_vram_mb g) gs"
    using Cons.prems by (auto simp: list_all_iff nth_list_update)
  with Cons show ?case by (simp add: book_gpu_def saturating_sub_def)
qed simp

text \<open>Booking what fits, as for a job taken back after a restart, agrees with reserving it.\<close>

lemma book_ledger:
  assumes L: "ledger p H" and F: "fits p H a"
  shows "ledger (book a p) (add_mset a H)"
proof -
  have free: "list_all (\<lambda>g. unat (ga_index g) < length (available_vram_mb p)
      \<and> available_vram_mb p ! unat (ga_index g) = ga_vram_mb g) (al_gpus a)"
    using F L by (fastforce simp: list_all_iff fits_def whole_cards_def ledger_def pool_shape_def card_ids_def)
  have dist: "distinct (map (\<lambda>g. unat (ga_index g)) (al_gpus a))" using F by (simp add: fits_def card_ids_def)
  have le: "saturating_sub (available_cpu p) (al_cpu a) = available_cpu p - al_cpu a"
    "saturating_sub (available_memory_mb p) (al_memory_mb a) = available_memory_mb p - al_memory_mb a"
    using F by (auto simp: fits_def saturating_sub_def not_less dest: leD)
  have "length (fold book_gpu (al_gpus a) (available_vram_mb p)) = length (available_vram_mb p)
    \<and> (\<forall>i < length (available_vram_mb p). fold book_gpu (al_gpus a) (available_vram_mb p) ! i =
         (if i \<in> set (card_ids a) then 0 else available_vram_mb p ! i))"
    using take_vram_whole [OF dist free] by (simp add: book_gpu_whole [OF dist free] card_ids_def)
  then show ?thesis using ledger_add [OF L F] by (simp add: book_def le)
qed

lemma ledger_set_blocked:
  "ledger p H \<Longrightarrow> length b = length (blocked p) \<Longrightarrow> ledger (p\<lparr>blocked := b\<rparr>) H"
  by (simp add: ledger_def pool_shape_def)

section \<open>A pool in use\<close>

text \<open>
  A pool with the allocations its clients hold: a reservation hands one out, a release takes a
  held one back, the card monitor rewrites the blocked flags.
\<close>

inductive pool_step :: "resource_pool \<times> allocation multiset \<Rightarrow> resource_pool \<times> allocation multiset \<Rightarrow> bool" where
  ps_reserve: "try_reserve spec p = Some (Some a, p') \<Longrightarrow> pool_step (p, H) (p', add_mset a H)"
| ps_refuse: "try_reserve spec p = Some (None, p') \<Longrightarrow> pool_step (p, H) (p', H)"
| ps_card: "reserve_card i p = Some (Some a, p') \<Longrightarrow> pool_step (p, H) (p', add_mset a H)"
| ps_card_taken: "reserve_card i p = Some (None, p') \<Longrightarrow> pool_step (p, H) (p', H)"
| ps_release: "release a p = Some p' \<Longrightarrow> pool_step (p, add_mset a H) (p', H)"
| ps_block: "length b = length (blocked p) \<Longrightarrow> pool_step (p, H) (p\<lparr>blocked := b\<rparr>, H)"

definition pool_init :: "resource_pool \<times> allocation multiset \<Rightarrow> bool" where
  "pool_init s \<longleftrightarrow> (\<exists>r. dense (gpus r) \<and> s = (pool_new r, {#}))"

lemma try_reserve_cases:
  assumes "ledger p H"
  obtains (refused) "\<not> admits p spec" "try_reserve spec p = Some (None, p)"
  | (granted) p' where "admits p spec" "try_reserve spec p = Some (Some (granted p spec), p')"
      "ledger p' (add_mset (granted p spec) H)" "total p' = total p" "blocked p' = blocked p"
  using try_reserve_refuses [OF ledger_shape [OF assms], of spec] try_reserve_grants [OF assms, of spec]
  by (cases "admits p spec") blast+

lemma can_admit_shape: "pool_shape p \<Longrightarrow> can_admit p spec = Some (admits p spec)"
  using try_find_gpus_shape [of p spec] by (auto simp: can_admit_def admits_def)

lemma can_admit_ledger: "ledger p H \<Longrightarrow> can_admit p spec = Some (admits p spec)"
  by (rule can_admit_shape [OF ledger_shape])

lemma try_reserve_refused_iff:
  assumes "ledger p H"
  shows "try_reserve spec p = Some (None, p) \<longleftrightarrow> can_admit p spec = Some False"
  by (cases rule: try_reserve_cases [OF assms, of spec]) (simp_all add: can_admit_ledger [OF assms])

lemma try_reserve_granted:
  assumes "ledger p H" "try_reserve spec p = Some (Some a, p')"
  shows "can_admit p spec = Some True \<and> a = granted p spec"
  by (cases rule: try_reserve_cases [OF assms(1), of spec]) (use assms in \<open>simp_all add: can_admit_ledger\<close>)

lemma try_reserve_ledger:
  assumes "ledger p H" "try_reserve spec p = Some (r, p')"
  shows "ledger p' (case r of None \<Rightarrow> H | Some a \<Rightarrow> add_mset a H) \<and> total p' = total p \<and> blocked p' = blocked p"
  by (cases rule: try_reserve_cases [OF assms(1), of spec]) (use assms in auto)

lemma reserve_card_ledger':
  assumes "ledger p H" "reserve_card i p = Some (r, p')"
  shows "ledger p' (case r of None \<Rightarrow> H | Some a \<Rightarrow> add_mset a H) \<and> total p' = total p \<and> blocked p' = blocked p"
  using reserve_card_ledger [OF assms(1), of i] assms by auto

lemma pool_step_ledger:
  assumes "ledger p H" "pool_step (p, H) (p', H')"
  shows "ledger p' H'"
  using assms(2)
proof cases
  case (ps_reserve spec a)
  then show ?thesis using try_reserve_ledger [OF assms(1)] by fastforce
next
  case (ps_refuse spec)
  then show ?thesis using try_reserve_ledger [OF assms(1)] by fastforce
next
  case (ps_card i a)
  then show ?thesis using reserve_card_ledger' [OF assms(1)] by fastforce
next
  case (ps_card_taken i)
  then show ?thesis using reserve_card_ledger' [OF assms(1)] by fastforce
next
  case (ps_release a)
  then show ?thesis using release_held [of p a H'] assms(1) by auto
next
  case (ps_block b)
  then show ?thesis using ledger_set_blocked [OF assms(1)] by simp
qed

interpretation pool_inv: invariant_system pool_init pool_step "\<lambda>(p, H). ledger p H"
  by unfold_locales (auto simp: pool_init_def ledger_new intro: pool_step_ledger)

section \<open>Properties of the pool\<close>


definition demo_gpu :: "u32 \<Rightarrow> u64 \<Rightarrow> gpu_info" where
  "demo_gpu i vram = \<lparr>gi_index = i, gi_name = ''GPU'', gi_vram_mb = vram, gi_uuid = []\<rparr>"

definition demo_resources :: system_resources where
  "demo_resources = \<lparr>cpu_cores = 16, memory_mb = 32000, gpus = [demo_gpu 0 16000, demo_gpu 1 16000]\<rparr>"

definition demo_spec :: resource_spec where
  "demo_spec = \<lparr>rs_cpu = 4, rs_memory_mb = 8000, rs_gpu = 1, rs_vram_mb = 12000\<rparr>"

definition demo_alloc :: allocation where
  "demo_alloc = \<lparr>al_cpu = 4, al_memory_mb = 8000, al_gpus = [\<lparr>ga_index = 0, ga_vram_mb = 16000\<rparr>]\<rparr>"

definition demo_pool :: resource_pool where
  "demo_pool = \<lparr>total = demo_resources, available_cpu = 12, available_memory_mb = 24000,
     available_vram_mb = [0, 16000], blocked = [False, False]\<rparr>"

lemmas demo_defs = demo_gpu_def demo_resources_def demo_spec_def demo_alloc_def demo_pool_def

lemma demo_dense: "dense (gpus demo_resources)"
  by (simp add: dense_def demo_defs upt_rec)

lemma demo_reserve: "try_reserve demo_spec (pool_new demo_resources) = Some (Some demo_alloc, demo_pool)"
  by code_simp

lemma demo_reach: "reach pool_init pool_step (demo_pool, {#demo_alloc#})"
proof -
  have "reach pool_init pool_step (pool_new demo_resources, {#})"
    by (rule reach_init) (use demo_dense in \<open>auto simp: pool_init_def\<close>)
  then show ?thesis by (rule reach_step) (rule ps_reserve [OF demo_reserve])
qed

lemma demo_ledger: "ledger demo_pool {#demo_alloc#}"
  using pool_inv.inv_reach [OF demo_reach] by simp


text \<open>
  C31: On a pool in order, \<open>try_reserve\<close> grants exactly what \<open>can_admit\<close> announces, and a refused
  reservation leaves the pool unchanged. What is granted is the processors and memory asked for
  and, of the unblocked cards that nobody holds and that carry their share of the job's memory,
  the first ones in index order, as many as asked for.
\<close>

theorem try_reserve_grants_iff_can_admit:
  assumes L: "ledger p H"
  shows "\<exists>ok r p'. can_admit p spec = Some ok \<and> try_reserve spec p = Some (r, p')
    \<and> (\<not> ok \<longrightarrow> r = None \<and> p' = p)
    \<and> (ok \<longrightarrow> r = Some \<lparr>al_cpu = rs_cpu spec, al_memory_mb = rs_memory_mb spec,
                al_gpus = map whole (take (unat (rs_gpu spec)) (usable_cards p spec))\<rparr>
         \<and> length (al_gpus (the r)) = unat (rs_gpu spec))"
proof -
  have "can_admit p spec = Some (admits p spec)"
    by (rule can_admit_ledger [OF L])
  then show ?thesis
    by (cases rule: try_reserve_cases [OF L, of spec]) (auto simp: granted_def admits_def)
qed

theorem try_reserve_grants_iff_can_admit_witness:
  "ledger (pool_new demo_resources) {#} \<and>
   (\<exists>ok r p'. can_admit (pool_new demo_resources) demo_spec = Some ok
     \<and> try_reserve demo_spec (pool_new demo_resources) = Some (r, p') \<and> r = Some demo_alloc)"
  using try_reserve_grants_iff_can_admit [OF ledger_new [OF demo_dense], of demo_spec]
    ledger_new [OF demo_dense] by (auto simp: demo_reserve)

text \<open>
  Releasing an allocation just reserved restores the pool exactly, and releasing
  allocations in any order gives back everything: with nothing held the pool is the new pool
  of its inventory, but for the blocked flags.
\<close>

theorem release_restores:
  assumes L: "ledger p H"
  shows "(try_reserve spec p = Some (Some a, p') \<longrightarrow> release a p' = Some p)
    \<and> (H = {#} \<longrightarrow> p = (pool_new (total p))\<lparr>blocked := blocked p\<rparr>)"
proof (intro conjI impI)
  assume R: "try_reserve spec p = Some (Some a, p')"
  have "ledger p' (add_mset a H)" "total p' = total p" "blocked p' = blocked p"
    using try_reserve_ledger [OF L R] by auto
  then show "release a p' = Some p"
    using release_held [of p' a H] ledger_unique [OF L] by fastforce
next
  assume "H = {#}"
  moreover have "ledger ((pool_new (total p))\<lparr>blocked := blocked p\<rparr>) {#}"
    using L by (intro ledger_set_blocked ledger_new) (auto simp: ledger_def pool_shape_def pool_new_def)
  ultimately show "p = (pool_new (total p))\<lparr>blocked := blocked p\<rparr>"
    using L by (intro ledger_unique) (auto simp: pool_new_def)
qed

theorem release_restores_witness:
  "release demo_alloc demo_pool = Some (pool_new demo_resources)"
  using release_restores [OF ledger_new [OF demo_dense], of demo_spec demo_alloc demo_pool] demo_reserve by simp

text \<open>
  A job could ever fit a node exactly when the node's pool, with nothing held and no card
  blocked, would admit it; and what a pool in use admits could ever fit it. So refusing a job
  that fits nowhere never refuses one that could run.
\<close>

theorem could_fit_iff_empty_pool_admits:
  assumes L: "ledger p H"
  shows "(could_fit p spec \<longleftrightarrow> can_admit (pool_new (total p)) spec = Some True)
    \<and> (can_admit p spec = Some True \<longrightarrow> could_fit p spec)"
proof -
  have new: "pool_shape (pool_new (total p))" and shape: "pool_shape p"
    using L ledger_shape ledger_new by (auto simp: ledger_def pool_shape_def)
  have "usable (pool_new (total p)) share g \<longleftrightarrow> gi_vram_mb g > 0 \<and> gi_vram_mb g \<ge> share"
    if "g \<in> set (gpus (total p))" for g share
    using that shape dense_in_range [of "gpus (total p)" g] by (auto simp: usable_def pool_new_def pool_shape_def)
  then have fit: "could_fit p spec \<longleftrightarrow> admits (pool_new (total p)) spec"
    by (auto simp: could_fit_def admits_def usable_cards_def pool_new_def Let_def cong: filter_cong)
  have "length (usable_cards p spec)
      \<le> length (filter (\<lambda>g. gi_vram_mb g > 0 \<and> gi_vram_mb g \<ge> vram_per_gpu spec) (gpus (total p)))"
    unfolding usable_cards_def by (rule length_filter_le_filter) (simp add: usable_def)
  moreover have "available_cpu p \<le> cpu_cores (total p)" "available_memory_mb p \<le> memory_mb (total p)"
    using L by (auto simp: ledger_def word_le_nat_alt)
  ultimately have "admits p spec \<Longrightarrow> could_fit p spec"
    by (auto simp: admits_def could_fit_def Let_def)
  with fit show ?thesis by (simp add: can_admit_shape new shape)
qed

theorem could_fit_iff_empty_pool_admits_witness:
  "could_fit demo_pool demo_spec = (can_admit (pool_new (total demo_pool)) demo_spec = Some True)"
  using could_fit_iff_empty_pool_admits [of demo_pool "{#demo_alloc#}" demo_spec]
    demo_ledger by blast

end
