(* ===== verification/Job_Model.thy ===== *)
theory Job_Model
  imports Resource_Pool
begin

text \<open>
  The runtime data of a workflow (src/src/workflow/model.rs), the handles and errors of executors
  (src/src/executor/mod.rs) and the events published on a change of state (src/src/event.rs).
\<close>

section \<open>States\<close>

datatype run_state = RunPending | RunRunning | RunSucceeded | RunFailed | RunCancelled

definition run_state_as_str :: "run_state \<Rightarrow> string" where
  "run_state_as_str s =
     (case s of RunPending \<Rightarrow> ''Pending'' | RunRunning \<Rightarrow> ''Running'' | RunSucceeded \<Rightarrow> ''Succeeded''
      | RunFailed \<Rightarrow> ''Failed'' | RunCancelled \<Rightarrow> ''Cancelled'')"

definition run_state_from_str :: "string \<Rightarrow> run_state option" where
  "run_state_from_str s =
     (if s = ''Pending'' then Some RunPending
      else if s = ''Running'' then Some RunRunning
      else if s = ''Succeeded'' then Some RunSucceeded
      else if s = ''Failed'' then Some RunFailed
      else if s = ''Cancelled'' then Some RunCancelled
      else None)"

datatype job_state = Pending | Queued | Running | Succeeded | Failed | Skipped | Cancelled | TimedOut | Interrupted

definition is_terminal :: "job_state \<Rightarrow> bool" where
  "is_terminal s \<longleftrightarrow> s \<in> {Succeeded, Failed, Skipped, Cancelled, TimedOut, Interrupted}"

definition as_str :: "job_state \<Rightarrow> string" where
  "as_str s =
     (case s of Pending \<Rightarrow> ''Pending'' | Queued \<Rightarrow> ''Queued'' | Running \<Rightarrow> ''Running''
      | Succeeded \<Rightarrow> ''Succeeded'' | Failed \<Rightarrow> ''Failed'' | Skipped \<Rightarrow> ''Skipped''
      | Cancelled \<Rightarrow> ''Cancelled'' | TimedOut \<Rightarrow> ''TimedOut'' | Interrupted \<Rightarrow> ''Interrupted'')"

definition from_str :: "string \<Rightarrow> job_state option" where
  "from_str s =
     (if s = ''Pending'' then Some Pending
      else if s = ''Queued'' then Some Queued
      else if s = ''Running'' then Some Running
      else if s = ''Succeeded'' then Some Succeeded
      else if s = ''Failed'' then Some Failed
      else if s = ''Skipped'' then Some Skipped
      else if s = ''Cancelled'' then Some Cancelled
      else if s = ''TimedOut'' then Some TimedOut
      else if s = ''Interrupted'' then Some Interrupted
      else None)"

definition to_code :: "job_state \<Rightarrow> u64" where
  "to_code s =
     (case s of Pending \<Rightarrow> 0 | Queued \<Rightarrow> 1 | Running \<Rightarrow> 2 | Succeeded \<Rightarrow> 3 | Failed \<Rightarrow> 4 | Skipped \<Rightarrow> 5
      | Cancelled \<Rightarrow> 6 | TimedOut \<Rightarrow> 7 | Interrupted \<Rightarrow> 8)"

definition from_code :: "u64 \<Rightarrow> job_state option" where
  "from_code code =
     (if code = 0 then Some Pending
      else if code = 1 then Some Queued
      else if code = 2 then Some Running
      else if code = 3 then Some Succeeded
      else if code = 4 then Some Failed
      else if code = 5 then Some Skipped
      else if code = 6 then Some Cancelled
      else if code = 7 then Some TimedOut
      else if code = 8 then Some Interrupted
      else None)"

definition derive_run_state :: "job_state list \<Rightarrow> run_state" where
  "derive_run_state states =
     (if list_ex (\<lambda>s. s \<in> {Failed, TimedOut, Interrupted}) states then RunFailed
      else if list_ex (\<lambda>s. s = Cancelled) states then RunCancelled
      else if list_ex (\<lambda>s. s \<in> {Running, Queued}) states then RunRunning
      else if states \<noteq> [] \<and> list_all (\<lambda>s. s \<in> {Succeeded, Skipped}) states then RunSucceeded
      else RunPending)"

text \<open>
  How serde writes and reads the states: their names; a name that is none is an error with its text.
\<close>

definition run_state_serialize :: "run_state \<Rightarrow> string" where
  "run_state_serialize s = run_state_as_str s"

definition run_state_deserialize :: "string \<Rightarrow> string + run_state" where
  "run_state_deserialize s =
     (case run_state_from_str s of Some state \<Rightarrow> Inr state | None \<Rightarrow> Inl (''unknown RunState: '' @ s))"

definition job_state_serialize :: "job_state \<Rightarrow> string" where
  "job_state_serialize s = as_str s"

definition job_state_deserialize :: "string \<Rightarrow> string + job_state" where
  "job_state_deserialize s =
     (case from_str s of Some state \<Rightarrow> Inr state | None \<Rightarrow> Inl (''unknown JobState: '' @ s))"

section \<open>Executors: handles, results, errors\<close>

datatype backend =
    Process (bk_scope: "string option") (bk_exit_file: "string option")
  | Container string
  | Remote string string

record job_handle =
  host_pid :: u32
  handle_backend :: backend

definition job_handle_process :: "u32 \<Rightarrow> string option \<Rightarrow> string option \<Rightarrow> job_handle" where
  "job_handle_process pid scope exit_file = \<lparr>host_pid = pid, handle_backend = Process scope exit_file\<rparr>"

definition handle_exit_file :: "job_handle \<Rightarrow> string option" where
  "handle_exit_file h = (case handle_backend h of Process scope exit_file \<Rightarrow> exit_file | _ \<Rightarrow> None)"

definition handle_scope :: "job_handle \<Rightarrow> string option" where
  "handle_scope h = (case handle_backend h of Process scope exit_file \<Rightarrow> scope | _ \<Rightarrow> None)"

definition job_handle_remote :: "u32 \<Rightarrow> string \<Rightarrow> string \<Rightarrow> job_handle" where
  "job_handle_remote pid run_id job_id = \<lparr>host_pid = pid, handle_backend = Remote run_id job_id\<rparr>"

datatype poll_result = StillRunning | Exited i32

text \<open>An I/O error is its message.\<close>

datatype executor_error =
    SpawnFailed string | WaitFailed string | KillFailed string | LogSetupFailed string
  | LogReadFailed string | Unreachable string | RemoteError string | Rejected string

definition executor_error_display :: "executor_error \<Rightarrow> string" where
  "executor_error_display e =
     (case e of
        SpawnFailed s \<Rightarrow> ''spawn failed: '' @ s
      | WaitFailed s \<Rightarrow> ''wait failed: '' @ s
      | KillFailed s \<Rightarrow> ''kill failed: '' @ s
      | LogSetupFailed s \<Rightarrow> ''log setup failed: '' @ s
      | LogReadFailed s \<Rightarrow> ''log read failed: '' @ s
      | Unreachable s \<Rightarrow> ''node unreachable: '' @ s
      | RemoteError s \<Rightarrow> ''node error: '' @ s
      | Rejected s \<Rightarrow> ''rejected: '' @ s)"

section \<open>Jobs and runs\<close>

record execution =
  ex_node :: nat
  ex_allocation :: allocation
  ex_handle :: "job_handle option"

record job_instance =
  ji_job_id :: string
  ji_job_seq :: u64
  ji_spec :: job_spec
  ji_state :: job_state
  ji_executions :: "execution list"
  ji_cancelling :: bool
  ji_started_at :: "datetime option"
  ji_ended_at :: "datetime option"
  ji_exit_code :: "i32 option"
  ji_log_path :: "string option"
  ji_rejected :: "(nat \<times> string) list"
  ji_reason :: "string option"

definition job_instance_new :: "job_spec \<Rightarrow> u64 \<Rightarrow> job_instance" where
  "job_instance_new spec job_seq =
     \<lparr>ji_job_id = js_id spec, ji_job_seq = job_seq, ji_spec = spec, ji_state = Pending, ji_executions = [],
      ji_cancelling = False, ji_started_at = None, ji_ended_at = None, ji_exit_code = None,
      ji_log_path = None, ji_rejected = [], ji_reason = None\<rparr>"

definition rejected_by :: "job_instance \<Rightarrow> nat \<Rightarrow> bool" where
  "rejected_by job node = list_ex (\<lambda>(rejecter, _). rejecter = node) (ji_rejected job)"

record workflow_run =
  wr_run_id :: string
  wr_run_seq :: u64
  wr_workflow_name :: string
  wr_spec :: workflow_spec
  wr_jobs :: "(string \<times> job_instance) list"
  wr_created_at :: datetime

text \<open>Collecting into a \<open>HashMap\<close> inserts in order, so of two jobs with one id the later stays.\<close>

fun collect_jobs :: "u64 \<Rightarrow> job_spec list \<Rightarrow> (string \<times> job_instance) list \<Rightarrow> (string \<times> job_instance) list" where
  "collect_jobs job_seq [] jobs = jobs"
| "collect_jobs job_seq (spec # specs) jobs =
     collect_jobs (job_seq + 1) specs (hm_insert (js_id spec) (job_instance_new spec job_seq) jobs)"

definition workflow_run_new :: "datetime \<Rightarrow> string \<Rightarrow> u64 \<Rightarrow> workflow_spec \<Rightarrow> u64 \<Rightarrow> workflow_run" where
  "workflow_run_new now run_id run_seq spec job_seq_start =
     \<lparr>wr_run_id = run_id, wr_run_seq = run_seq, wr_workflow_name = ws_name spec, wr_spec = spec,
      wr_jobs = collect_jobs job_seq_start (ws_jobs spec) [], wr_created_at = now\<rparr>"

definition run_status :: "workflow_run \<Rightarrow> run_state" where
  "run_status run = derive_run_state (map (\<lambda>(_, job). ji_state job) (wr_jobs run))"

section \<open>Events\<close>

record job_event =
  je_run_seq :: u64
  je_job_seq :: u64
  je_state_code :: u64
  je_emitted_at :: u64

definition job_event_new :: "u64 \<Rightarrow> u64 \<Rightarrow> job_state \<Rightarrow> u64 \<Rightarrow> job_event" where
  "job_event_new run_seq job_seq new_state emitted_at =
     \<lparr>je_run_seq = run_seq, je_job_seq = job_seq, je_state_code = to_code new_state, je_emitted_at = emitted_at\<rparr>"

text \<open>The time of an event: the seconds and nanoseconds of CLOCK_MONOTONIC_RAW.\<close>

definition monotonic_raw_ns :: "int \<Rightarrow> int \<Rightarrow> u64" where
  "monotonic_raw_ns tv_sec tv_nsec = word_of_int tv_sec * 1000000000 + word_of_int tv_nsec"

text \<open>\<open>None\<close> is the panic of \<open>expect\<close>.\<close>

definition job_event_state :: "job_event \<Rightarrow> job_state option" where
  "job_event_state event = from_code (je_state_code event)"

section \<open>Facts\<close>

interpretation job_state_str: codec as_str from_str
proof
  show "from_str (as_str x) = Some x" for x by (cases x) (simp_all add: as_str_def from_str_def)
  show "from_str b = Some x \<Longrightarrow> as_str x = b" for b x
    by (auto simp: from_str_def as_str_def split: if_splits)
qed

interpretation job_state_code: codec to_code from_code
proof
  show "from_code (to_code x) = Some x" for x by (cases x) (simp_all add: to_code_def from_code_def)
  show "from_code b = Some x \<Longrightarrow> to_code x = b" for b x
    by (auto simp: from_code_def to_code_def split: if_splits)
qed

interpretation run_state_str: codec run_state_as_str run_state_from_str
proof
  show "run_state_from_str (run_state_as_str x) = Some x" for x
    by (cases x) (simp_all add: run_state_as_str_def run_state_from_str_def)
  show "run_state_from_str b = Some x \<Longrightarrow> run_state_as_str x = b" for b x
    by (auto simp: run_state_from_str_def run_state_as_str_def split: if_splits)
qed

lemma job_event_state_new [simp]: "job_event_state (job_event_new r j s t) = Some s"
  by (simp add: job_event_state_def job_event_new_def job_state_code.dec_enc)

lemma states_serialized:
  "run_state_deserialize (run_state_serialize r) = Inr r" "job_state_deserialize (job_state_serialize j) = Inr j"
  by (simp_all add: run_state_deserialize_def run_state_serialize_def job_state_deserialize_def job_state_serialize_def
    run_state_str.dec_enc job_state_str.dec_enc)

text \<open>The clock does not wrap for 584 years.\<close>

lemma monotonic_raw_ns_exact:
  assumes "0 \<le> s" "0 \<le> ns" "ns < 1000000000" "s < 18446744073"
  shows "uint (monotonic_raw_ns s ns) = s * 1000000000 + ns"
  using assms by (simp add: monotonic_raw_ns_def uint_word_ariths uint_word_of_int take_bit_eq_mod mod_simps)


lemma is_terminal_simps [simp]:
  "\<not> is_terminal Pending" "\<not> is_terminal Queued" "\<not> is_terminal Running" "is_terminal Succeeded"
  "is_terminal Failed" "is_terminal Skipped" "is_terminal Cancelled" "is_terminal TimedOut" "is_terminal Interrupted"
  by (simp_all add: is_terminal_def)

lemma collect_jobs_keys:
  "fst ` set (collect_jobs n specs jobs) = js_id ` set specs \<union> fst ` set jobs"
  by (induction specs arbitrary: n jobs) (auto simp: dom_update)

lemma collect_jobs_wf: "hm_wf jobs \<Longrightarrow> hm_wf (collect_jobs n specs jobs)"
  by (induction specs arbitrary: n jobs) (simp_all add: hm_wf_insert)

lemma collect_jobs_other:
  "k \<notin> js_id ` set specs \<Longrightarrow> hm_get (collect_jobs n specs jobs) k = hm_get jobs k"
  by (induction specs arbitrary: n jobs) (auto simp: hm_get_insert)

lemma collect_jobs_get:
  assumes "distinct (map js_id specs)" "i < length specs"
  shows "hm_get (collect_jobs n specs jobs) (js_id (specs ! i)) = Some (job_instance_new (specs ! i) (n + of_nat i))"
  using assms
proof (induction specs arbitrary: n jobs i)
  case (Cons spec specs)
  then show ?case
    by (cases i) (simp_all add: collect_jobs_other hm_get_insert algebra_simps)
qed simp

lemma job_instance_new_simps [simp]:
  "ji_state (job_instance_new spec n) = Pending" "ji_executions (job_instance_new spec n) = []"
  "ji_spec (job_instance_new spec n) = spec" "ji_job_id (job_instance_new spec n) = js_id spec"
  "ji_job_seq (job_instance_new spec n) = n" "ji_cancelling (job_instance_new spec n) = False"
  by (simp_all add: job_instance_new_def)

lemma collect_jobs_all:
  assumes "\<forall>(k, job) \<in> set jobs. P k job" "\<forall>spec \<in> set specs. \<forall>n. P (js_id spec) (job_instance_new spec n)"
  shows "\<forall>(k, job) \<in> set (collect_jobs n specs jobs). P k job"
  using assms
proof (induction specs arbitrary: n jobs)
  case (Cons spec specs)
  have "\<forall>(k, job) \<in> set (hm_insert (js_id spec) (job_instance_new spec n) jobs). P k job"
    using Cons.prems set_hm_insert [of "js_id spec" "job_instance_new spec n" jobs] by fastforce
  from Cons.IH [OF this] show ?case using Cons.prems(2) by simp
qed simp

section \<open>Properties of the job model\<close>

text \<open>
  A job state survives its text and its numeric form, and a run state its text, and nothing
  else is read as a state: the readers invert the writers and reject every other string and
  code. An event always decodes to the state it was built from, so its \<open>expect\<close> never fires.
\<close>

theorem state_codecs_roundtrip:
  "(from_str s = Some j \<longleftrightarrow> s = as_str j) \<and> (from_code c = Some j \<longleftrightarrow> c = to_code j)
   \<and> (run_state_from_str s = Some r \<longleftrightarrow> s = run_state_as_str r)
   \<and> job_event_state (job_event_new run_seq job_seq j at) = Some j"
  by (simp add: job_state_str.dec_iff job_state_code.dec_iff run_state_str.dec_iff)

lemma derive_run_state_set:
  "derive_run_state states =
     (if set states \<inter> {Failed, TimedOut, Interrupted} \<noteq> {} then RunFailed
      else if Cancelled \<in> set states then RunCancelled
      else if set states \<inter> {Running, Queued} \<noteq> {} then RunRunning
      else if set states \<noteq> {} \<and> set states \<subseteq> {Succeeded, Skipped} then RunSucceeded
      else RunPending)"
  by (auto simp: derive_run_state_def list_ex_iff list_all_iff)

lemma derive_run_state_pending:
  assumes "set states \<subseteq> {Pending}"
  shows "derive_run_state states = RunPending"
  using subset_singletonD [OF assms] by (auto simp: derive_run_state_set)

lemma derive_run_state_failed:
  "derive_run_state states = RunFailed \<longleftrightarrow> (\<exists>s \<in> set states. s \<in> {Failed, TimedOut, Interrupted})"
  by (simp add: derive_run_state_def list_ex_iff)

lemma derive_run_state_succeeded:
  "derive_run_state states = RunSucceeded \<longleftrightarrow> states \<noteq> [] \<and> (\<forall>s \<in> set states. s \<in> {Succeeded, Skipped})"
proof
  show "derive_run_state states = RunSucceeded \<Longrightarrow> states \<noteq> [] \<and> (\<forall>s \<in> set states. s \<in> {Succeeded, Skipped})"
    by (simp add: derive_run_state_def list_all_iff split: if_splits)
  assume r: "states \<noteq> [] \<and> (\<forall>s \<in> set states. s \<in> {Succeeded, Skipped})"
  then have "\<not> (\<exists>s \<in> set states. s \<in> {Failed, TimedOut, Interrupted})" "\<not> (\<exists>s \<in> set states. s = Cancelled)"
    "\<not> (\<exists>s \<in> set states. s \<in> {Running, Queued})" by force+
  moreover have "states \<noteq> []" "\<forall>s \<in> set states. s \<in> {Succeeded, Skipped}" using r by blast+
  ultimately show "derive_run_state states = RunSucceeded"
    unfolding derive_run_state_def list_ex_iff list_all_iff by (simp only: if_not_P if_P simp_thms)
qed

lemma derive_run_state_terminal:
  assumes "states \<noteq> []" "\<forall>s \<in> set states. is_terminal s"
  shows "derive_run_state states \<in> {RunSucceeded, RunFailed, RunCancelled}"
proof (cases "(\<exists>s \<in> set states. s \<in> {Failed, TimedOut, Interrupted}) \<or> (\<exists>s \<in> set states. s = Cancelled)")
  case True
  then have "derive_run_state states \<in> {RunFailed, RunCancelled}"
    unfolding derive_run_state_def list_ex_iff by (elim disjE) (simp_all only: if_True split: if_split, simp_all)
  then show ?thesis by auto
next
  case False
  then have "\<forall>s \<in> set states. s \<in> {Succeeded, Skipped}" using assms(2) unfolding is_terminal_def by blast
  then show ?thesis using assms(1) derive_run_state_succeeded [of states] by simp
qed

text \<open>
  The state of a run depends on which states its jobs are in, not on the order in which the
  map of jobs is iterated. A run has failed exactly when some job has; it has succeeded exactly
  when it has jobs and all of them succeeded or were skipped; and once every job of a run that
  has jobs is in a final state, so is the run.
\<close>

theorem derive_run_state_correct:
  "(set states = set states' \<longrightarrow> derive_run_state states = derive_run_state states')
   \<and> (derive_run_state states = RunFailed \<longleftrightarrow> (\<exists>s \<in> set states. s \<in> {Failed, TimedOut, Interrupted}))
   \<and> (derive_run_state states = RunSucceeded \<longleftrightarrow> states \<noteq> [] \<and> (\<forall>s \<in> set states. s \<in> {Succeeded, Skipped}))
   \<and> (states \<noteq> [] \<and> (\<forall>s \<in> set states. is_terminal s)
        \<longrightarrow> derive_run_state states \<in> {RunSucceeded, RunFailed, RunCancelled})"
  using derive_run_state_terminal [of states] derive_run_state_failed [of states]
    derive_run_state_succeeded [of states] by (simp add: derive_run_state_set)

theorem derive_run_state_correct_witness:
  "derive_run_state [Succeeded, Skipped, Cancelled] \<in> {RunSucceeded, RunFailed, RunCancelled}
   \<and> derive_run_state [Succeeded, Skipped, Cancelled] = derive_run_state [Cancelled, Skipped, Succeeded, Skipped]"
  using derive_run_state_correct [of "[Succeeded, Skipped, Cancelled]" "[Cancelled, Skipped, Succeeded, Skipped]"] by auto

text \<open>
  A new run of a workflow with distinct job ids has exactly one job per entry, all pending
  with nothing held, numbered consecutively from the given start, so no two jobs share a
  sequence number as long as there are fewer than 2^64; the run is pending.
\<close>

theorem workflow_run_new_jobs:
  assumes "distinct (map js_id (ws_jobs spec))" and "length (ws_jobs spec) \<le> 2 ^ 64"
    and "run = workflow_run_new now run_id run_seq spec start"
  shows "hm_wf (wr_jobs run) \<and> fst ` set (wr_jobs run) = js_id ` set (ws_jobs spec)
    \<and> (\<forall>i < length (ws_jobs spec). hm_get (wr_jobs run) (js_id (ws_jobs spec ! i))
          = Some (job_instance_new (ws_jobs spec ! i) (start + of_nat i)))
    \<and> inj_on (\<lambda>i. start + of_nat i) {..<length (ws_jobs spec)}
    \<and> run_status run = RunPending"
proof (intro conjI allI impI inj_onI)
  have run: "wr_jobs run = collect_jobs start (ws_jobs spec) []" by (simp add: assms(3) workflow_run_new_def)
  show "hm_wf (wr_jobs run)" by (simp add: run collect_jobs_wf)
  show "fst ` set (wr_jobs run) = js_id ` set (ws_jobs spec)" by (simp add: run collect_jobs_keys)
  show "hm_get (wr_jobs run) (js_id (ws_jobs spec ! i)) = Some (job_instance_new (ws_jobs spec ! i) (start + of_nat i))"
    if "i < length (ws_jobs spec)" for i
    using collect_jobs_get [OF assms(1) that] by (simp add: run)
  have "\<forall>(k, job) \<in> set (wr_jobs run). ji_state job = Pending"
    unfolding run by (rule collect_jobs_all) simp_all
  then have "set (map (\<lambda>(_, job). ji_state job) (wr_jobs run)) \<subseteq> {Pending}" by auto
  then show "run_status run = RunPending" unfolding run_status_def by (rule derive_run_state_pending)
next
  fix i j
  assume ij: "i \<in> {..<length (ws_jobs spec)}" "j \<in> {..<length (ws_jobs spec)}"
    and eq: "start + of_nat i = start + (of_nat j :: u64)"
  have "unat (of_nat i :: u64) = unat (of_nat j :: u64)" using eq by simp
  moreover have "i < 2 ^ 64" "j < 2 ^ 64" using ij assms(2) by auto
  ultimately show "i = j" by (simp add: unat_of_nat take_bit_nat_eq_self)
qed

theorem workflow_run_new_jobs_witness:
  "run_status (workflow_run_new 0 ''r'' 0
     \<lparr>ws_name = ''w'', ws_jobs = [\<lparr>js_id = ''a'', js_command = ''true'', js_depends_on = [],
        js_resources = resource_spec_default\<rparr>]\<rparr> 0) = RunPending"
  using workflow_run_new_jobs [OF _ _ refl, of "\<lparr>ws_name = ''w'', ws_jobs = [\<lparr>js_id = ''a'', js_command = ''true'',
    js_depends_on = [], js_resources = resource_spec_default\<rparr>]\<rparr>" 0 "''r''" 0 0] by simp

end
