(* ===== verification/Broadcast.thy ===== *)
theory Broadcast
  imports Job_Model
begin

text \<open>
  The event ring buffer (src/src/broadcast.rs): one producer, any number of receivers, a seqlock
  per slot. A payload is its list of words. The first part is the operations as they run
  undisturbed; the second cuts them at their atomic accesses and lets the accesses of all threads
  interleave. Accesses are taken in one total order; that the fences and the acquire and release
  accesses give that on weaker hardware is not modelled.
\<close>

section \<open>The operations\<close>

definition MAX_STAGING_WORDS :: nat where "MAX_STAGING_WORDS = 16"

record ring =
  rb_mask :: u64
  rb_versions :: "u64 list"
  rb_words :: "u64 list"
  rb_stride :: nat
  rb_producer :: u64

text \<open>\<open>next_power_of_two\<close> and \<open>next_multiple_of\<close> of the standard library.\<close>

function next_power_from :: "nat \<Rightarrow> nat \<Rightarrow> nat" where
  "next_power_from n p = (if p = 0 \<or> n \<le> p then p else next_power_from n (2 * p))"
  by auto
termination by (relation "measure (\<lambda>(n, p). n - p)") auto

declare next_power_from.simps [simp del]

definition next_power_of_two :: "nat \<Rightarrow> nat" where
  "next_power_of_two n = next_power_from n 1"

definition next_multiple_of :: "nat \<Rightarrow> nat \<Rightarrow> nat" where
  "next_multiple_of n m = (n + m - 1) div m * m"

text \<open>\<open>words\<close> is \<open>T::WORDS\<close>; \<open>None\<close> is the failed assertion.\<close>

definition channel :: "nat \<Rightarrow> nat \<Rightarrow> ring option" where
  "channel words capacity =
     (if words > MAX_STAGING_WORDS then None
      else let capacity = max (next_power_of_two capacity) 2;
               stride = next_multiple_of (words * 8) 64 div 8 in
           Some \<lparr>rb_mask = of_nat (capacity - 1), rb_versions = map (\<lambda>i. of_nat (2 * i)) [0..<capacity],
                 rb_words = replicate (capacity * stride) 0, rb_stride = stride, rb_producer = 0\<rparr>)"

definition slot_of :: "ring \<Rightarrow> u64 \<Rightarrow> nat" where
  "slot_of r pos = unat (and pos (rb_mask r))"

definition set_version :: "u64 \<Rightarrow> u64 \<Rightarrow> ring \<Rightarrow> ring" where
  "set_version pos v r = r\<lparr>rb_versions := (rb_versions r)[slot_of r pos := v]\<rparr>"

definition set_word :: "u64 \<Rightarrow> nat \<Rightarrow> u64 \<Rightarrow> ring \<Rightarrow> ring" where
  "set_word pos i w r = r\<lparr>rb_words := (rb_words r)[slot_of r pos * rb_stride r + i := w]\<rparr>"

definition claim :: "ring \<Rightarrow> u64 \<times> ring" where
  "claim r = (rb_producer r, r\<lparr>rb_producer := rb_producer r + 1\<rparr>)"

definition version_at :: "ring \<Rightarrow> u64 \<Rightarrow> u64" where
  "version_at r pos = rb_versions r ! slot_of r pos"

definition word_at :: "ring \<Rightarrow> u64 \<Rightarrow> nat \<Rightarrow> u64" where
  "word_at r pos i = rb_words r ! (slot_of r pos * rb_stride r + i)"

definition send :: "u64 list \<Rightarrow> ring \<Rightarrow> ring" where
  "send v r =
     (let (pos, r1) = claim r;
          r2 = set_version pos (2 * pos + 1) r1;
          r3 = fold (\<lambda>i. set_word pos i (v ! i)) [0..<length v] r2
      in set_version pos (2 * pos + 2) r3)"

definition producer_pos :: "ring \<Rightarrow> u64" where
  "producer_pos r = rb_producer r"

record receiver =
  rx_pos :: u64
  rx_laps :: u64

definition subscribe :: "ring \<Rightarrow> receiver" where
  "subscribe r = \<lparr>rx_pos = rb_producer r, rx_laps = 0\<rparr>"

definition catch_up :: "ring \<Rightarrow> receiver \<Rightarrow> receiver" where
  "catch_up r rx =
     rx\<lparr>rx_laps := rx_laps rx + 1, rx_pos := saturating_sub (rb_producer r) ((rb_mask r + 1) div 2)\<rparr>"

definition try_recv :: "nat \<Rightarrow> ring \<Rightarrow> receiver \<Rightarrow> u64 list option \<times> receiver" where
  "try_recv words r rx =
     (let pos = rx_pos rx; want = 2 * pos + 2; v1 = version_at r pos in
      if v1 < want then (None, rx)
      else if v1 > want then (None, catch_up r rx)
      else let staged = map (word_at r pos) [0..<words]; v2 = version_at r pos in
           if v1 \<noteq> v2 then (None, rx) else (Some staged, rx\<lparr>rx_pos := pos + 1\<rparr>))"

text \<open>A \<open>JobEvent\<close> is four words, in the order of its fields.\<close>

definition EVENT_WORDS :: nat where "EVENT_WORDS = 4"

definition event_words :: "job_event \<Rightarrow> u64 list" where
  "event_words e = [je_run_seq e, je_job_seq e, je_state_code e, je_emitted_at e]"

section \<open>Threads\<close>

text \<open>
  Where the producer stands between two atomic accesses: it has claimed a position, or has marked
  the slot as being written and stored some words.
\<close>

datatype sender = SIdle | SClaimed u64 "u64 list" | SWriting u64 "u64 list" nat

text \<open>
  Where a receiver stands: it has seen that it was lapped, or has loaded the version it wants and
  some words. Ghosts: what it has received with its positions, and where its current unbroken
  stretch began.
\<close>

datatype reader_pc = RIdle | RLapped | RReading u64 "u64 list"

record reader =
  rd_rx :: receiver
  rd_pc :: reader_pc
  rd_base :: nat
  rd_got :: "(nat \<times> u64 list) list"

text \<open>\<open>bs_sent\<close> is a ghost: the events by position.\<close>

record bsys =
  bs_ring :: ring
  bs_sender :: sender
  bs_readers :: "nat \<Rightarrow> reader option"
  bs_sent :: "u64 list list"

definition set_reader :: "nat \<Rightarrow> reader \<Rightarrow> bsys \<Rightarrow> bsys" where
  "set_reader i rd s = s\<lparr>bs_readers := (bs_readers s)(i \<mapsto> rd)\<rparr>"

inductive bstep :: "nat \<Rightarrow> bsys \<Rightarrow> bsys \<Rightarrow> bool" for words where
  b_claim: "bs_sender s = SIdle \<Longrightarrow> length v = words \<Longrightarrow> claim (bs_ring s) = (pos, r) \<Longrightarrow>
     bstep words s (s\<lparr>bs_ring := r, bs_sender := SClaimed pos v, bs_sent := bs_sent s @ [v]\<rparr>)"
| b_begin: "bs_sender s = SClaimed pos v \<Longrightarrow>
     bstep words s (s\<lparr>bs_ring := set_version pos (2 * pos + 1) (bs_ring s), bs_sender := SWriting pos v 0\<rparr>)"
| b_word: "bs_sender s = SWriting pos v k \<Longrightarrow> k < words \<Longrightarrow>
     bstep words s (s\<lparr>bs_ring := set_word pos k (v ! k) (bs_ring s), bs_sender := SWriting pos v (Suc k)\<rparr>)"
| b_end: "bs_sender s = SWriting pos v words \<Longrightarrow>
     bstep words s (s\<lparr>bs_ring := set_version pos (2 * pos + 2) (bs_ring s), bs_sender := SIdle\<rparr>)"
| b_subscribe: "bs_readers s i = None \<Longrightarrow>
     bstep words s (set_reader i \<lparr>rd_rx = subscribe (bs_ring s), rd_pc = RIdle,
                                  rd_base = length (bs_sent s), rd_got = []\<rparr> s)"
| b_lapped: "bs_readers s i = Some rd \<Longrightarrow> rd_pc rd = RIdle \<Longrightarrow>
     version_at (bs_ring s) (rx_pos (rd_rx rd)) > 2 * rx_pos (rd_rx rd) + 2 \<Longrightarrow>
     bstep words s (set_reader i (rd\<lparr>rd_pc := RLapped\<rparr>) s)"
| b_found: "bs_readers s i = Some rd \<Longrightarrow> rd_pc rd = RIdle \<Longrightarrow>
     version_at (bs_ring s) (rx_pos (rd_rx rd)) = 2 * rx_pos (rd_rx rd) + 2 \<Longrightarrow>
     bstep words s (set_reader i (rd\<lparr>rd_pc := RReading (2 * rx_pos (rd_rx rd) + 2) []\<rparr>) s)"
| b_read: "bs_readers s i = Some rd \<Longrightarrow> rd_pc rd = RReading v1 staged \<Longrightarrow> length staged < words \<Longrightarrow>
     bstep words s (set_reader i
       (rd\<lparr>rd_pc := RReading v1 (staged @ [word_at (bs_ring s) (rx_pos (rd_rx rd)) (length staged)])\<rparr>) s)"
| b_torn: "bs_readers s i = Some rd \<Longrightarrow> rd_pc rd = RReading v1 staged \<Longrightarrow> length staged = words \<Longrightarrow>
     version_at (bs_ring s) (rx_pos (rd_rx rd)) \<noteq> v1 \<Longrightarrow>
     bstep words s (set_reader i (rd\<lparr>rd_pc := RIdle\<rparr>) s)"
| b_got: "bs_readers s i = Some rd \<Longrightarrow> rd_pc rd = RReading v1 staged \<Longrightarrow> length staged = words \<Longrightarrow>
     version_at (bs_ring s) (rx_pos (rd_rx rd)) = v1 \<Longrightarrow>
     bstep words s (set_reader i
       (rd\<lparr>rd_rx := (rd_rx rd)\<lparr>rx_pos := rx_pos (rd_rx rd) + 1\<rparr>, rd_pc := RIdle,
           rd_got := rd_got rd @ [(unat (rx_pos (rd_rx rd)), staged)]\<rparr>) s)"
| b_catch_up: "bs_readers s i = Some rd \<Longrightarrow> rd_pc rd = RLapped \<Longrightarrow>
     bstep words s (set_reader i
       (rd\<lparr>rd_rx := catch_up (bs_ring s) (rd_rx rd), rd_pc := RIdle,
           rd_base := unat (rx_pos (catch_up (bs_ring s) (rd_rx rd)))\<rparr>) s)"

definition binit :: "nat \<Rightarrow> nat \<Rightarrow> bsys \<Rightarrow> bool" where
  "binit words capacity s \<longleftrightarrow> (\<exists>r. channel words capacity = Some r \<and> capacity \<le> 2 ^ 62
     \<and> s = \<lparr>bs_ring = r, bs_sender = SIdle, bs_readers = (\<lambda>_. None), bs_sent = []\<rparr>)"

section \<open>The invariant\<close>

abbreviation capacity_of :: "ring \<Rightarrow> nat" where "capacity_of r \<equiv> length (rb_versions r)"

text \<open>The words of a slot that carry the payload.\<close>

definition payload :: "nat \<Rightarrow> ring \<Rightarrow> nat \<Rightarrow> u64 list" where
  "payload words r i = take words (drop (i * rb_stride r) (rb_words r))"

definition ring_ok :: "nat \<Rightarrow> ring \<Rightarrow> nat \<Rightarrow> bool" where
  "ring_ok words r n \<longleftrightarrow>
     (\<exists>k. 0 < k \<and> k \<le> 62 \<and> capacity_of r = 2 ^ k) \<and> rb_mask r = of_nat (capacity_of r - 1)
     \<and> length (rb_words r) = capacity_of r * rb_stride r \<and> words \<le> rb_stride r \<and> rb_producer r = of_nat n"

text \<open>Slot \<open>i\<close> once the positions below \<open>m\<close> are complete.\<close>

definition settled :: "nat \<Rightarrow> ring \<Rightarrow> u64 list list \<Rightarrow> nat \<Rightarrow> nat \<Rightarrow> bool" where
  "settled words r sent m i \<longleftrightarrow>
     (m \<le> i \<and> unat (rb_versions r ! i) = 2 * i)
     \<or> (\<exists>p<m. p mod capacity_of r = i \<and> m \<le> p + capacity_of r \<and> unat (rb_versions r ! i) = 2 * p + 2
          \<and> payload words r i = sent ! p)"

fun sender_ok :: "nat \<Rightarrow> ring \<Rightarrow> u64 list list \<Rightarrow> sender \<Rightarrow> bool" where
  "sender_ok words r sent SIdle = (\<forall>i<capacity_of r. settled words r sent (length sent) i)"
| "sender_ok words r sent (SClaimed pos v) =
     (sent \<noteq> [] \<and> unat pos = length sent - 1 \<and> length v = words \<and> List.last sent = v
      \<and> (\<forall>i<capacity_of r. settled words r sent (length sent - 1) i))"
| "sender_ok words r sent (SWriting pos v k) =
     (sent \<noteq> [] \<and> unat pos = length sent - 1 \<and> length v = words \<and> List.last sent = v \<and> k \<le> words
      \<and> (\<forall>i<capacity_of r. i \<noteq> (length sent - 1) mod capacity_of r \<longrightarrow> settled words r sent (length sent - 1) i)
      \<and> unat (rb_versions r ! ((length sent - 1) mod capacity_of r)) = 2 * (length sent - 1) + 1
      \<and> take k (payload words r ((length sent - 1) mod capacity_of r)) = take k v)"

text \<open>What a receiver has got: it ends with an unbroken stretch up to its position.\<close>

definition got_ok :: "u64 list list \<Rightarrow> nat \<Rightarrow> nat \<Rightarrow> (nat \<times> u64 list) list \<Rightarrow> bool" where
  "got_ok sent base p got \<longleftrightarrow>
     base \<le> p \<and> p \<le> length sent \<and> (\<forall>(q, x) \<in> set got. q < p \<and> x = sent ! q)
     \<and> sorted_wrt (<) (map fst got)
     \<and> (\<exists>pre. got = pre @ map (\<lambda>q. (q, sent ! q)) [base..<p] \<and> (\<forall>(q, x) \<in> set pre. q < base))"

fun pc_ok :: "nat \<Rightarrow> ring \<Rightarrow> u64 list list \<Rightarrow> nat \<Rightarrow> reader_pc \<Rightarrow> bool" where
  "pc_ok words r sent p RIdle = True"
| "pc_ok words r sent p RLapped = (p + capacity_of r < length sent)"
| "pc_ok words r sent p (RReading v1 staged) =
     (p < length sent \<and> unat v1 = 2 * p + 2 \<and> length staged \<le> words
      \<and> 2 * p + 2 \<le> unat (rb_versions r ! (p mod capacity_of r))
      \<and> (unat (rb_versions r ! (p mod capacity_of r)) = 2 * p + 2 \<longrightarrow>
           staged = take (length staged) (sent ! p)))"

definition reader_ok :: "nat \<Rightarrow> ring \<Rightarrow> u64 list list \<Rightarrow> reader \<Rightarrow> bool" where
  "reader_ok words r sent rd \<longleftrightarrow>
     got_ok sent (rd_base rd) (unat (rx_pos (rd_rx rd))) (rd_got rd)
     \<and> pc_ok words r sent (unat (rx_pos (rd_rx rd))) (rd_pc rd)"

text \<open>The positions fit: the version of the next one is still a word.\<close>

abbreviation in_bounds :: "u64 list list \<Rightarrow> bool" where
  "in_bounds sent \<equiv> 2 * length sent + 2 < 2 ^ 64"

definition b_inv :: "nat \<Rightarrow> bsys \<Rightarrow> bool" where
  "b_inv words s \<longleftrightarrow> (in_bounds (bs_sent s) \<longrightarrow>
     ring_ok words (bs_ring s) (length (bs_sent s)) \<and> (\<forall>v\<in>set (bs_sent s). length v = words)
     \<and> sender_ok words (bs_ring s) (bs_sent s) (bs_sender s)
     \<and> (\<forall>i rd. bs_readers s i = Some rd \<longrightarrow> reader_ok words (bs_ring s) (bs_sent s) rd))"

section \<open>Positions and slots\<close>

lemma same_slot:
  fixes p q :: nat
  assumes "p mod c = q mod c" "p < q"
  shows "p + c \<le> q"
proof -
  have "c dvd q - p" using assms by (metis less_imp_le mod_eq_dvd_iff_nat)
  moreover have "0 < q - p" using assms by simp
  ultimately have "c \<le> q - p" by (rule dvd_imp_le)
  then show ?thesis using assms by simp
qed

lemma ring_ok_capacity: "ring_ok words r n \<Longrightarrow> 2 \<le> capacity_of r \<and> capacity_of r \<le> 2 ^ 62"
proof -
  assume "ring_ok words r n"
  then obtain k where k: "0 < k" "k \<le> 62" "capacity_of r = 2 ^ k" unfolding ring_ok_def by blast
  have "(2::nat) ^ 1 \<le> 2 ^ k" by (rule power_increasing) (use k in auto)
  moreover have "(2::nat) ^ k \<le> 2 ^ 62" by (rule power_increasing) (use k in auto)
  ultimately show ?thesis using k by simp
qed

lemma ring_ok_pos: "ring_ok words r n \<Longrightarrow> 0 < capacity_of r"
  using ring_ok_capacity [of words r n] by linarith

lemma slot_of_mod:
  assumes "ring_ok words r n"
  shows "slot_of r pos = unat pos mod capacity_of r"
proof -
  from assms obtain k where k: "k \<le> 62" "capacity_of r = 2 ^ k" "rb_mask r = of_nat (2 ^ k - 1)"
    unfolding ring_ok_def by auto
  have le: "(2::nat) ^ k \<le> 2 ^ 62" by (rule power_increasing) (use k in auto)
  have "rb_mask r = mask k" using k by (simp add: mask_eq_exp_minus_1 of_nat_diff)
  then have "slot_of r pos = unat (take_bit k pos)" by (simp add: slot_of_def take_bit_eq_mask)
  also have "\<dots> = take_bit k (unat pos)" by (rule unsigned_take_bit_eq)
  also have "\<dots> = unat pos mod 2 ^ k" by (rule take_bit_eq_mod)
  finally show ?thesis using k by simp
qed

lemma slot_lt: "ring_ok words r n \<Longrightarrow> slot_of r pos < capacity_of r"
  using ring_ok_capacity [of words r n] by (auto simp: slot_of_mod intro: mod_less_divisor)

lemma unat_version:
  assumes "2 * unat (pos :: u64) + 2 < 2 ^ 64"
  shows "unat (2 * pos + 1) = 2 * unat pos + 1" "unat (2 * pos + 2) = 2 * unat pos + 2"
  using assms by (simp_all add: unat_word_ariths)

lemma unat_next:
  assumes "unat (pos :: u64) < n" "2 * n + 2 < 2 ^ 64"
  shows "unat (pos + 1) = unat pos + 1"
  using assms by (simp add: unat_word_ariths)

section \<open>The producer's steps\<close>

lemma slot_word_index:
  fixes i :: nat
  assumes "j < st" "k < st"
  shows "i * st + j = i' * st + k \<longleftrightarrow> i = i' \<and> j = k"
proof
  assume eq: "i * st + j = i' * st + k"
  have "(i * st + j) div st = i" "(i' * st + k) div st = i'" using assms by simp_all
  with eq have "i = i'" by simp
  with eq show "i = i' \<and> j = k" by simp
qed simp

lemma slot_room:
  assumes "ring_ok words r n" "i < capacity_of r"
  shows "i * rb_stride r + words \<le> length (rb_words r)"
proof -
  have "Suc i * rb_stride r \<le> capacity_of r * rb_stride r" using assms(2) by (intro mult_le_mono1) simp
  moreover have "words \<le> rb_stride r" "length (rb_words r) = capacity_of r * rb_stride r"
    using assms(1) by (simp_all add: ring_ok_def)
  ultimately show ?thesis by (simp only: mult_Suc)
qed

lemma length_payload:
  "ring_ok words r n \<Longrightarrow> i < capacity_of r \<Longrightarrow> length (payload words r i) = words"
  using slot_room [of words r n i] by (simp add: payload_def)

lemma payload_nth:
  "ring_ok words r n \<Longrightarrow> i < capacity_of r \<Longrightarrow> j < words \<Longrightarrow>
   payload words r i ! j = rb_words r ! (i * rb_stride r + j)"
  using slot_room [of words r n i] by (simp add: payload_def)

lemma word_at_payload:
  assumes "ring_ok words r n" "i < words"
  shows "word_at r pos i = payload words r (slot_of r pos) ! i"
  using payload_nth [OF assms(1) slot_lt [OF assms(1)] assms(2)] by (simp add: word_at_def)

lemma set_version_simps [simp]:
  "capacity_of (set_version pos v r) = capacity_of r"
  "payload words (set_version pos v r) i = payload words r i"
  "rb_producer (set_version pos v r) = rb_producer r"
  "rb_versions (set_version pos v r) = (rb_versions r)[slot_of r pos := v]"
  "slot_of (set_version pos v r) = slot_of r"
  "ring_ok words (set_version pos v r) n = ring_ok words r n"
  by (simp_all add: set_version_def payload_def slot_of_def ring_ok_def fun_eq_iff)

lemma set_word_simps [simp]:
  "rb_versions (set_word pos k w r) = rb_versions r"
  "rb_producer (set_word pos k w r) = rb_producer r"
  "rb_stride (set_word pos k w r) = rb_stride r"
  "slot_of (set_word pos k w r) = slot_of r"
  "ring_ok words (set_word pos k w r) n = ring_ok words r n"
  by (simp_all add: set_word_def slot_of_def ring_ok_def fun_eq_iff)

lemma claim_simps:
  "claim r = (pos, r') \<longleftrightarrow> pos = rb_producer r \<and> r' = r\<lparr>rb_producer := rb_producer r + 1\<rparr>"
  by (auto simp: claim_def)

lemma payload_set_word:
  assumes ok: "ring_ok words r n" and i: "i < capacity_of r" and k: "k < words"
  shows "payload words (set_word pos k w r) i =
    (if i = slot_of r pos then (payload words r i)[k := w] else payload words r i)"
proof (rule nth_equalityI)
  let ?r = "set_word pos k w r"
  have ok': "ring_ok words ?r n" and i': "i < capacity_of ?r" using ok i by simp_all
  show "length (payload words ?r i) =
      length (if i = slot_of r pos then (payload words r i)[k := w] else payload words r i)"
    using length_payload [OF ok' i'] length_payload [OF ok i] by (cases "i = slot_of r pos") simp_all
  fix j assume "j < length (payload words ?r i)"
  then have j: "j < words" using length_payload [OF ok' i'] by simp
  have st: "words \<le> rb_stride r" and len: "length (rb_words r) = capacity_of r * rb_stride r"
    using ok by (simp_all add: ring_ok_def)
  have "Suc i * rb_stride r \<le> capacity_of r * rb_stride r" using i by (intro mult_le_mono1) simp
  then have lt: "i * rb_stride r + j < length (rb_words r)" using j st len by simp
  have iff: "slot_of r pos * rb_stride r + k = i * rb_stride r + j \<longleftrightarrow> slot_of r pos = i \<and> k = j"
    by (rule slot_word_index) (use j k st in auto)
  have "payload words ?r i ! j = (rb_words r)[slot_of r pos * rb_stride r + k := w] ! (i * rb_stride r + j)"
    using payload_nth [OF ok' i' j] by (simp add: set_word_def)
  also have "\<dots> = (if slot_of r pos = i \<and> k = j then w else rb_words r ! (i * rb_stride r + j))"
    using lt iff by (simp add: nth_list_update)
  finally show "payload words ?r i ! j =
      (if i = slot_of r pos then (payload words r i)[k := w] else payload words r i) ! j"
    using payload_nth [OF ok i j] length_payload [OF ok i] j by (auto simp: nth_list_update)
qed

text \<open>What a producer's step leaves to the readers: versions only grow, at most one changes.\<close>

definition advanced :: "ring \<Rightarrow> ring \<Rightarrow> bool" where
  "advanced r r' \<longleftrightarrow> capacity_of r' = capacity_of r
     \<and> (\<forall>i<capacity_of r. rb_versions r' ! i = rb_versions r ! i \<or> unat (rb_versions r ! i) < unat (rb_versions r' ! i))"

lemma advanced_set_version:
  "unat (rb_versions r ! slot_of r pos) < unat v \<Longrightarrow> advanced r (set_version pos v r)"
  unfolding advanced_def by (metis nth_list_update nth_list_update_neq set_version_simps(1,4))

definition core :: "nat \<Rightarrow> ring \<Rightarrow> u64 list list \<Rightarrow> sender \<Rightarrow> bool" where
  "core words r sent sn \<longleftrightarrow> ring_ok words r (length sent) \<and> (\<forall>v\<in>set sent. length v = words)
     \<and> sender_ok words r sent sn"

lemma settled_cong:
  assumes "settled words r sent m i" "capacity_of r' = capacity_of r"
    and "rb_versions r' ! i = rb_versions r ! i" "payload words r' i = payload words r i"
    and "\<And>p. p < m \<Longrightarrow> sent' ! p = sent ! p"
  shows "settled words r' sent' m i"
  using assms unfolding settled_def by auto

lemma core_claim:
  assumes core: "core words r sent SIdle" and v: "length v = words" and b: "in_bounds (sent @ [v])"
    and c: "claim r = (pos, r')"
  shows "core words r' (sent @ [v]) (SClaimed pos v)" "advanced r r'"
proof -
  have ok: "ring_ok words r (length sent)" using core by (simp add: core_def)
  have r': "r' = r\<lparr>rb_producer := rb_producer r + 1\<rparr>" and pos: "pos = of_nat (length sent)"
    using c ok by (simp_all add: claim_simps ring_ok_def)
  have "unat pos = length sent" using b pos by (simp add: unat_of_nat take_bit_nat_eq_self)
  moreover have "ring_ok words r' (length (sent @ [v]))" using ok r' by (simp add: ring_ok_def)
  moreover have "\<forall>i<capacity_of r'. settled words r' (sent @ [v]) (length sent) i"
  proof (intro allI impI)
    fix i assume "i < capacity_of r'"
    then have "settled words r sent (length sent) i" using core r' by (simp add: core_def)
    then show "settled words r' (sent @ [v]) (length sent) i"
      by (rule settled_cong) (simp_all add: r' payload_def nth_append)
  qed
  ultimately show "core words r' (sent @ [v]) (SClaimed pos v)"
    using core v by (simp add: core_def)
  show "advanced r r'" using r' by (simp add: advanced_def)
qed

lemma core_begin:
  assumes core: "core words r sent (SClaimed pos v)" and b: "in_bounds sent"
  shows "core words (set_version pos (2 * pos + 1) r) sent (SWriting pos v 0)"
    "advanced r (set_version pos (2 * pos + 1) r)"
proof -
  let ?r = "set_version pos (2 * pos + 1) r" and ?m = "length sent - 1" and ?c = "capacity_of r"
  have ok: "ring_ok words r (length sent)" and pos: "unat pos = ?m" and ne: "sent \<noteq> []"
    and set: "\<forall>i<?c. settled words r sent ?m i" using core by (simp_all add: core_def)
  have slot: "slot_of r pos = ?m mod ?c" using slot_of_mod [OF ok] pos by simp
  have lt: "slot_of r pos < ?c" by (rule slot_lt [OF ok])
  have m: "?m + 1 = length sent" using ne by (cases sent) simp_all
  have ver: "unat (2 * pos + 1) = 2 * ?m + 1"
    using unat_version(1) [of pos] b pos m by linarith
  have "\<forall>i<capacity_of ?r. i \<noteq> ?m mod capacity_of ?r \<longrightarrow> settled words ?r sent ?m i"
  proof (intro allI impI)
    fix i assume i: "i < capacity_of ?r" and ne: "i \<noteq> ?m mod capacity_of ?r"
    from set i have "settled words r sent ?m i" by simp
    then show "settled words ?r sent ?m i"
      by (rule settled_cong) (use ne slot in simp_all)
  qed
  then show "core words ?r sent (SWriting pos v 0)"
    using core ver lt slot by (simp add: core_def)
  have "unat (rb_versions r ! slot_of r pos) < unat (2 * pos + 1)"
  proof -
    have "settled words r sent ?m (slot_of r pos)" using set lt by blast
    then show ?thesis
      unfolding settled_def ver using slot mod_less_eq_dividend [of ?m ?c]
      by (elim disjE exE conjE) linarith+
  qed
  then show "advanced r ?r" by (rule advanced_set_version)
qed

lemma core_word:
  assumes core: "core words r sent (SWriting pos v k)" and k: "k < words"
  shows "core words (set_word pos k (v ! k) r) sent (SWriting pos v (Suc k))"
    "advanced r (set_word pos k (v ! k) r)"
proof -
  let ?r = "set_word pos k (v ! k) r" and ?m = "length sent - 1" and ?c = "capacity_of r"
  have ok: "ring_ok words r (length sent)" and pos: "unat pos = ?m" and len: "length v = words"
    and set: "\<forall>i<?c. i \<noteq> ?m mod ?c \<longrightarrow> settled words r sent ?m i"
    and part: "take k (payload words r (?m mod ?c)) = take k v"
    using core by (simp_all add: core_def)
  have slot: "slot_of r pos = ?m mod ?c" using slot_of_mod [OF ok] pos by simp
  have lt: "?m mod ?c < ?c" using slot_lt [OF ok, of pos] slot by simp
  have "\<forall>i<capacity_of ?r. i \<noteq> ?m mod capacity_of ?r \<longrightarrow> settled words ?r sent ?m i"
  proof (intro allI impI)
    fix i assume i: "i < capacity_of ?r" and ne: "i \<noteq> ?m mod capacity_of ?r"
    from set i ne have "settled words r sent ?m i" by simp
    then show "settled words ?r sent ?m i"
      by (rule settled_cong) (use i ne slot payload_set_word [OF ok _ k] in simp_all)
  qed
  moreover have "take (Suc k) (payload words ?r (?m mod ?c)) = take (Suc k) v"
  proof -
    have "payload words ?r (?m mod ?c) = (payload words r (?m mod ?c))[k := v ! k]"
      using payload_set_word [OF ok lt k] slot by simp
    then show ?thesis using part k len length_payload [OF ok lt] by (simp add: take_Suc_conv_app_nth)
  qed
  ultimately show "core words ?r sent (SWriting pos v (Suc k))"
    using core k by (simp add: core_def)
  show "advanced r ?r" by (simp add: advanced_def)
qed

lemma core_end:
  assumes core: "core words r sent (SWriting pos v words)" and b: "in_bounds sent"
  shows "core words (set_version pos (2 * pos + 2) r) sent SIdle"
    "advanced r (set_version pos (2 * pos + 2) r)"
proof -
  let ?r = "set_version pos (2 * pos + 2) r" and ?m = "length sent - 1" and ?c = "capacity_of r"
  have ok: "ring_ok words r (length sent)" and pos: "unat pos = ?m" and ne: "sent \<noteq> []"
    and len: "length v = words" and v: "List.last sent = v"
    and set: "\<forall>i<?c. i \<noteq> ?m mod ?c \<longrightarrow> settled words r sent ?m i"
    and old: "unat (rb_versions r ! (?m mod ?c)) = 2 * ?m + 1"
    and part: "take words (payload words r (?m mod ?c)) = take words v"
    using core by (simp_all add: core_def)
  have slot: "slot_of r pos = ?m mod ?c" using slot_of_mod [OF ok] pos by simp
  have lt: "?m mod ?c < ?c" using slot_lt [OF ok, of pos] slot by simp
  have m: "?m + 1 = length sent" using ne by (cases sent) simp_all
  have ver: "unat (2 * pos + 2) = 2 * ?m + 2" using unat_version(2) [of pos] b pos m by linarith
  have "settled words ?r sent (length sent) i" if i: "i < ?c" for i
  proof (cases "i = ?m mod ?c")
    case True
    have "payload words r i = v" using part len length_payload [OF ok i] True by simp
    moreover have "sent ! ?m = v" using v ne by (simp add: last_conv_nth)
    moreover have "?m < length sent" "length sent \<le> ?m + ?c"
      using m ring_ok_capacity [OF ok] by linarith+
    ultimately show ?thesis
      unfolding settled_def using True i slot ver by (intro disjI2 exI [of _ ?m]) simp
  next
    case False
    then have "settled words r sent ?m i" using set i by blast
    then consider (new) "?m \<le> i" "unat (rb_versions r ! i) = 2 * i"
      | (old) p where "p < ?m" "p mod ?c = i" "?m \<le> p + ?c" "unat (rb_versions r ! i) = 2 * p + 2"
          "payload words r i = sent ! p"
      unfolding settled_def by blast
    then show ?thesis
    proof cases
      case new
      have "?m \<noteq> i" using False i by auto
      then show ?thesis unfolding settled_def using new slot False m by (intro disjI1) simp
    next
      case old
      have "?m \<noteq> p + ?c" using old(2) False by auto
      then have "p < length sent" "length sent \<le> p + ?c" using old m by linarith+
      then show ?thesis unfolding settled_def using old slot False by (intro disjI2 exI [of _ p]) simp
    qed
  qed
  then show "core words ?r sent SIdle" using core by (simp add: core_def)
  show "advanced r ?r" by (rule advanced_set_version) (use old ver slot in simp)
qed

section \<open>The receivers' steps\<close>

lemma pc_ok_mono:
  assumes pc: "pc_ok words r sent p pc" and adv: "advanced r r'" and c: "0 < capacity_of r"
  shows "pc_ok words r' (sent @ ext) p pc"
proof (cases pc)
  case (RReading v1 staged)
  let ?i = "p mod capacity_of r"
  have i: "?i < capacity_of r" using c by simp
  then have "rb_versions r' ! ?i = rb_versions r ! ?i \<or> unat (rb_versions r ! ?i) < unat (rb_versions r' ! ?i)"
    using adv by (simp add: advanced_def)
  then show ?thesis using pc adv RReading by (auto simp: advanced_def nth_append)
qed (use pc adv in \<open>simp_all add: advanced_def\<close>)

lemma got_ok_mono:
  assumes "got_ok sent base p got"
  shows "got_ok (sent @ ext) base p got"
proof -
  have eq: "map (\<lambda>q. (q, (sent @ ext) ! q)) [base..<p] = map (\<lambda>q. (q, sent ! q)) [base..<p]"
    using assms by (simp add: got_ok_def nth_append)
  have nth: "(sent @ ext) ! q = sent ! q" if "q < p" for q
    using that assms by (simp add: got_ok_def nth_append)
  show ?thesis using assms nth unfolding got_ok_def eq by fastforce
qed

lemma reader_ok_mono:
  "reader_ok words r sent rd \<Longrightarrow> advanced r r' \<Longrightarrow> 0 < capacity_of r \<Longrightarrow> reader_ok words r' (sent @ ext) rd"
  unfolding reader_ok_def using got_ok_mono pc_ok_mono by blast

text \<open>The version of a position vouches for the words of its slot.\<close>

lemma version_cases:
  assumes core: "core words r sent sn" and p: "p \<le> length sent"
  shows "unat (rb_versions r ! (p mod capacity_of r)) < 2 * p + 2
    \<or> unat (rb_versions r ! (p mod capacity_of r)) = 2 * p + 2 \<and> p < length sent
        \<and> payload words r (p mod capacity_of r) = sent ! p
    \<or> 2 * p + 2 < unat (rb_versions r ! (p mod capacity_of r)) \<and> p + capacity_of r < length sent"
proof -
  let ?c = "capacity_of r" let ?i = "p mod ?c"
  have ok: "ring_ok words r (length sent)" using core by (simp add: core_def)
  have c: "0 < ?c" by (rule ring_ok_pos [OF ok])
  have settled: ?thesis if s: "settled words r sent m ?i" and m: "m \<le> length sent" for m
  proof -
    from s consider (new) "unat (rb_versions r ! ?i) = 2 * ?i"
      | (old) q where "q < m" "q mod ?c = ?i" "unat (rb_versions r ! ?i) = 2 * q + 2" "payload words r ?i = sent ! q"
      unfolding settled_def by blast
    then show ?thesis
    proof cases
      case new
      have "?i \<le> p" by simp
      then have "unat (rb_versions r ! ?i) < 2 * p + 2" unfolding new by linarith
      then show ?thesis ..
    next
      case old
      consider "q < p" | "q = p" | "p + ?c \<le> q" using same_slot [of p ?c q] old(2) by linarith
      then show ?thesis
      proof cases
        case 1
        then show ?thesis unfolding old(3) by simp
      next
        case 2
        then show ?thesis using old m by simp
      next
        case 3
        then show ?thesis unfolding old(3) using old(1) m c by linarith
      qed
    qed
  qed
  show ?thesis
  proof (cases sn)
    case SIdle
    then have "settled words r sent (length sent) ?i" using core c by (simp add: core_def)
    then show ?thesis by (rule settled) simp
  next
    case (SClaimed pos v)
    then have "settled words r sent (length sent - 1) ?i" using core c by (simp add: core_def)
    then show ?thesis by (rule settled) simp
  next
    case (SWriting pos v k)
    let ?m = "length sent - 1"
    have ne: "sent \<noteq> []" and old: "unat (rb_versions r ! (?m mod ?c)) = 2 * ?m + 1"
      and set: "\<forall>i<?c. i \<noteq> ?m mod ?c \<longrightarrow> settled words r sent ?m i"
      using core SWriting by (simp_all add: core_def)
    show ?thesis
    proof (cases "?i = ?m mod ?c")
      case True
      have m: "?m + 1 = length sent" using ne by (cases sent) simp_all
      have "?m \<le> p \<or> p + ?c \<le> ?m" using same_slot [OF True] by linarith
      then show ?thesis unfolding True old using m c by linarith
    next
      case False
      then have "settled words r sent ?m ?i" using set c by simp
      then show ?thesis by (rule settled) simp
    qed
  qed
qed

lemma version_at_cases:
  assumes core: "core words r sent sn" and b: "in_bounds sent" and p: "unat pos \<le> length sent"
  shows "version_at r pos < 2 * pos + 2
    \<or> version_at r pos = 2 * pos + 2 \<and> unat pos < length sent \<and> payload words r (slot_of r pos) = sent ! unat pos
    \<or> 2 * pos + 2 < version_at r pos \<and> unat pos + capacity_of r < length sent"
proof -
  have ok: "ring_ok words r (length sent)" using core by (simp add: core_def)
  have w: "unat (2 * pos + 2) = 2 * unat pos + 2" by (rule unat_version) (use b p in linarith)
  show ?thesis
    using version_cases [OF core p] w
    by (simp add: version_at_def slot_of_mod [OF ok] word_less_nat_alt word_unat_eq_iff)
qed

lemma unat_catch_up:
  assumes ok: "ring_ok words r n" and b: "2 * n + 2 < 2 ^ 64"
  shows "unat (rx_pos (catch_up r rx)) = n - capacity_of r div 2"
proof -
  have c: "capacity_of r \<le> 2 ^ 62" "0 < capacity_of r"
    using ring_ok_capacity [OF ok] ring_ok_pos [OF ok] by blast+
  have "rb_mask r + 1 = of_nat (capacity_of r)"
    using ok c by (simp add: ring_ok_def of_nat_diff)
  then have "unat (rb_mask r + 1) = capacity_of r"
    using c by (simp add: unat_of_nat take_bit_nat_eq_self)
  then have "unat ((rb_mask r + 1) div 2) = capacity_of r div 2" by (simp add: unat_div)
  moreover have "unat (rb_producer r) = n"
    using ok b by (simp add: ring_ok_def unat_of_nat take_bit_nat_eq_self)
  ultimately show ?thesis by (simp add: catch_up_def unat_saturating_sub)
qed

lemma got_ok_next:
  assumes "got_ok sent base p got" "p < length sent"
  shows "got_ok sent base (p + 1) (got @ [(p, sent ! p)])"
proof -
  obtain pre where pre: "got = pre @ map (\<lambda>q. (q, sent ! q)) [base..<p]" "\<forall>(q, x)\<in>set pre. q < base"
    using assms(1) unfolding got_ok_def by blast
  have le: "base \<le> p" using assms(1) by (simp add: got_ok_def)
  then have "got @ [(p, sent ! p)] = pre @ map (\<lambda>q. (q, sent ! q)) [base..<p + 1]" using pre(1) by simp
  with pre(2) have "\<exists>pre. got @ [(p, sent ! p)] = pre @ map (\<lambda>q. (q, sent ! q)) [base..<p + 1]
      \<and> (\<forall>(q, x)\<in>set pre. q < base)" by blast
  moreover have "\<forall>(q, x)\<in>set (got @ [(p, sent ! p)]). q < p + 1 \<and> x = sent ! q"
    using assms(1) by (auto simp: got_ok_def)
  moreover have "sorted_wrt (<) (map fst (got @ [(p, sent ! p)]))"
    using assms(1) by (auto simp: got_ok_def sorted_wrt_append)
  ultimately show ?thesis unfolding got_ok_def using le assms(2) by simp
qed

lemma got_ok_skip: "got_ok sent base p got \<Longrightarrow> p \<le> p' \<Longrightarrow> p' \<le> length sent \<Longrightarrow> got_ok sent p' p' got"
  unfolding got_ok_def by fastforce

lemma reader_lapped:
  assumes core: "core words r sent sn" and b: "in_bounds sent" and rd: "reader_ok words r sent rd"
    and v: "version_at r (rx_pos (rd_rx rd)) > 2 * rx_pos (rd_rx rd) + 2"
  shows "reader_ok words r sent (rd\<lparr>rd_pc := RLapped\<rparr>)"
proof -
  have "unat (rx_pos (rd_rx rd)) \<le> length sent" using rd by (simp add: reader_ok_def got_ok_def)
  then have "unat (rx_pos (rd_rx rd)) + capacity_of r < length sent"
    using version_at_cases [OF core b] v by fastforce
  then show ?thesis using rd by (simp add: reader_ok_def)
qed

lemma reader_found:
  assumes core: "core words r sent sn" and b: "in_bounds sent" and rd: "reader_ok words r sent rd"
    and v: "version_at r (rx_pos (rd_rx rd)) = 2 * rx_pos (rd_rx rd) + 2"
  shows "reader_ok words r sent (rd\<lparr>rd_pc := RReading (2 * rx_pos (rd_rx rd) + 2) []\<rparr>)"
proof -
  let ?pos = "rx_pos (rd_rx rd)"
  have ok: "ring_ok words r (length sent)" using core by (simp add: core_def)
  have p: "unat ?pos \<le> length sent" using rd by (simp add: reader_ok_def got_ok_def)
  have lt: "unat ?pos < length sent" using version_at_cases [OF core b p] v by fastforce
  have w: "unat (2 * ?pos + 2) = 2 * unat ?pos + 2" by (rule unat_version) (use b p in linarith)
  have "unat (rb_versions r ! (unat ?pos mod capacity_of r)) = 2 * unat ?pos + 2"
    using v w by (simp add: version_at_def slot_of_mod [OF ok])
  then show ?thesis using rd lt w by (simp add: reader_ok_def)
qed

lemma reader_read:
  assumes core: "core words r sent sn" and rd: "reader_ok words r sent rd"
    and pc: "rd_pc rd = RReading v1 staged" and len: "length staged < words"
  shows "reader_ok words r sent
    (rd\<lparr>rd_pc := RReading v1 (staged @ [word_at r (rx_pos (rd_rx rd)) (length staged)])\<rparr>)"
proof -
  let ?pos = "rx_pos (rd_rx rd)" let ?i = "unat ?pos mod capacity_of r"
  have ok: "ring_ok words r (length sent)" and lens: "\<forall>v\<in>set sent. length v = words"
    using core by (simp_all add: core_def)
  have p: "unat ?pos < length sent" and st: "unat (rb_versions r ! ?i) = 2 * unat ?pos + 2 \<Longrightarrow>
      staged = take (length staged) (sent ! unat ?pos)"
    using rd pc by (simp_all add: reader_ok_def)
  define next_word where "next_word = word_at r ?pos (length staged)"
  have "staged @ [next_word] = take (length (staged @ [next_word])) (sent ! unat ?pos)"
    if v: "unat (rb_versions r ! ?i) = 2 * unat ?pos + 2"
  proof -
    have "payload words r ?i = sent ! unat ?pos" using version_cases [OF core, of "unat ?pos"] p v by fastforce
    then have "next_word = sent ! unat ?pos ! length staged"
      using word_at_payload [OF ok len] by (simp add: next_word_def slot_of_mod [OF ok])
    moreover have "length (sent ! unat ?pos) = words" using lens p by simp
    ultimately show ?thesis using st [OF v] len by (simp add: take_Suc_conv_app_nth)
  qed
  then have "pc_ok words r sent (unat ?pos) (RReading v1 (staged @ [next_word]))"
    using rd pc len unfolding reader_ok_def by (simp only: pc_ok.simps length_append_singleton) simp
  then show ?thesis
    using rd unfolding reader_ok_def next_word_def [symmetric] by (simp del: pc_ok.simps)
qed

lemma reader_got:
  assumes core: "core words r sent sn" and b: "in_bounds sent" and rd: "reader_ok words r sent rd"
    and pc: "rd_pc rd = RReading v1 staged" and len: "length staged = words"
    and v: "version_at r (rx_pos (rd_rx rd)) = v1"
  shows "reader_ok words r sent
    (rd\<lparr>rd_rx := (rd_rx rd)\<lparr>rx_pos := rx_pos (rd_rx rd) + 1\<rparr>, rd_pc := RIdle,
        rd_got := rd_got rd @ [(unat (rx_pos (rd_rx rd)), staged)]\<rparr>)"
proof -
  let ?pos = "rx_pos (rd_rx rd)"
  have ok: "ring_ok words r (length sent)" and lens: "\<forall>v\<in>set sent. length v = words"
    using core by (simp_all add: core_def)
  have p: "unat ?pos < length sent" and st: "staged = take words (sent ! unat ?pos)"
    using rd pc len v by (auto simp: reader_ok_def version_at_def slot_of_mod [OF ok])
  have "staged = sent ! unat ?pos" using st lens p by simp
  moreover have "unat (?pos + 1) = unat ?pos + 1" by (rule unat_next [OF p b])
  moreover have "got_ok sent (rd_base rd) (unat ?pos) (rd_got rd)" using rd by (simp add: reader_ok_def)
  ultimately show ?thesis using got_ok_next p by (simp add: reader_ok_def)
qed

lemma reader_catch_up:
  assumes core: "core words r sent sn" and b: "in_bounds sent" and rd: "reader_ok words r sent rd"
    and pc: "rd_pc rd = RLapped"
  shows "reader_ok words r sent
    (rd\<lparr>rd_rx := catch_up r (rd_rx rd), rd_pc := RIdle, rd_base := unat (rx_pos (catch_up r (rd_rx rd)))\<rparr>)"
proof -
  have ok: "ring_ok words r (length sent)" using core by (simp add: core_def)
  have "unat (rx_pos (rd_rx rd)) + capacity_of r < length sent" using rd pc by (simp add: reader_ok_def)
  then have le: "unat (rx_pos (rd_rx rd)) \<le> length sent - capacity_of r div 2" by linarith
  have "got_ok sent (rd_base rd) (unat (rx_pos (rd_rx rd))) (rd_got rd)" using rd by (simp add: reader_ok_def)
  from got_ok_skip [OF this le] show ?thesis by (simp add: reader_ok_def unat_catch_up [OF ok b])
qed

section \<open>Every reachable state\<close>

lemma b_inv_producer:
  assumes inv: "b_inv words s"
    and core: "in_bounds (bs_sent s) \<Longrightarrow> core words (bs_ring s) (bs_sent s) (bs_sender s) \<Longrightarrow>
      in_bounds (bs_sent s @ ext) \<Longrightarrow>
      core words r' (bs_sent s @ ext) sn' \<and> advanced (bs_ring s) r'"
  shows "b_inv words (s\<lparr>bs_ring := r', bs_sender := sn', bs_sent := bs_sent s @ ext\<rparr>)"
  unfolding b_inv_def
proof (intro impI)
  let ?s = "s\<lparr>bs_ring := r', bs_sender := sn', bs_sent := bs_sent s @ ext\<rparr>"
  assume "in_bounds (bs_sent ?s)"
  then have b: "in_bounds (bs_sent s)" and b': "in_bounds (bs_sent s @ ext)" by simp_all
  then have c: "core words (bs_ring s) (bs_sent s) (bs_sender s)"
    and rd: "\<And>i rd. bs_readers s i = Some rd \<Longrightarrow> reader_ok words (bs_ring s) (bs_sent s) rd"
    using inv by (simp_all add: b_inv_def core_def)
  have pos: "0 < capacity_of (bs_ring s)" using c ring_ok_pos unfolding core_def by blast
  have c': "core words r' (bs_sent s @ ext) sn'" and adv: "advanced (bs_ring s) r'"
    using core [OF b c b'] by blast+
  have "reader_ok words r' (bs_sent s @ ext) rd" if "bs_readers s i = Some rd" for i rd
    by (rule reader_ok_mono [OF rd [OF that] adv pos])
  then show "ring_ok words (bs_ring ?s) (length (bs_sent ?s)) \<and> (\<forall>v\<in>set (bs_sent ?s). length v = words)
     \<and> sender_ok words (bs_ring ?s) (bs_sent ?s) (bs_sender ?s)
     \<and> (\<forall>i rd. bs_readers ?s i = Some rd \<longrightarrow> reader_ok words (bs_ring ?s) (bs_sent ?s) rd)"
    using c' by (simp add: core_def)
qed

lemma b_inv_receiver:
  assumes inv: "b_inv words s"
    and rd: "in_bounds (bs_sent s) \<Longrightarrow> core words (bs_ring s) (bs_sent s) (bs_sender s) \<Longrightarrow>
      reader_ok words (bs_ring s) (bs_sent s) rd'"
  shows "b_inv words (set_reader i rd' s)"
  using inv rd unfolding b_inv_def core_def set_reader_def by simp

lemma b_inv_step:
  assumes "bstep words s s'" "b_inv words s"
  shows "b_inv words s'"
  using assms
proof (induction rule: bstep.induct)
  case (b_claim s v pos r)
  then show ?case using core_claim by (intro b_inv_producer) auto
next
  case (b_begin s pos v)
  have "b_inv words (s\<lparr>bs_ring := set_version pos (2 * pos + 1) (bs_ring s), bs_sender := SWriting pos v 0,
      bs_sent := bs_sent s @ []\<rparr>)"
    by (rule b_inv_producer [OF b_begin(2)]) (use b_begin(1) core_begin in simp)
  then show ?case by simp
next
  case (b_word s pos v k)
  have "b_inv words (s\<lparr>bs_ring := set_word pos k (v ! k) (bs_ring s), bs_sender := SWriting pos v (Suc k),
      bs_sent := bs_sent s @ []\<rparr>)"
    by (rule b_inv_producer [OF b_word(3)]) (use b_word(1,2) core_word in simp)
  then show ?case by simp
next
  case (b_end s pos v)
  have "b_inv words (s\<lparr>bs_ring := set_version pos (2 * pos + 2) (bs_ring s), bs_sender := SIdle,
      bs_sent := bs_sent s @ []\<rparr>)"
    by (rule b_inv_producer [OF b_end(2)]) (use b_end(1) core_end in simp)
  then show ?case by simp
next
  case (b_subscribe s i)
  show ?case
  proof (rule b_inv_receiver [OF b_subscribe(2)])
    assume b: "in_bounds (bs_sent s)" and core: "core words (bs_ring s) (bs_sent s) (bs_sender s)"
    have "unat (rb_producer (bs_ring s)) = length (bs_sent s)"
      using core b by (simp add: core_def ring_ok_def unat_of_nat take_bit_nat_eq_self)
    then show "reader_ok words (bs_ring s) (bs_sent s)
        \<lparr>rd_rx = subscribe (bs_ring s), rd_pc = RIdle, rd_base = length (bs_sent s), rd_got = []\<rparr>"
      by (simp add: reader_ok_def got_ok_def subscribe_def)
  qed
next
  case (b_lapped s i rd)
  then show ?case using reader_lapped by (intro b_inv_receiver) (auto simp: b_inv_def)
next
  case (b_found s i rd)
  then show ?case using reader_found by (intro b_inv_receiver) (auto simp: b_inv_def)
next
  case (b_read s i rd v1 staged)
  then show ?case using reader_read by (intro b_inv_receiver) (auto simp: b_inv_def)
next
  case (b_torn s i rd v1 staged)
  then show ?case by (intro b_inv_receiver) (auto simp: b_inv_def reader_ok_def)
next
  case (b_got s i rd v1 staged)
  then show ?case using reader_got by (intro b_inv_receiver) (auto simp: b_inv_def)
next
  case (b_catch_up s i rd)
  then show ?case using reader_catch_up by (intro b_inv_receiver) (auto simp: b_inv_def)
qed

lemma next_power_from_spec:
  "p = 2 ^ j \<Longrightarrow> \<exists>k. next_power_from n p = 2 ^ k \<and> j \<le> k \<and> n \<le> next_power_from n p
     \<and> (next_power_from n p = p \<or> next_power_from n p < 2 * n)"
proof (induction n p arbitrary: j rule: next_power_from.induct)
  case (1 n p)
  show ?case
  proof (cases "n \<le> p")
    case True
    then have "next_power_from n p = p" by (simp add: next_power_from.simps [of n p])
    with 1(2) True show ?thesis by (intro exI [of _ j]) simp
  next
    case False
    have "2 * p = 2 ^ Suc j" using 1(2) by simp
    from 1(1) [OF _ this] False 1(2) obtain k where
      "next_power_from n (2 * p) = 2 ^ k" "Suc j \<le> k" "n \<le> next_power_from n (2 * p)"
      "next_power_from n (2 * p) = 2 * p \<or> next_power_from n (2 * p) < 2 * n" by auto
    moreover have "next_power_from n p = next_power_from n (2 * p)"
      using False 1(2) by (subst next_power_from.simps [of n p]) simp
    ultimately show ?thesis using False by (intro exI [of _ k]) auto
  qed
qed

text \<open>The capacity is the least power of two from the one asked for, and at least two.\<close>

lemma channel_capacity:
  assumes "channel words n = Some r"
  shows "\<exists>k. 0 < k \<and> capacity_of r = 2 ^ k" "max n 2 \<le> capacity_of r" "capacity_of r < 2 * max n 2"
proof -
  have c: "capacity_of r = max (next_power_of_two n) 2"
    using assms by (auto simp: channel_def Let_def split: if_splits)
  obtain k where k: "next_power_of_two n = 2 ^ k" "n \<le> next_power_of_two n"
      "next_power_of_two n = 1 \<or> next_power_of_two n < 2 * n"
    unfolding next_power_of_two_def using next_power_from_spec [of 1 0 n] by (metis power_0)
  show "max n 2 \<le> capacity_of r" "capacity_of r < 2 * max n 2" using c k by auto
  show "\<exists>k. 0 < k \<and> capacity_of r = 2 ^ k"
  proof (cases "k = 0")
    case True
    then have "capacity_of r = 2 ^ 1" using c k by simp
    then show ?thesis by blast
  next
    case False
    have "(2::nat) ^ 1 \<le> 2 ^ k" by (rule power_increasing) (use False in auto)
    then have "capacity_of r = 2 ^ k" using c k by simp
    then show ?thesis using False by blast
  qed
qed

lemma channel_core:
  assumes ch: "channel words n = Some r" and n: "n \<le> 2 ^ 62"
  shows "core words r [] SIdle"
proof -
  obtain k where k: "0 < k" "capacity_of r = 2 ^ k" using channel_capacity(1) [OF ch] by blast
  have lt: "capacity_of r < 2 ^ 63" using channel_capacity(3) [OF ch] n by simp
  then have "k < 63" unfolding k(2) by (rule power_less_imp_less_exp [rotated]) simp
  moreover have w: "words \<le> next_multiple_of (words * 8) 64 div 8"
    unfolding next_multiple_of_def by linarith
  ultimately have "ring_ok words r 0"
    using ch k by (auto simp: ring_ok_def channel_def Let_def split: if_splits)
  moreover have "settled words r [] 0 i" if i: "i < capacity_of r" for i
  proof -
    have "rb_versions r ! i = of_nat (2 * i)"
      using ch i by (auto simp: channel_def Let_def split: if_splits)
    moreover have "2 * i < 2 ^ 64" using i lt by simp
    ultimately have "unat (rb_versions r ! i) = 2 * i"
      by (simp add: unat_of_nat take_bit_nat_eq_self del: of_nat_mult)
    then show ?thesis by (simp add: settled_def)
  qed
  ultimately show ?thesis by (simp add: core_def)
qed

lemma b_inv_init: "binit words n s \<Longrightarrow> b_inv words s"
  using channel_core by (auto simp: binit_def b_inv_def core_def)

interpretation broadcast: invariant_system "binit words n" "bstep words" "b_inv words" for words n
  by unfold_locales (auto intro: b_inv_init b_inv_step)

section \<open>The operations are runs of steps\<close>

lemma write_words_steps:
  assumes s: "bs_sender s = SWriting pos v 0"
  shows "k \<le> words \<Longrightarrow> (bstep words)\<^sup>*\<^sup>* s
    (s\<lparr>bs_ring := fold (\<lambda>i. set_word pos i (v ! i)) [0..<k] (bs_ring s), bs_sender := SWriting pos v k\<rparr>)"
proof (induction k)
  case 0
  have "s\<lparr>bs_ring := bs_ring s, bs_sender := SWriting pos v 0\<rparr> = s" using s by simp
  then show ?case by simp
next
  case (Suc k)
  let ?s = "s\<lparr>bs_ring := fold (\<lambda>i. set_word pos i (v ! i)) [0..<k] (bs_ring s), bs_sender := SWriting pos v k\<rparr>"
  have "(bstep words)\<^sup>*\<^sup>* s ?s" using Suc by simp
  moreover have "bstep words ?s (?s\<lparr>bs_ring := set_word pos k (v ! k) (bs_ring ?s), bs_sender := SWriting pos v (Suc k)\<rparr>)"
    by (rule bstep.b_word) (use Suc.prems in simp_all)
  ultimately have "(bstep words)\<^sup>*\<^sup>* s
      (?s\<lparr>bs_ring := set_word pos k (v ! k) (bs_ring ?s), bs_sender := SWriting pos v (Suc k)\<rparr>)"
    by (rule rtranclp.rtrancl_into_rtrancl)
  then show ?case by simp
qed

lemma send_steps:
  assumes idle: "bs_sender s = SIdle" and v: "length v = words"
  shows "(bstep words)\<^sup>*\<^sup>* s (s\<lparr>bs_ring := send v (bs_ring s), bs_sender := SIdle, bs_sent := bs_sent s @ [v]\<rparr>)"
proof -
  obtain pos r1 where c: "claim (bs_ring s) = (pos, r1)" by (cases "claim (bs_ring s)")
  define s1 where "s1 = s\<lparr>bs_ring := r1, bs_sender := SClaimed pos v, bs_sent := bs_sent s @ [v]\<rparr>"
  define s2 where "s2 = s1\<lparr>bs_ring := set_version pos (2 * pos + 1) (bs_ring s1), bs_sender := SWriting pos v 0\<rparr>"
  define s3 where "s3 = s2\<lparr>bs_ring := fold (\<lambda>i. set_word pos i (v ! i)) [0..<words] (bs_ring s2),
    bs_sender := SWriting pos v words\<rparr>"
  define s4 where "s4 = s3\<lparr>bs_ring := set_version pos (2 * pos + 2) (bs_ring s3), bs_sender := SIdle\<rparr>"
  have 1: "bstep words s s1" unfolding s1_def by (rule bstep.b_claim [OF idle v c])
  have 2: "bstep words s1 s2" unfolding s2_def by (rule bstep.b_begin) (simp add: s1_def)
  have 3: "(bstep words)\<^sup>*\<^sup>* s2 s3" unfolding s3_def by (rule write_words_steps) (simp_all add: s2_def)
  have 4: "bstep words s3 s4" unfolding s4_def by (rule bstep.b_end) (simp add: s3_def)
  have "(bstep words)\<^sup>*\<^sup>* s s4"
    by (rule converse_rtranclp_into_rtranclp [OF 1 converse_rtranclp_into_rtranclp [OF 2
          rtranclp.rtrancl_into_rtrancl [OF 3 4]]])
  moreover have "s4 = s\<lparr>bs_ring := send v (bs_ring s), bs_sender := SIdle, bs_sent := bs_sent s @ [v]\<rparr>"
    using v by (simp add: s1_def s2_def s3_def s4_def send_def c)
  ultimately show ?thesis by simp
qed

lemma capacity_send: "capacity_of (send v r) = capacity_of r"
proof -
  have "capacity_of (fold (\<lambda>i. set_word pos i (v ! i)) js r) = capacity_of r" for pos js r
    by (induction js arbitrary: r) simp_all
  then show ?thesis by (simp add: send_def claim_def)
qed

lemma capacity_published: "capacity_of (fold send vs r) = capacity_of r"
  by (induction vs arbitrary: r) (simp_all add: capacity_send)

definition published :: "ring \<Rightarrow> u64 list list \<Rightarrow> bsys" where
  "published r vs = \<lparr>bs_ring = fold send vs r, bs_sender = SIdle, bs_readers = (\<lambda>_. None), bs_sent = vs\<rparr>"

lemma published_reach:
  assumes ch: "channel words n = Some r" and n: "n \<le> 2 ^ 62"
  shows "\<forall>v\<in>set vs. length v = words \<Longrightarrow> reach (binit words n) (bstep words) (published r vs)"
proof (induction vs rule: rev_induct)
  case Nil
  show ?case by (rule reach_init) (use ch n in \<open>simp add: binit_def published_def\<close>)
next
  case (snoc v vs)
  have "(bstep words)\<^sup>*\<^sup>* (published r vs) (published r (vs @ [v]))"
    using send_steps [of "published r vs" v words] snoc.prems by (simp add: published_def)
  then show ?case by (rule broadcast.reach_steps) (use snoc in simp)
qed

lemma reach_core:
  "reach (binit words n) (bstep words) s \<Longrightarrow> in_bounds (bs_sent s) \<Longrightarrow> core words (bs_ring s) (bs_sent s) (bs_sender s)"
  using broadcast.inv_reach by (auto simp: b_inv_def core_def)

lemma idle_version:
  assumes core: "core words r sent SIdle" and p: "p \<le> length sent"
  shows "p < length sent \<and> length sent \<le> p + capacity_of r \<longrightarrow>
      unat (rb_versions r ! (p mod capacity_of r)) = 2 * p + 2"
    "p + capacity_of r < length sent \<longrightarrow> 2 * p + 2 < unat (rb_versions r ! (p mod capacity_of r))"
proof -
  let ?c = "capacity_of r" let ?i = "p mod ?c"
  have ok: "ring_ok words r (length sent)" using core by (simp add: core_def)
  have c: "0 < ?c" by (rule ring_ok_pos [OF ok])
  have "settled words r sent (length sent) ?i" using core c by (simp add: core_def)
  then consider "length sent \<le> ?i"
    | q where "q < length sent" "q mod ?c = ?i" "length sent \<le> q + ?c" "unat (rb_versions r ! ?i) = 2 * q + 2"
    unfolding settled_def by blast
  then have "(p < length sent \<and> length sent \<le> p + ?c \<longrightarrow> unat (rb_versions r ! ?i) = 2 * p + 2)
    \<and> (p + ?c < length sent \<longrightarrow> 2 * p + 2 < unat (rb_versions r ! ?i))"
  proof cases
    case 1
    moreover have "?i \<le> p" by simp
    ultimately show ?thesis by linarith
  next
    case (2 q)
    have "q = p \<or> q + ?c \<le> p \<or> p + ?c \<le> q" using same_slot [of p ?c q] same_slot [of q ?c p] 2(2) by linarith
    then show ?thesis using 2 c by auto
  qed
  then show "p < length sent \<and> length sent \<le> p + ?c \<longrightarrow> unat (rb_versions r ! ?i) = 2 * p + 2"
    "p + ?c < length sent \<longrightarrow> 2 * p + 2 < unat (rb_versions r ! ?i)" by blast+
qed

section \<open>A concrete run\<close>

definition demo_ring :: ring where
  "demo_ring = \<lparr>rb_mask = 1, rb_versions = [0, 2], rb_words = replicate 16 0, rb_stride = 8, rb_producer = 0\<rparr>"

lemma demo_channel: "channel 1 1 = Some demo_ring"
  by (simp add: channel_def MAX_STAGING_WORDS_def next_power_of_two_def next_power_from.simps
      next_multiple_of_def demo_ring_def Let_def upt_conv_Cons)

definition demo_reader :: "u64 \<Rightarrow> reader_pc \<Rightarrow> (nat \<times> u64 list) list \<Rightarrow> reader" where
  "demo_reader pos pc got = \<lparr>rd_rx = \<lparr>rx_pos = pos, rx_laps = 0\<rparr>, rd_pc = pc, rd_base = 0, rd_got = got\<rparr>"

definition demo_state :: "ring \<Rightarrow> reader \<Rightarrow> u64 list list \<Rightarrow> bsys" where
  "demo_state r rd vs = \<lparr>bs_ring = r, bs_sender = SIdle, bs_readers = [0 \<mapsto> rd], bs_sent = vs\<rparr>"

definition demo_sent :: ring where
  "demo_sent = \<lparr>rb_mask = 1, rb_versions = [2, 2], rb_words = 7 # replicate 15 0, rb_stride = 8, rb_producer = 1\<rparr>"

definition demo_received :: bsys where
  "demo_received = demo_state demo_sent (demo_reader 1 RIdle [(0, [7])]) [[7]]"

lemma demo_send: "send [7] demo_ring = demo_sent"
  by (simp add: send_def claim_def set_version_def set_word_def slot_of_def demo_ring_def demo_sent_def
      numeral_eq_Suc replicate_Suc)

lemma demo_run: "reach (binit 1 1) (bstep 1) demo_received"
proof -
  let ?rd = "\<lambda>pc. demo_reader 0 pc []"
  have "binit 1 1 (published demo_ring [])" using demo_channel by (simp add: binit_def published_def)
  then have "reach (binit 1 1) (bstep 1) (published demo_ring [])" by (rule reach_init)
  moreover have "bstep 1 (published demo_ring []) (demo_state demo_ring (?rd RIdle) [])"
    using bstep.b_subscribe [of "published demo_ring []" 0 1]
    by (simp add: published_def demo_state_def demo_reader_def set_reader_def subscribe_def demo_ring_def)
  ultimately have "reach (binit 1 1) (bstep 1) (demo_state demo_ring (?rd RIdle) [])" by (rule reach_step)
  moreover have "(bstep 1)\<^sup>*\<^sup>* (demo_state demo_ring (?rd RIdle) []) (demo_state demo_sent (?rd RIdle) [[7]])"
    using send_steps [of "demo_state demo_ring (?rd RIdle) []" "[7]" 1] by (simp add: demo_state_def demo_send)
  ultimately have "reach (binit 1 1) (bstep 1) (demo_state demo_sent (?rd RIdle) [[7]])"
    by (rule broadcast.reach_steps [rotated])
  moreover have "bstep 1 (demo_state demo_sent (?rd RIdle) [[7]]) (demo_state demo_sent (?rd (RReading 2 [])) [[7]])"
    using bstep.b_found [of "demo_state demo_sent (?rd RIdle) [[7]]" 0 "?rd RIdle" 1]
    by (simp add: demo_state_def demo_reader_def set_reader_def version_at_def slot_of_def demo_sent_def)
  ultimately have "reach (binit 1 1) (bstep 1) (demo_state demo_sent (?rd (RReading 2 [])) [[7]])" by (rule reach_step)
  moreover have "bstep 1 (demo_state demo_sent (?rd (RReading 2 [])) [[7]]) (demo_state demo_sent (?rd (RReading 2 [7])) [[7]])"
    using bstep.b_read [of "demo_state demo_sent (?rd (RReading 2 [])) [[7]]" 0 "?rd (RReading 2 [])" 2 "[]" 1]
    by (simp add: demo_state_def demo_reader_def set_reader_def word_at_def slot_of_def demo_sent_def)
  ultimately have "reach (binit 1 1) (bstep 1) (demo_state demo_sent (?rd (RReading 2 [7])) [[7]])" by (rule reach_step)
  moreover have "bstep 1 (demo_state demo_sent (?rd (RReading 2 [7])) [[7]]) demo_received"
    using bstep.b_got [of "demo_state demo_sent (?rd (RReading 2 [7])) [[7]]" 0 "?rd (RReading 2 [7])" 2 "[7]" 1]
    by (simp add: demo_received_def demo_state_def demo_reader_def set_reader_def version_at_def slot_of_def demo_sent_def)
  ultimately show ?thesis by (rule reach_step)
qed

section \<open>Properties\<close>

text \<open>
  C12: no torn, stale, duplicated or reordered event. In every reachable state of one producer and
  any number of receivers, as long as the positions fit their word, whatever a receiver has
  returned is, word for word, the event sent at that position; the positions grow strictly; since
  its last resynchronisation it has missed nothing; and it resynchronises only when the producer
  is more than a full buffer ahead.
\<close>

theorem events_never_torn:
  assumes "reach (binit words n) (bstep words) s" "in_bounds (bs_sent s)" "bs_readers s i = Some rd"
  shows "(\<forall>(q, x) \<in> set (rd_got rd). q < length (bs_sent s) \<and> x = bs_sent s ! q)
    \<and> sorted_wrt (<) (map fst (rd_got rd))
    \<and> (\<exists>pre. rd_got rd = pre @ map (\<lambda>q. (q, bs_sent s ! q)) [rd_base rd..<unat (rx_pos (rd_rx rd))])
    \<and> (rd_pc rd = RLapped \<longrightarrow> unat (rx_pos (rd_rx rd)) + length (rb_versions (bs_ring s)) < length (bs_sent s))"
proof -
  have ok: "reader_ok words (bs_ring s) (bs_sent s) rd"
    using broadcast.inv_reach [OF assms(1)] assms(2,3) by (simp add: b_inv_def)
  have got: "got_ok (bs_sent s) (rd_base rd) (unat (rx_pos (rd_rx rd))) (rd_got rd)"
    using ok by (simp add: reader_ok_def)
  have "rd_pc rd = RLapped \<longrightarrow> unat (rx_pos (rd_rx rd)) + length (rb_versions (bs_ring s)) < length (bs_sent s)"
    using ok by (auto simp: reader_ok_def)
  with got show ?thesis unfolding got_ok_def by fastforce
qed

theorem events_never_torn_witness:
  "reach (binit 1 1) (bstep 1) demo_received \<and> bs_readers demo_received 0 = Some (demo_reader 1 RIdle [(0, [7])])
   \<and> (\<exists>pre. [(0, [7])] = pre @ map (\<lambda>q. (q, bs_sent demo_received ! q)) [0..<1])"
proof -
  have "bs_readers demo_received 0 = Some (demo_reader 1 RIdle [(0, [7])])"
    by (simp add: demo_received_def demo_state_def)
  moreover from events_never_torn [OF demo_run _ this]
  have "\<exists>pre. [(0, [7])] = pre @ map (\<lambda>q. (q, bs_sent demo_received ! q)) [0..<1]"
    by (simp add: demo_received_def demo_state_def demo_reader_def)
  ultimately show ?thesis using demo_run by blast
qed

text \<open>A receiver on a channel nobody is sending on.\<close>

lemma recv_quiet:
  assumes "channel words n = Some r" "n \<le> 2 ^ 62" "\<forall>v\<in>set vs. length v = words"
    and "2 * length vs + 2 < 2 ^ 64" "unat (rx_pos rx) \<le> length vs"
  shows "try_recv words (fold send vs r) rx =
    (if unat (rx_pos rx) = length vs then (None, rx)
     else if unat (rx_pos rx) + length (rb_versions r) < length vs then
       (None, \<lparr>rx_pos = of_nat (length vs - length (rb_versions r) div 2), rx_laps = rx_laps rx + 1\<rparr>)
     else (Some (vs ! unat (rx_pos rx)), rx\<lparr>rx_pos := rx_pos rx + 1\<rparr>))"
proof -
  let ?r = "fold send vs r" let ?p = "unat (rx_pos rx)"
  have core: "core words ?r vs SIdle"
    using reach_core [OF published_reach [OF assms(1,2,3)]] assms(4) by (simp add: published_def)
  have ok: "ring_ok words ?r (length vs)" using core by (simp add: core_def)
  have cap: "capacity_of ?r = capacity_of r" by (rule capacity_published)
  note at = version_at_cases [OF core assms(4,5)]
  have ver: "version_at ?r (rx_pos rx) = rb_versions ?r ! (?p mod capacity_of ?r)"
    by (simp add: version_at_def slot_of_mod [OF ok])
  have want: "unat (2 * rx_pos rx + 2) = 2 * ?p + 2" by (rule unat_version) (use assms(4,5) in linarith)
  consider (new) "?p = length vs" | (lapped) "?p + capacity_of r < length vs"
    | (ready) "?p < length vs" "length vs \<le> ?p + capacity_of r" using assms(5) by linarith
  then show ?thesis
  proof cases
    case new
    then have "version_at ?r (rx_pos rx) < 2 * rx_pos rx + 2" using at by auto
    then show ?thesis using new by (simp add: try_recv_def)
  next
    case lapped
    have "2 * rx_pos rx + 2 < version_at ?r (rx_pos rx)"
      using idle_version(2) [OF core assms(5)] lapped cap want by (simp add: word_less_nat_alt ver)
    moreover have "catch_up ?r rx = \<lparr>rx_pos = of_nat (length vs - capacity_of r div 2), rx_laps = rx_laps rx + 1\<rparr>"
    proof -
      have "rx_pos (catch_up ?r rx) = of_nat (length vs - capacity_of r div 2)"
        using unat_catch_up [OF ok assms(4), of rx] cap assms(4)
        by (simp add: word_unat_eq_iff unat_of_nat take_bit_nat_eq_self)
      then show ?thesis by (simp add: catch_up_def)
    qed
    ultimately show ?thesis using lapped less_not_sym by (auto simp: try_recv_def Let_def)
  next
    case ready
    have "unat (version_at ?r (rx_pos rx)) = unat (2 * rx_pos rx + 2)"
      using idle_version(1) [OF core assms(5)] ready cap want by (simp add: ver)
    then have v: "version_at ?r (rx_pos rx) = 2 * rx_pos rx + 2" by (rule word_unat_eq_iff [THEN iffD2])
    then have pay: "payload words ?r (slot_of ?r (rx_pos rx)) = vs ! ?p" using at by auto
    have "map (word_at ?r (rx_pos rx)) [0..<words] = payload words ?r (slot_of ?r (rx_pos rx))"
      by (rule nth_equalityI) (use length_payload [OF ok slot_lt [OF ok]] word_at_payload [OF ok] in simp_all)
    then show ?thesis using ready v pay by (simp add: try_recv_def Let_def)
  qed
qed

text \<open>
  C36: what a receiver gets from a quiet channel. At the producer's position it gets nothing and
  stays; up to a full buffer behind it gets the event of its position and moves on by one; further
  behind it gets nothing, counts a lap and jumps to half a buffer behind the producer.
\<close>

theorem try_recv_decides:
  assumes "channel words n = Some r" "n \<le> 2 ^ 62" "\<forall>v\<in>set vs. length v = words"
    and "2 * length vs + 2 < 2 ^ 64" "unat (rx_pos rx) \<le> length vs"
  shows "try_recv words (fold send vs r) rx =
    (if unat (rx_pos rx) = length vs then (None, rx)
     else if unat (rx_pos rx) + length (rb_versions r) < length vs then
       (None, \<lparr>rx_pos = of_nat (length vs - length (rb_versions r) div 2), rx_laps = rx_laps rx + 1\<rparr>)
     else (Some (vs ! unat (rx_pos rx)), rx\<lparr>rx_pos := rx_pos rx + 1\<rparr>))"
  by (rule recv_quiet [OF assms])

theorem try_recv_decides_witness:
  "channel 1 1 = Some demo_ring
   \<and> try_recv 1 (fold send [[7], [8], [9]] demo_ring) \<lparr>rx_pos = 1, rx_laps = 0\<rparr> = (Some [8], \<lparr>rx_pos = 2, rx_laps = 0\<rparr>)"
  using try_recv_decides [OF demo_channel, of "[[7], [8], [9]]" "\<lparr>rx_pos = 1, rx_laps = 0\<rparr>"] demo_channel
  by (simp add: demo_ring_def)

text \<open>
  C37: the buffer. It is built for every payload of at most sixteen words and for no other; its
  capacity is the least power of two that is at least two and what was asked for; and in every
  reachable state every slot and every word a sender or a receiver addresses, at any position
  whatever, lies inside it, so no access is out of range.
\<close>

theorem accesses_in_range:
  assumes "reach (binit words n) (bstep words) s" "2 * length (bs_sent s) + 2 < 2 ^ 64"
  shows "(channel w m = None \<longleftrightarrow> 16 < w)
    \<and> (channel w m = Some r \<longrightarrow> (\<exists>k. length (rb_versions r) = 2 ^ k)
         \<and> max m 2 \<le> length (rb_versions r) \<and> length (rb_versions r) < 2 * max m 2)
    \<and> slot_of (bs_ring s) pos < length (rb_versions (bs_ring s))
    \<and> (i < words \<longrightarrow> slot_of (bs_ring s) pos * rb_stride (bs_ring s) + i < length (rb_words (bs_ring s)))"
proof -
  have ok: "ring_ok words (bs_ring s) (length (bs_sent s))" using reach_core [OF assms] by (simp add: core_def)
  have "channel w m = None \<longleftrightarrow> 16 < w" by (simp add: channel_def MAX_STAGING_WORDS_def Let_def)
  moreover have "channel w m = Some r \<longrightarrow> (\<exists>k. length (rb_versions r) = 2 ^ k)
      \<and> max m 2 \<le> length (rb_versions r) \<and> length (rb_versions r) < 2 * max m 2"
    using channel_capacity by blast
  moreover have lt: "slot_of (bs_ring s) pos < length (rb_versions (bs_ring s))" by (rule slot_lt [OF ok])
  moreover have "i < words \<longrightarrow> slot_of (bs_ring s) pos * rb_stride (bs_ring s) + i < length (rb_words (bs_ring s))"
    using slot_room [OF ok lt] by linarith
  ultimately show ?thesis by blast
qed

theorem accesses_in_range_witness:
  "reach (binit 1 1) (bstep 1) demo_received \<and> slot_of (bs_ring demo_received) 5 < 2
   \<and> slot_of (bs_ring demo_received) 5 * rb_stride (bs_ring demo_received) + 0 < length (rb_words (bs_ring demo_received))"
proof -
  have "length (rb_versions (bs_ring demo_received)) = 2" "2 * length (bs_sent demo_received) + 2 < 2 ^ 64"
    by (simp_all add: demo_received_def demo_state_def demo_sent_def)
  then show ?thesis using accesses_in_range [OF demo_run, of 1 1 demo_ring 5 0] demo_run by simp
qed

end
