(* ===== verification/Bench.thy ===== *)
theory Bench
  imports Broadcast
begin

text \<open>
  The benchmark of the event ring (src/src/bin/bench_broadcast.rs): what it runs, what a consumer
  thread does between two looks at the ring, and why a run without a lap has measured every event.
  Cores, clocks and the schedule of the threads are arguments; a histogram is the list of the
  values handed to it. Pinning, the heartbeat and the printed quantiles are not modelled.
\<close>

section \<open>The configurations\<close>

definition CHANNEL_CAPACITY :: nat where "CHANNEL_CAPACITY = 4096"
definition WARMUP_CAP :: u64 where "WARMUP_CAP = 10000"
definition MEASURED_CAP :: u64 where "MEASURED_CAP = 1000000"
definition TARGET_SECONDS :: u64 where "TARGET_SECONDS = 15"

record run_config =
  rc_subscribers :: nat
  rc_rate :: u64
  rc_label :: string

definition samples_for_rate :: "u64 \<Rightarrow> u64 \<times> u64" where
  "samples_for_rate rate_per_sec =
     (let measured = max (min (rate_per_sec * TARGET_SECONDS) MEASURED_CAP) 1000;
          warmup = max (min rate_per_sec WARMUP_CAP) 100
      in (warmup, measured))"

text \<open>The numbers of subscribers, for a number of cores that were found.\<close>

definition bench_sweep :: "nat \<Rightarrow> nat list" where
  "bench_sweep cores_found =
     (let sweep_cap = max (max cores_found 1 - 1) 1;
          sweep = filter (\<lambda>n. n \<le> sweep_cap) [1, 2, 4, 7];
          sweep = (if sweep \<noteq> [] \<and> last sweep = sweep_cap then sweep else sweep @ [sweep_cap])
      in remdups_adj sweep)"

definition bench_configs :: "nat \<Rightarrow> run_config list" where
  "bench_configs cores_found =
     [\<lparr>rc_subscribers = 1, rc_rate = 100000, rc_label = ''1 subscriber, stress load (100K/s)''\<rparr>,
      \<lparr>rc_subscribers = 1, rc_rate = 1000, rc_label = ''1 subscriber, sparse load (1K/s)''\<rparr>]
     @ map (\<lambda>n. \<lparr>rc_subscribers = n, rc_rate = 100000, rc_label = dec n @ '' subscribers''\<rparr>)
         (filter (\<lambda>n. n \<noteq> 1) (bench_sweep cores_found))
     @ [\<lparr>rc_subscribers = 64, rc_rate = 100000,
         rc_label = ''64 subscribers [OVERSUBSCRIBED - measures OS scheduling, not ring latency]''\<rparr>]"

section \<open>The producer\<close>

text \<open>
  \<open>now i\<close> is the clock when event \<open>i\<close> is sent. The producer has waited for the time the event was due,
  which moves on by the interval of the rate.
\<close>

definition bench_event :: "u64 \<Rightarrow> u64 \<Rightarrow> u64 list" where
  "bench_event i now = event_words \<lparr>je_run_seq = i, je_job_seq = i, je_state_code = 0, je_emitted_at = now\<rparr>"

definition bench_events :: "nat \<Rightarrow> (nat \<Rightarrow> u64) \<Rightarrow> u64 list list" where
  "bench_events total_events now = map (\<lambda>i. bench_event (of_nat i) (now i)) [0..<total_events]"

definition due_at :: "u64 \<Rightarrow> u64 \<Rightarrow> nat \<Rightarrow> u64" where
  "due_at start rate i = start + of_nat i * (1000000000 div rate)"

section \<open>A consumer\<close>

record consumer =
  cn_rx :: receiver
  cn_seen :: u64
  cn_histogram :: "u64 list"

text \<open>\<open>clock\<close> is what the clock shows when so many events have been seen.\<close>

definition observe :: "u64 \<Rightarrow> (u64 \<Rightarrow> u64) \<Rightarrow> u64 list \<Rightarrow> consumer \<Rightarrow> consumer" where
  "observe warmup clock event c =
     (let seen = cn_seen c + 1 in
      c\<lparr>cn_seen := seen,
        cn_histogram := (if seen > warmup then cn_histogram c @ [saturating_sub (clock seen) (event ! 3)] else cn_histogram c)\<rparr>)"

text \<open>The drain once the producer is done: nobody sends, so the ring stays the same.\<close>

partial_function (option) drain :: "u64 \<Rightarrow> (u64 \<Rightarrow> u64) \<Rightarrow> ring \<Rightarrow> consumer \<Rightarrow> consumer option" where
  "drain warmup clock r c =
     (case try_recv EVENT_WORDS r (cn_rx c) of
        (Some event, rx) \<Rightarrow> drain warmup clock r (observe warmup clock event (c\<lparr>cn_rx := rx\<rparr>))
      | (None, rx) \<Rightarrow> Some (c\<lparr>cn_rx := rx\<rparr>))"

text \<open>
  One round of the loop sees the ring as it is then and, when there was no event, the flag: \<open>Some\<close>
  the final ring once the producer is done. \<open>None\<close> while the rounds given have not ended the loop.
\<close>

fun consume :: "u64 \<Rightarrow> (u64 \<Rightarrow> u64) \<Rightarrow> (ring \<times> ring option) list \<Rightarrow> consumer \<Rightarrow> consumer option" where
  "consume warmup clock [] c = None"
| "consume warmup clock ((r, finished) # rounds) c =
     (case try_recv EVENT_WORDS r (cn_rx c) of
        (Some event, rx) \<Rightarrow> consume warmup clock rounds (observe warmup clock event (c\<lparr>cn_rx := rx\<rparr>))
      | (None, rx) \<Rightarrow> (case finished of
            Some final \<Rightarrow> drain warmup clock final (c\<lparr>cn_rx := rx\<rparr>)
          | None \<Rightarrow> consume warmup clock rounds (c\<lparr>cn_rx := rx\<rparr>)))"

definition consumer_new :: "ring \<Rightarrow> consumer" where
  "consumer_new r = \<lparr>cn_rx = subscribe r, cn_seen = 0, cn_histogram = []\<rparr>"

text \<open>A run is reported as valid when no consumer was lapped.\<close>

definition run_valid :: "consumer list \<Rightarrow> bool" where
  "run_valid cs \<longleftrightarrow> list_all (\<lambda>c. rx_laps (cn_rx c) = 0) cs"

section \<open>Facts\<close>

lemma samples_bounds:
  assumes "samples_for_rate rate = (warmup, measured)"
  shows "100 \<le> warmup \<and> warmup \<le> 10000 \<and> 1000 \<le> measured \<and> measured \<le> 1000000"
  using assms by (auto simp: samples_for_rate_def WARMUP_CAP_def MEASURED_CAP_def min_def max_def split: if_splits)

lemma push_dedup: "set (remdups_adj (if P then xs else xs @ [c])) \<subseteq> insert c (set xs)"
  by (cases P) auto

lemma bench_sweep_range:
  assumes "n \<in> set (bench_sweep cores)"
  shows "1 \<le> n \<and> n \<le> max (max cores 1 - 1) 1"
proof -
  let ?cap = "max (max cores 1 - 1) 1"
  have "n \<in> insert ?cap (set (filter (\<lambda>n. n \<le> ?cap) [1, 2, 4, 7]))"
    using assms unfolding bench_sweep_def Let_def by (rule subsetD [OF push_dedup])
  then have "n = ?cap \<or> n \<in> {1, 2, 4, 7} \<and> n \<le> ?cap" unfolding set_filter by auto
  then show ?thesis by auto
qed

text \<open>A consumer that has seen the first \<open>n\<close> of the events, without a lap.\<close>

definition consumed :: "u64 \<Rightarrow> (u64 \<Rightarrow> u64) \<Rightarrow> u64 list list \<Rightarrow> nat \<Rightarrow> consumer \<Rightarrow> bool" where
  "consumed warmup clock events n c \<longleftrightarrow> n \<le> length events \<and> rx_pos (cn_rx c) = of_nat n \<and> rx_laps (cn_rx c) = 0
     \<and> cn_seen c = of_nat n
     \<and> cn_histogram c = map (\<lambda>i. saturating_sub (clock (of_nat (Suc i))) (events ! i ! 3)) [unat warmup..<n]"

lemma consumed_next:
  assumes "consumed warmup clock events n c" "n < length events" "length events < 2 ^ 62"
  shows "consumed warmup clock events (Suc n)
    (observe warmup clock (events ! n) (c\<lparr>cn_rx := (cn_rx c)\<lparr>rx_pos := rx_pos (cn_rx c) + 1\<rparr>\<rparr>))"
proof -
  have "unat (of_nat (Suc n) :: u64) = Suc n" using assms(2,3) by (simp add: unat_of_nat take_bit_nat_eq_self del: of_nat_Suc)
  then have "warmup < of_nat (Suc n) \<longleftrightarrow> unat warmup \<le> n" by (metis less_Suc_eq_le word_less_nat_alt)
  then show ?thesis using assms(1,2) by (auto simp: consumed_def observe_def Let_def add.commute)
qed

text \<open>
  The rounds of a consumer: the ring after more and more of the events, and the flag only once all
  have been sent.
\<close>

fun schedule :: "ring \<Rightarrow> u64 list list \<Rightarrow> nat \<Rightarrow> (ring \<times> ring option) list \<Rightarrow> bool" where
  "schedule r events n [] = True"
| "schedule r events n ((seen, finished) # rounds) =
     (\<exists>m. n \<le> m \<and> m \<le> length events \<and> seen = fold send (take m events) r
        \<and> (finished = None \<or> finished = Some (fold send events r)) \<and> schedule r events m rounds)"

lemma schedule_weaken: "schedule r events m rounds \<Longrightarrow> k \<le> m \<Longrightarrow> schedule r events k rounds"
proof (cases rounds)
  case (Cons x rest)
  assume sch: "schedule r events m rounds" and k: "k \<le> m"
  obtain seen finished where x: "x = (seen, finished)" by (cases x)
  obtain m' where "m \<le> m'" "m' \<le> length events \<and> seen = fold send (take m' events) r
    \<and> (finished = None \<or> finished = Some (fold send events r)) \<and> schedule r events m' rest" using sch Cons x by auto
  then show ?thesis using le_trans [OF k] Cons x by auto
qed simp

lemma try_recv_laps: "try_recv words r rx = (got, rx') \<Longrightarrow> rx_laps rx' = rx_laps rx \<or> got = None \<and> rx_laps rx' = rx_laps rx + 1"
  by (auto simp: try_recv_def catch_up_def Let_def split: if_splits)

lemma observe_rx [simp]: "cn_rx (observe warmup clock event c) = cn_rx c"
  by (simp add: observe_def Let_def)

lemma drain_laps:
  assumes "drain warmup clock r c = Some c'"
  shows "rx_laps (cn_rx c') = rx_laps (cn_rx c) \<or> rx_laps (cn_rx c') = rx_laps (cn_rx c) + 1"
proof (rule drain.raw_induct [where P = "\<lambda>warmup clock r c c'.
    rx_laps (cn_rx c') = rx_laps (cn_rx c) \<or> rx_laps (cn_rx c') = rx_laps (cn_rx c) + 1", OF _ assms])
  fix rest :: "u64 \<Rightarrow> (u64 \<Rightarrow> u64) \<Rightarrow> ring \<Rightarrow> consumer \<Rightarrow> consumer option" and warmup clock r c c'
  assume IH: "\<And>warmup clock r c c'. rest warmup clock r c = Some c' \<Longrightarrow>
      rx_laps (cn_rx c') = rx_laps (cn_rx c) \<or> rx_laps (cn_rx c') = rx_laps (cn_rx c) + 1"
    and once: "(case try_recv EVENT_WORDS r (cn_rx c) of
        (None, rx) \<Rightarrow> Some (c\<lparr>cn_rx := rx\<rparr>)
      | (Some event, rx) \<Rightarrow> rest warmup clock r (observe warmup clock event (c\<lparr>cn_rx := rx\<rparr>))) = Some c'"
  obtain got rx where t: "try_recv EVENT_WORDS r (cn_rx c) = (got, rx)" by fastforce
  show "rx_laps (cn_rx c') = rx_laps (cn_rx c) \<or> rx_laps (cn_rx c') = rx_laps (cn_rx c) + 1"
  proof (cases got)
    case (Some event)
    then have "rest warmup clock r (observe warmup clock event (c\<lparr>cn_rx := rx\<rparr>)) = Some c'" using once t by simp
    from IH [OF this] show ?thesis using try_recv_laps [OF t] Some by simp
  qed (use once t try_recv_laps [OF t] in auto)
qed

lemma plus_one_laps: "unat (l :: u64) < 2 ^ 64 - 1 \<Longrightarrow> unat (l + 1) = Suc (unat l)"
  by (simp add: unat_word_ariths)

lemma consume_laps:
  assumes "consume warmup clock rounds c = Some c'" "unat (rx_laps (cn_rx c)) + length rounds < 2 ^ 64 - 1"
  shows "unat (rx_laps (cn_rx c)) \<le> unat (rx_laps (cn_rx c'))"
  using assms
proof (induction rounds arbitrary: c)
  case (Cons x rounds)
  obtain r finished where x: "x = (r, finished)" by (cases x)
  obtain got rx where t: "try_recv EVENT_WORDS r (cn_rx c) = (got, rx)" by fastforce
  have l: "rx_laps rx = rx_laps (cn_rx c) \<or> got = None \<and> rx_laps rx = rx_laps (cn_rx c) + 1" by (rule try_recv_laps [OF t])
  then have le: "unat (rx_laps (cn_rx c)) \<le> unat (rx_laps rx)" "unat (rx_laps rx) \<le> Suc (unat (rx_laps (cn_rx c)))"
    using plus_one_laps [of "rx_laps (cn_rx c)"] Cons.prems(2) by auto
  show ?case
  proof (cases got)
    case (Some event)
    then have "consume warmup clock rounds (observe warmup clock event (c\<lparr>cn_rx := rx\<rparr>)) = Some c'"
      using Cons.prems(1) t x by simp
    from Cons.IH [OF this] Cons.prems(2) le show ?thesis by simp
  next
    case None
    show ?thesis
    proof (cases finished)
      case None
      then have "consume warmup clock rounds (c\<lparr>cn_rx := rx\<rparr>) = Some c'" using Cons.prems(1) t x \<open>got = None\<close> by simp
      from Cons.IH [OF this] Cons.prems(2) le show ?thesis by simp
    next
      case (Some final)
      then have "drain warmup clock final (c\<lparr>cn_rx := rx\<rparr>) = Some c'" using Cons.prems(1) t x \<open>got = None\<close> by simp
      from drain_laps [OF this] show ?thesis
        using le plus_one_laps [of "rx_laps rx"] Cons.prems(2) by auto
    qed
  qed
qed simp

lemma one_look:
  assumes ch: "channel EVENT_WORDS cap = Some r" "cap \<le> 2 ^ 62" and ev: "\<forall>v \<in> set events. length v = EVENT_WORDS" "length events < 2 ^ 62"
    and c: "consumed warmup clock events n c" and m: "n \<le> m" "m \<le> length events"
  shows "(n = m \<and> try_recv EVENT_WORDS (fold send (take m events) r) (cn_rx c) = (None, cn_rx c))
    \<or> (n < m \<and> try_recv EVENT_WORDS (fold send (take m events) r) (cn_rx c)
        = (Some (events ! n), (cn_rx c)\<lparr>rx_pos := rx_pos (cn_rx c) + 1\<rparr>))
    \<or> (\<exists>rx. try_recv EVENT_WORDS (fold send (take m events) r) (cn_rx c) = (None, rx) \<and> rx_laps rx = 1)"
proof -
  have n: "unat (rx_pos (cn_rx c)) = n" "rx_laps (cn_rx c) = 0"
    using c ev(2) by (auto simp: consumed_def unat_of_nat take_bit_nat_eq_self)
  have "length (take m events) = m" "\<forall>v \<in> set (take m events). length v = EVENT_WORDS"
    using m(2) ev(1) by (auto dest: in_set_takeD)
  then show ?thesis using recv_quiet [OF ch, of "take m events" "cn_rx c"] n m ev(2) by auto
qed

lemma consumed_drain:
  assumes ch: "channel EVENT_WORDS cap = Some r" "cap \<le> 2 ^ 62" and ev: "\<forall>v \<in> set events. length v = EVENT_WORDS" "length events < 2 ^ 62"
    and c: "consumed warmup clock events n c"
  shows "\<exists>c'. drain warmup clock (fold send events r) c = Some c' \<and> (consumed warmup clock events (length events) c' \<or> rx_laps (cn_rx c') = 1)"
  using c
proof (induction "length events - n" arbitrary: n c)
  case less: (Suc k)
  then have n: "n < length events" by simp
  have "take (length events) events = events" by simp
  then consider (got) "try_recv EVENT_WORDS (fold send events r) (cn_rx c) = (Some (events ! n), (cn_rx c)\<lparr>rx_pos := rx_pos (cn_rx c) + 1\<rparr>)"
    | (lap) rx where "try_recv EVENT_WORDS (fold send events r) (cn_rx c) = (None, rx)" "rx_laps rx = 1"
    using one_look [OF ch ev less.prems, of "length events"] n by fastforce
  then show ?case
  proof cases
    case got
    have "consumed warmup clock events (Suc n) (observe warmup clock (events ! n) (c\<lparr>cn_rx := (cn_rx c)\<lparr>rx_pos := rx_pos (cn_rx c) + 1\<rparr>\<rparr>))"
      by (rule consumed_next [OF less.prems n ev(2)])
    from less.hyps(1) [OF _ this] less.hyps(2) show ?thesis by (simp add: drain.simps [of _ _ _ c] got)
  qed (simp add: drain.simps)
next
  case 0
  then have n: "n = length events" by (simp add: consumed_def)
  have "take (length events) events = events" by simp
  then have "try_recv EVENT_WORDS (fold send events r) (cn_rx c) = (None, cn_rx c)
    \<or> (\<exists>rx. try_recv EVENT_WORDS (fold send events r) (cn_rx c) = (None, rx) \<and> rx_laps rx = 1)"
    using one_look [OF ch ev 0(2), of "length events"] n by fastforce
  then show ?case using 0(2) n by (auto simp: drain.simps consumed_def)
qed

text \<open>
  A run without a lap is complete: a consumer that ends without having been lapped has seen every
  event the producer sent, in order, and has recorded the latency of every one after the warm-up.
\<close>

lemma consumed_all:
  assumes ch: "channel EVENT_WORDS cap = Some r" "cap \<le> 2 ^ 62" and ev: "\<forall>v \<in> set events. length v = EVENT_WORDS" "length events < 2 ^ 62"
    and c: "consumed warmup clock events n c" and rounds: "schedule r events n rounds" "length rounds < 2 ^ 62"
    and ended: "consume warmup clock rounds c = Some c'" and valid: "rx_laps (cn_rx c') = 0"
  shows "consumed warmup clock events (length events) c'"
  using c rounds ended
proof (induction rounds arbitrary: n c)
  case (Cons x rounds)
  obtain seen finished where x: "x = (seen, finished)" by (cases x)
  obtain m where m: "n \<le> m" "m \<le> length events" "seen = fold send (take m events) r"
    "finished = None \<or> finished = Some (fold send events r)" "schedule r events m rounds" using Cons.prems(2) x by auto
  note weaker = schedule_weaken [OF m(5)]
  consider (none) "n = m" "try_recv EVENT_WORDS seen (cn_rx c) = (None, cn_rx c)"
    | (got) "n < m" "try_recv EVENT_WORDS seen (cn_rx c) = (Some (events ! n), (cn_rx c)\<lparr>rx_pos := rx_pos (cn_rx c) + 1\<rparr>)"
    | (lap) rx where "try_recv EVENT_WORDS seen (cn_rx c) = (None, rx)" "rx_laps rx = 1"
    using one_look [OF ch ev Cons.prems(1) m(1,2)] m(3) by blast
  then show ?case
  proof cases
    case none
    show ?thesis
    proof (cases finished)
      case None
      then show ?thesis using Cons.IH [OF Cons.prems(1) weaker [OF m(1)]] Cons.prems(3,4) none(2) x by simp
    next
      case (Some final)
      then have "drain warmup clock (fold send events r) c = Some c'" using Cons.prems(4) none(2) x m(4) by simp
      then show ?thesis using consumed_drain [OF ch ev Cons.prems(1)] valid by auto
    qed
  next
    case got
    have n: "n < length events" using got(1) m(2) by simp
    from Cons.IH [OF consumed_next [OF Cons.prems(1) n ev(2)] weaker] show ?thesis
      using Cons.prems(3,4) got x by simp
  next
    case lap
    let ?c = "c\<lparr>cn_rx := rx\<rparr>"
    have "unat (rx_laps (cn_rx c')) \<noteq> 0"
    proof (cases finished)
      case None
      then have "consume warmup clock rounds ?c = Some c'" using Cons.prems(4) lap(1) x by simp
      from consume_laps [OF this] show ?thesis using lap(2) Cons.prems(3) by simp
    next
      case (Some final)
      then have "drain warmup clock final ?c = Some c'" using Cons.prems(4) lap(1) x by simp
      from drain_laps [OF this] show ?thesis using lap(2) by auto
    qed
    then show ?thesis using valid by simp
  qed
qed simp

lemma valid_run_is_complete:
  assumes "channel EVENT_WORDS CHANNEL_CAPACITY = Some r" and "samples_for_rate rate = (warmup, measured)"
    and "events = bench_events (unat warmup + unat measured) now" and "schedule r events 0 rounds" and "length rounds < 2 ^ 62"
    and "consume warmup clock rounds (consumer_new r) = Some c" and "run_valid [c]"
  shows "cn_seen c = warmup + measured \<and> length (cn_histogram c) = unat measured"
proof -
  have b: "warmup \<le> 10000" "measured \<le> 1000000" using samples_bounds [OF assms(2)] by simp_all
  then have nat: "unat warmup \<le> 10000" "unat measured \<le> 1000000" by (simp_all add: word_le_nat_alt)
  have len: "length events = unat warmup + unat measured" by (simp add: assms(3) bench_events_def)
  have ev: "\<forall>v \<in> set events. length v = EVENT_WORDS"
    by (simp add: assms(3) bench_events_def bench_event_def event_words_def EVENT_WORDS_def)
  have "rb_producer r = 0" using assms(1) by (auto simp: channel_def Let_def split: if_splits)
  then have "consumed warmup clock events 0 (consumer_new r)" by (simp add: consumed_def consumer_new_def subscribe_def)
  from consumed_all [OF assms(1) _ ev _ this assms(4-6)] assms(7) len nat
  have "consumed warmup clock events (length events) c" by (simp add: CHANNEL_CAPACITY_def run_valid_def)
  then show ?thesis by (auto simp: consumed_def len)
qed

end
