(* ===== verification/Placement.thy ===== *)
theory Placement
  imports Resource_Pool
begin

text \<open>
  First-fit placement of a job's members over the nodes (src/src/resource/placement.rs). The
  search and the undo loop are written over the pool operations they call, so that the contract
  they rely on is a locale; \<open>place\<close> is their instance on the pool of the program. A \<open>None\<close>
  of the outer option is an index panic.
\<close>

text \<open>The inner \<open>find_map\<close>: the nodes in order, offline ones filtered out.\<close>

fun first_fit :: "('s \<Rightarrow> 'p \<Rightarrow> ('a option \<times> 'p) option) \<Rightarrow> 's \<Rightarrow> bool list \<Rightarrow> nat \<Rightarrow> 'p list
    \<Rightarrow> ((nat \<times> 'a) option \<times> 'p list) option" where
  "first_fit reserve option online node [] = Some (None, [])"
| "first_fit reserve option online node (pool # rest) = do {
     up \<leftarrow> vec_get online node;
     (found, pool') \<leftarrow> (if up then reserve option pool else Some (None, pool));
     case found of
       Some alloc \<Rightarrow> Some (Some (node, alloc), pool' # rest)
     | None \<Rightarrow> do {
         (member, rest') \<leftarrow> first_fit reserve option online (Suc node) rest;
         Some (member, pool' # rest') } }"

text \<open>The outer \<open>find_map\<close>: each option over every node before the next option.\<close>

fun try_options :: "('s \<Rightarrow> 'p \<Rightarrow> ('a option \<times> 'p) option) \<Rightarrow> 's list \<Rightarrow> bool list \<Rightarrow> 'p list
    \<Rightarrow> ((nat \<times> 'a) option \<times> 'p list) option" where
  "try_options reserve [] online pools = Some (None, pools)"
| "try_options reserve (option # options) online pools = do {
     (found, pools') \<leftarrow> first_fit reserve option online 0 pools;
     case found of
       Some member \<Rightarrow> Some (Some member, pools')
     | None \<Rightarrow> try_options reserve options online pools' }"

fun undo :: "('a \<Rightarrow> 'p \<Rightarrow> 'p option) \<Rightarrow> (nat \<times> 'a) list \<Rightarrow> 'p list \<Rightarrow> 'p list option" where
  "undo rel [] pools = Some pools"
| "undo rel ((node, alloc) # placed) pools = do {
     pool \<leftarrow> vec_get pools node;
     pool' \<leftarrow> rel alloc pool;
     pools' \<leftarrow> vec_set pools node pool';
     undo rel placed pools' }"

fun place_members :: "('s \<Rightarrow> 'p \<Rightarrow> ('a option \<times> 'p) option) \<Rightarrow> ('a \<Rightarrow> 'p \<Rightarrow> 'p option) \<Rightarrow> ('s \<Rightarrow> 's list)
    \<Rightarrow> bool list \<Rightarrow> 's list \<Rightarrow> (nat \<times> 'a) list \<Rightarrow> 'p list
    \<Rightarrow> ((nat \<times> 'a) list option \<times> 'p list) option" where
  "place_members reserve rel options online [] placed pools = Some (Some placed, pools)"
| "place_members reserve rel options online (spec # members) placed pools = do {
     (found, pools') \<leftarrow> try_options reserve (options spec) online pools;
     case found of
       Some member \<Rightarrow> place_members reserve rel options online members (placed @ [member]) pools'
     | None \<Rightarrow> do {
         pools'' \<leftarrow> undo rel placed pools';
         Some (None, pools'') } }"

definition place :: "resource_pool list \<Rightarrow> bool list \<Rightarrow> resource_spec list
    \<Rightarrow> ((nat \<times> allocation) list option \<times> resource_pool list) option" where
  "place pools online members = place_members try_reserve release gpu_options online members [] pools"

section \<open>What placement relies on\<close>

text \<open>
  The contract of a pool towards its clients: a ledger of the allocations handed out, kept by
  reserving and releasing; both return; a refusal changes nothing; and what is free is
  determined by what is held.
\<close>

locale reservable =
  fixes reserve :: "'s \<Rightarrow> 'p \<Rightarrow> ('a option \<times> 'p) option"
    and rel :: "'a \<Rightarrow> 'p \<Rightarrow> 'p option"
    and holds :: "'p \<Rightarrow> 'a multiset \<Rightarrow> bool"
    and frame :: "'p \<Rightarrow> 'c"
  assumes reserve_holds: "holds p H \<Longrightarrow> \<exists>r p'. reserve s p = Some (r, p') \<and> frame p' = frame p
      \<and> (case r of None \<Rightarrow> p' = p | Some a \<Rightarrow> holds p' (add_mset a H))"
    and release_holds: "holds p (add_mset a H) \<Longrightarrow> \<exists>p'. rel a p = Some p' \<and> frame p' = frame p \<and> holds p' H"
    and holds_unique: "holds p H \<Longrightarrow> holds q H \<Longrightarrow> frame p = frame q \<Longrightarrow> p = q"
begin

lemma reserve_cases:
  assumes "holds p H"
  obtains (refused) "reserve s p = Some (None, p)"
  | (taken) a p' where "reserve s p = Some (Some a, p')" "frame p' = frame p" "holds p' (add_mset a H)"
proof -
  obtain r p' where r: "reserve s p = Some (r, p')" "frame p' = frame p"
    "case r of None \<Rightarrow> p' = p | Some a \<Rightarrow> holds p' (add_mset a H)"
    using reserve_holds [OF assms, of s] by blast
  then show ?thesis using refused taken by (cases r) auto
qed

lemma first_fit_result:
  assumes "\<forall>k < length ps. holds (ps ! k) (H (node + k))" and "node + length ps \<le> length online"
  shows "(first_fit reserve s online node ps = Some (None, ps)
            \<and> (\<forall>k < length ps. online ! (node + k) \<longrightarrow> reserve s (ps ! k) = Some (None, ps ! k)))
       \<or> (\<exists>k a p'. k < length ps \<and> online ! (node + k) \<and> reserve s (ps ! k) = Some (Some a, p')
            \<and> holds p' (add_mset a (H (node + k))) \<and> frame p' = frame (ps ! k)
            \<and> first_fit reserve s online node ps = Some (Some (node + k, a), ps[k := p'])
            \<and> (\<forall>j < k. online ! (node + j) \<longrightarrow> reserve s (ps ! j) = Some (None, ps ! j)))"
    (is "?none ps node \<or> ?some ps node")
  using assms
proof (induction ps arbitrary: node)
  case Nil
  then show ?case by simp
next
  case (Cons p ps)
  have up: "node < length online" and h: "holds p (H node)" using Cons.prems by auto
  have IH: "?none ps (Suc node) \<or> ?some ps (Suc node)"
  proof (rule Cons.IH)
    show "\<forall>k < length ps. holds (ps ! k) (H (Suc node + k))"
      using Cons.prems(1) by (metis Suc_less_eq add_Suc_shift length_Cons nth_Cons_Suc)
  qed (use Cons.prems in simp)
  have later: "?none (p # ps) node \<or> ?some (p # ps) node"
    if skip: "online ! node \<longrightarrow> reserve s p = Some (None, p)"
    using IH
  proof
    assume "?none ps (Suc node)"
    then show ?thesis using skip up by (auto simp: less_Suc_eq_0_disj)
  next
    assume "?some ps (Suc node)"
    then obtain k a p' where k: "k < length ps" "online ! (Suc node + k)" "reserve s (ps ! k) = Some (Some a, p')"
      "holds p' (add_mset a (H (Suc node + k)))" "frame p' = frame (ps ! k)"
      "first_fit reserve s online (Suc node) ps = Some (Some (Suc node + k, a), ps[k := p'])"
      "\<forall>j < k. online ! (Suc node + j) \<longrightarrow> reserve s (ps ! j) = Some (None, ps ! j)" by blast
    then have "?some (p # ps) node" using skip up
      by (intro exI [of _ "Suc k"] exI [of _ a] exI [of _ p']) (auto simp: less_Suc_eq_0_disj)
    then show ?thesis ..
  qed
  show ?case
  proof (cases "online ! node")
    case True
    from h show ?thesis
    proof (cases rule: reserve_cases [where s = s])
      case refused
      then show ?thesis using later by blast
    next
      case (taken a p')
      then have "?some (p # ps) node" using True up
        by (intro exI [of _ 0] exI [of _ a] exI [of _ p']) auto
      then show ?thesis ..
    qed
  qed (use later in blast)
qed

text \<open>
  The nodes' ledgers as one: \<open>all_hold pools H\<close>. Placing adds each member's allocation to the
  ledger of its node.
\<close>

definition all_hold :: "'p list \<Rightarrow> (nat \<Rightarrow> 'a multiset) \<Rightarrow> bool" where
  "all_hold pools H \<longleftrightarrow> (\<forall>i < length pools. holds (pools ! i) (H i))"

definition give :: "(nat \<times> 'a) \<Rightarrow> (nat \<Rightarrow> 'a multiset) \<Rightarrow> nat \<Rightarrow> 'a multiset" where
  "give m H = H(fst m := add_mset (snd m) (H (fst m)))"

lemma all_hold_update:
  "all_hold pools H \<Longrightarrow> n < length pools \<Longrightarrow> holds p' (add_mset a (H n)) \<Longrightarrow> all_hold (pools[n := p']) (give (n, a) H)"
  by (auto simp: all_hold_def give_def nth_list_update)

lemma try_options_result:
  assumes "all_hold pools H" and "length pools \<le> length online"
  shows "(try_options reserve options online pools = Some (None, pools)
            \<and> (\<forall>s \<in> set options. \<forall>k < length pools. online ! k \<longrightarrow> reserve s (pools ! k) = Some (None, pools ! k)))
       \<or> (\<exists>before s after k a p'. options = before @ s # after \<and> k < length pools \<and> online ! k
            \<and> reserve s (pools ! k) = Some (Some a, p') \<and> frame p' = frame (pools ! k)
            \<and> all_hold (pools[k := p']) (give (k, a) H)
            \<and> try_options reserve options online pools = Some (Some (k, a), pools[k := p'])
            \<and> (\<forall>j < k. online ! j \<longrightarrow> reserve s (pools ! j) = Some (None, pools ! j))
            \<and> (\<forall>s' \<in> set before. \<forall>j < length pools. online ! j \<longrightarrow> reserve s' (pools ! j) = Some (None, pools ! j)))"
    (is "?none options \<or> ?some options")
proof (induction options)
  case Nil
  then show ?case by simp
next
  case (Cons s options)
  have "(\<forall>k < length pools. holds (pools ! k) (H (0 + k)))" using assms(1) by (simp add: all_hold_def)
  from first_fit_result [OF this, of online s] assms(2)
  consider (none) "first_fit reserve s online 0 pools = Some (None, pools)"
      "\<forall>k < length pools. online ! k \<longrightarrow> reserve s (pools ! k) = Some (None, pools ! k)"
    | (some) k a p' where "k < length pools" "online ! k" "reserve s (pools ! k) = Some (Some a, p')"
      "holds p' (add_mset a (H k))" "frame p' = frame (pools ! k)"
      "first_fit reserve s online 0 pools = Some (Some (k, a), pools[k := p'])"
      "\<forall>j < k. online ! j \<longrightarrow> reserve s (pools ! j) = Some (None, pools ! j)" by auto
  then show ?case
  proof cases
    case none
    from Cons.IH show ?thesis
    proof
      assume "?none options"
      then show ?thesis using none by auto
    next
      assume "?some options"
      then obtain before t after k a p' where "options = before @ t # after" "k < length pools" "online ! k"
        "reserve t (pools ! k) = Some (Some a, p')" "frame p' = frame (pools ! k)"
        "all_hold (pools[k := p']) (give (k, a) H)"
        "try_options reserve options online pools = Some (Some (k, a), pools[k := p'])"
        "\<forall>j < k. online ! j \<longrightarrow> reserve t (pools ! j) = Some (None, pools ! j)"
        "\<forall>s' \<in> set before. \<forall>j < length pools. online ! j \<longrightarrow> reserve s' (pools ! j) = Some (None, pools ! j)"
        by blast
      then have "?some (s # options)" using none
        by (intro exI [of _ "s # before"] exI [of _ t] exI [of _ after] exI [of _ k] exI [of _ a] exI [of _ p']) simp
      then show ?thesis ..
    qed
  next
    case (some k a p')
    then have "?some (s # options)" using all_hold_update [OF assms(1)]
      by (intro exI [of _ "[]"] exI [of _ s] exI [of _ options] exI [of _ k] exI [of _ a] exI [of _ p']) simp
    then show ?thesis ..
  qed
qed

lemma give_commute: "give m (give n H) = give n (give m H)"
  by (auto simp: give_def fun_eq_iff)

lemma fold_give: "fold give (ms @ [m]) H = give m (fold give ms H)" "give m (fold give ms H) = fold give ms (give m H)"
  by (induction ms arbitrary: H) (simp_all add: give_commute)

lemma undo_result:
  assumes "all_hold pools (fold give placed H)" and "\<forall>m \<in> set placed. fst m < length pools"
  shows "\<exists>pools'. undo rel placed pools = Some pools' \<and> all_hold pools' H \<and> map frame pools' = map frame pools"
  using assms
proof (induction placed arbitrary: pools)
  case Nil
  then show ?case by simp
next
  case (Cons m placed)
  obtain n a where m: "m = (n, a)" by (cases m)
  then have n: "n < length pools" using Cons.prems by simp
  have h: "all_hold pools (give (n, a) (fold give placed H))" using Cons.prems m by (simp add: fold_give(2))
  then have "holds (pools ! n) (add_mset a (fold give placed H n))" using n by (auto simp: all_hold_def give_def)
  from release_holds [OF this] obtain p' where p': "rel a (pools ! n) = Some p'" "frame p' = frame (pools ! n)"
    "holds p' (fold give placed H n)" by blast
  have "all_hold (pools[n := p']) (fold give placed H)"
    using h p'(3) n by (auto simp: all_hold_def give_def nth_list_update split: if_splits)
  from Cons.IH [OF this] Cons.prems p' n show ?case
    by (auto simp: m map_update list_update_same_conv)
qed

lemma all_hold_unique:
  assumes "all_hold pools H" "all_hold pools' H" "map frame pools' = map frame pools"
  shows "pools' = pools"
proof (rule nth_equalityI)
  show len: "length pools' = length pools" using assms(3) by (metis length_map)
  show "pools' ! i = pools ! i" if "i < length pools'" for i
    using that len assms holds_unique by (metis all_hold_def nth_map)
qed

text \<open>All or nothing: either every member has an allocation, or no pool has changed.\<close>

lemma place_members_result:
  assumes "all_hold pools0 H" "map frame pools = map frame pools0" "all_hold pools (fold give placed H)"
    and "\<forall>m \<in> set placed. fst m < length pools \<and> online ! fst m" and "length pools \<le> length online"
  shows "place_members reserve rel options online members placed pools = Some (None, pools0)
    \<or> (\<exists>ms pools'. place_members reserve rel options online members placed pools = Some (Some (placed @ ms), pools')
         \<and> length ms = length members \<and> (\<forall>m \<in> set ms. fst m < length pools \<and> online ! fst m)
         \<and> all_hold pools' (fold give (placed @ ms) H) \<and> map frame pools' = map frame pools)"
  using assms(2-)
proof (induction members arbitrary: placed pools)
  case Nil
  then show ?case by simp
next
  case (Cons spec members)
  from try_options_result [OF Cons.prems(2) Cons.prems(4), of "options spec"]
  consider (none) "try_options reserve (options spec) online pools = Some (None, pools)"
    | (some) k a p' where "k < length pools" "online ! k" "frame p' = frame (pools ! k)"
      "all_hold (pools[k := p']) (give (k, a) (fold give placed H))"
      "try_options reserve (options spec) online pools = Some (Some (k, a), pools[k := p'])" by blast
  then show ?case
  proof cases
    case none
    obtain pools' where u: "undo rel placed pools = Some pools'" "all_hold pools' H" "map frame pools' = map frame pools"
      using undo_result [OF Cons.prems(2)] Cons.prems(3) by blast
    then have "pools' = pools0" using all_hold_unique [OF assms(1)] Cons.prems(1) by simp
    then show ?thesis using none u by simp
  next
    case (some k a p')
    let ?pools = "pools[k := p']" and ?placed = "placed @ [(k, a)]"
    have frame: "map frame ?pools = map frame pools"
      using some by (metis list_update_id map_update nth_map)
    have "place_members reserve rel options online members ?placed ?pools = Some (None, pools0)
      \<or> (\<exists>ms pools'. place_members reserve rel options online members ?placed ?pools = Some (Some (?placed @ ms), pools')
         \<and> length ms = length members \<and> (\<forall>m \<in> set ms. fst m < length ?pools \<and> online ! fst m)
         \<and> all_hold pools' (fold give (?placed @ ms) H) \<and> map frame pools' = map frame ?pools)"
      using Cons.prems some frame by (intro Cons.IH) (auto simp: fold_give(1))
    then show ?thesis
    proof
      assume "\<exists>ms pools'. place_members reserve rel options online members ?placed ?pools = Some (Some (?placed @ ms), pools')
         \<and> length ms = length members \<and> (\<forall>m \<in> set ms. fst m < length ?pools \<and> online ! fst m)
         \<and> all_hold pools' (fold give (?placed @ ms) H) \<and> map frame pools' = map frame ?pools"
      then obtain ms pools' where "place_members reserve rel options online members ?placed ?pools = Some (Some (?placed @ ms), pools')"
        "length ms = length members" "\<forall>m \<in> set ms. fst m < length ?pools \<and> online ! fst m"
        "all_hold pools' (fold give (?placed @ ms) H)" "map frame pools' = map frame ?pools" by blast
      then show ?thesis using some frame
        by (intro disjI2 exI [of _ "(k, a) # ms"] exI [of _ pools']) simp
    qed (use some in simp)
  qed
qed

end

interpretation pool_reservable: reservable try_reserve release ledger "\<lambda>p. (total p, blocked p)"
proof
  fix p H s
  assume L: "ledger p H"
  then show "\<exists>r p'. try_reserve s p = Some (r, p') \<and> (total p', blocked p') = (total p, blocked p)
      \<and> (case r of None \<Rightarrow> p' = p | Some a \<Rightarrow> ledger p' (add_mset a H))"
    by (cases rule: try_reserve_cases [where spec = s]) auto
qed (use release_held ledger_unique in fastforce)+

section \<open>Properties of placement\<close>

lemma fold_give_held:
  "fold pool_reservable.give ms H i = H i + mset (map snd (filter (\<lambda>m. fst m = i) ms))"
  by (induction ms arbitrary: H) (auto simp: pool_reservable.give_def)

lemma place_result:
  assumes L: "\<forall>i < length pools. ledger (pools ! i) (H i)" and online: "length online = length pools"
  shows "place pools online members = Some (None, pools)
    \<or> (\<exists>placed pools'. place pools online members = Some (Some placed, pools')
         \<and> length placed = length members \<and> length pools' = length pools
         \<and> (\<forall>m \<in> set placed. fst m < length pools \<and> online ! fst m)
         \<and> (\<forall>i < length pools. ledger (pools' ! i) (H i + mset (map snd (filter (\<lambda>m. fst m = i) placed)))
              \<and> total (pools' ! i) = total (pools ! i) \<and> blocked (pools' ! i) = blocked (pools ! i)))"
proof -
  have all: "pool_reservable.all_hold pools H" using L by (simp add: pool_reservable.all_hold_def)
  have "place_members try_reserve release gpu_options online members [] pools = Some (None, pools)
    \<or> (\<exists>ms pools'. place_members try_reserve release gpu_options online members [] pools = Some (Some ([] @ ms), pools')
         \<and> length ms = length members \<and> (\<forall>m \<in> set ms. fst m < length pools \<and> online ! fst m)
         \<and> pool_reservable.all_hold pools' (fold pool_reservable.give ([] @ ms) H)
         \<and> map (\<lambda>p. (total p, blocked p)) pools' = map (\<lambda>p. (total p, blocked p)) pools)"
    using all online by (intro pool_reservable.place_members_result [OF all]) auto
  then show ?thesis
  proof (elim disjE exE conjE)
    fix ms pools'
    assume a: "place_members try_reserve release gpu_options online members [] pools = Some (Some ([] @ ms), pools')"
      "length ms = length members" "\<forall>m \<in> set ms. fst m < length pools \<and> online ! fst m"
      "pool_reservable.all_hold pools' (fold pool_reservable.give ([] @ ms) H)"
      and f: "map (\<lambda>p. (total p, blocked p)) pools' = map (\<lambda>p. (total p, blocked p)) pools"
    have len: "length pools' = length pools" using f by (metis length_map)
    have "total (pools' ! i) = total (pools ! i) \<and> blocked (pools' ! i) = blocked (pools ! i)"
      if "i < length pools" for i
      using that len arg_cong [OF f, of "\<lambda>xs. xs ! i"] by simp
    then show ?thesis using a len
      by (intro disjI2 exI [of _ ms] exI [of _ pools'])
        (auto simp: place_def pool_reservable.all_hold_def fold_give_held)
  qed (simp add: place_def)
qed

text \<open>
  C16: Placement is all or nothing and returns, for pools in order and an online flag per node.
  Either every member got an allocation, each on an online node and each entered in that node's
  ledger beside what was held before, or no pool has changed.
\<close>

theorem place_all_or_nothing:
  assumes L: "\<forall>i < length pools. ledger (pools ! i) (H i)" and online: "length online = length pools"
  shows "place pools online members = Some (None, pools)
    \<or> (\<exists>placed pools'. place pools online members = Some (Some placed, pools')
         \<and> length placed = length members \<and> length pools' = length pools
         \<and> (\<forall>m \<in> set placed. fst m < length pools \<and> online ! fst m)
         \<and> (\<forall>i < length pools. ledger (pools' ! i) (H i + mset (map snd (filter (\<lambda>m. fst m = i) placed)))
              \<and> total (pools' ! i) = total (pools ! i) \<and> blocked (pools' ! i) = blocked (pools ! i)))"
  using place_result [OF L online] .

theorem place_all_or_nothing_witness:
  "\<exists>placed pools'. place [pool_new demo_resources] [True] [demo_spec, demo_spec] = Some (Some placed, pools')
     \<and> length placed = 2"
proof -
  have "place [pool_new demo_resources] [True] [demo_spec, demo_spec] \<noteq> Some (None, [pool_new demo_resources])"
    by code_simp
  then show ?thesis
    using place_all_or_nothing [of "[pool_new demo_resources]" "\<lambda>_. {#}" "[True]" "[demo_spec, demo_spec]"]
      ledger_new [OF demo_dense] by auto
qed

text \<open>
  A single job goes to the earliest of its options, hence with the fewest cards, that any
  online node admits, and to the first online node that admits this option. It is refused
  exactly when no online node admits any option.
\<close>

theorem place_one_first_fit:
  assumes L: "\<forall>i < length pools. ledger (pools ! i) (H i)" and online: "length online = length pools"
  shows "(fst (the (place pools online [spec])) = None \<longleftrightarrow>
           (\<forall>s \<in> set (gpu_options spec). \<forall>i < length pools. online ! i \<longrightarrow> can_admit (pools ! i) s = Some False))
    \<and> (\<forall>placed. fst (the (place pools online [spec])) = Some placed \<longrightarrow>
         (\<exists>before s after node alloc. gpu_options spec = before @ s # after \<and> placed = [(node, alloc)]
           \<and> node < length pools \<and> online ! node \<and> can_admit (pools ! node) s = Some True
           \<and> alloc = granted (pools ! node) s
           \<and> (\<forall>j < node. online ! j \<longrightarrow> can_admit (pools ! j) s = Some False)
           \<and> (\<forall>s' \<in> set before. \<forall>j < length pools. online ! j \<longrightarrow> can_admit (pools ! j) s' = Some False)))"
proof -
  have refuse: "try_reserve s (pools ! i) = Some (None, pools ! i) \<longleftrightarrow> can_admit (pools ! i) s = Some False"
    and grant: "try_reserve s (pools ! i) = Some (Some a, p') \<Longrightarrow> can_admit (pools ! i) s = Some True \<and> a = granted (pools ! i) s"
    if "i < length pools" for i s a p'
    using that L try_reserve_refused_iff try_reserve_granted by blast+
  have all: "pool_reservable.all_hold pools H" using L by (simp add: pool_reservable.all_hold_def)
  have le: "length pools \<le> length online" using online by simp
  from pool_reservable.try_options_result [OF all le, of "gpu_options spec"] show ?thesis
  proof (elim disjE exE conjE)
    assume "try_options try_reserve (gpu_options spec) online pools = Some (None, pools)"
      "\<forall>s \<in> set (gpu_options spec). \<forall>k < length pools. online ! k \<longrightarrow> try_reserve s (pools ! k) = Some (None, pools ! k)"
    then show ?thesis using refuse by (simp add: place_def)
  next
    fix before s after k a p'
    assume r: "gpu_options spec = before @ s # after" "k < length pools" "online ! k"
      "try_reserve s (pools ! k) = Some (Some a, p')"
      "try_options try_reserve (gpu_options spec) online pools = Some (Some (k, a), pools[k := p'])"
      "\<forall>j < k. online ! j \<longrightarrow> try_reserve s (pools ! j) = Some (None, pools ! j)"
      "\<forall>s' \<in> set before. \<forall>j < length pools. online ! j \<longrightarrow> try_reserve s' (pools ! j) = Some (None, pools ! j)"
    have adm: "can_admit (pools ! k) s = Some True" "a = granted (pools ! k) s" using grant [OF r(2,4)] by auto
    have first: "\<forall>j < k. online ! j \<longrightarrow> can_admit (pools ! j) s = Some False" using r(2,6) refuse by simp
    have earlier: "\<forall>s' \<in> set before. \<forall>j < length pools. online ! j \<longrightarrow> can_admit (pools ! j) s' = Some False"
      using r(7) refuse by simp
    have "fst (the (place pools online [spec])) = Some [(k, a)]" using r(5) by (simp add: place_def)
    moreover have "\<not> (\<forall>s \<in> set (gpu_options spec). \<forall>i < length pools. online ! i \<longrightarrow> can_admit (pools ! i) s = Some False)"
      using r(1-3) adm by auto
    ultimately show ?thesis using r(1-3) adm first earlier by auto
  qed
qed

theorem place_one_first_fit_witness:
  "fst (the (place [pool_new demo_resources] [True] [demo_spec])) = None \<longleftrightarrow>
     list_all (\<lambda>s. can_admit (pool_new demo_resources) s = Some False) (gpu_options demo_spec)"
  using place_one_first_fit [of "[pool_new demo_resources]" "\<lambda>_. {#}" "[True]" demo_spec]
    ledger_new [OF demo_dense] by (auto simp: list_all_iff)

end
