(* ===== verification/Quarantine.thy ===== *)
theory Quarantine
  imports Resource_Pool
begin

text \<open>
  Cards taken out of service (src/src/resource/quarantine.rs): the two maps of a node, kept by
  card identity, and the file the quarantines are saved to. The text format is serde's, not the
  program's: printing and reading it are the parameters \<open>to_json\<close> and \<open>from_json\<close>, and the text
  is a value of the type \<open>'t\<close>. The wall clock
  is the argument \<open>now\<close>.
\<close>

record quarantine =
  qn_reason :: string
  qn_since :: datetime

datatype card_event = Xid u64 | PagesPendingRetirement | TestFailed string | Cleared

definition HARDWARE_XIDS :: "u64 list" where
  "HARDWARE_XIDS = [48, 63, 64, 74, 79, 92, 94, 95, 119, 120]"

text \<open>The reason an event gives for a quarantine: \<open>None\<close> where \<open>apply\<close> returns the current state.\<close>

definition card_event_apply :: "datetime \<Rightarrow> card_event \<Rightarrow> quarantine option \<Rightarrow> quarantine option" where
  "card_event_apply now event current =
     (let start = (\<lambda>reason. case current of Some q \<Rightarrow> Some q
                               | None \<Rightarrow> Some \<lparr>qn_reason = reason, qn_since = now\<rparr>) in
      case event of
        Cleared \<Rightarrow> None
      | Xid code \<Rightarrow> if code \<in> set HARDWARE_XIDS then start (''Xid '' @ dec (unat code)) else current
      | PagesPendingRetirement \<Rightarrow> start ''memory pages pending retirement''
      | TestFailed reason \<Rightarrow> start (''qualification failed: '' @ reason))"

definition card_key :: "gpu_info \<Rightarrow> string" where
  "card_key gpu = (if gi_uuid gpu = [] then ''index-'' @ dec (unat (gi_index gpu)) else gi_uuid gpu)"

type_synonym card_map = "(string \<times> quarantine) list"

text \<open>The file and its temporary beside it; a write that fails part way leaves part of the text.\<close>

record 't quarantine_file =
  qf_main :: "'t option"
  qf_temp :: "'t option"

datatype 't save_outcome = DirFailed | WriteFailed "'t option" | RenameFailed | SaveOk

record 't quarantines =
  q_cards :: card_map
  q_tested :: "(string \<times> datetime) list"
  q_file :: "'t quarantine_file"

definition quarantines_load :: "('t \<Rightarrow> card_map option) \<Rightarrow> 't quarantine_file \<Rightarrow> 't quarantines" where
  "quarantines_load from_json file =
     \<lparr>q_cards = (case qf_main file of
                   Some json \<Rightarrow> (case from_json json of Some cards \<Rightarrow> cards | None \<Rightarrow> [])
                 | None \<Rightarrow> []),
      q_tested = [], q_file = file\<rparr>"

definition quarantines_save :: "(card_map \<Rightarrow> 't) \<Rightarrow> 't save_outcome \<Rightarrow> card_map \<Rightarrow> 't quarantine_file \<Rightarrow> 't quarantine_file" where
  "quarantines_save to_json outcome cards file =
     (case outcome of
        DirFailed \<Rightarrow> file
      | WriteFailed part \<Rightarrow> file\<lparr>qf_temp := part\<rparr>
      | RenameFailed \<Rightarrow> file\<lparr>qf_temp := Some (to_json cards)\<rparr>
      | SaveOk \<Rightarrow> \<lparr>qf_main = Some (to_json cards), qf_temp = None\<rparr>)"

definition quarantines_handle ::
    "(card_map \<Rightarrow> 't) \<Rightarrow> 't save_outcome \<Rightarrow> datetime \<Rightarrow> gpu_info \<Rightarrow> card_event \<Rightarrow> 't quarantines \<Rightarrow> 't quarantines" where
  "quarantines_handle to_json outcome now gpu event q =
     (let before = hm_get (q_cards q) (card_key gpu);
          after = card_event_apply now event before in
      if after = before then q
      else case after of
        Some quarantine \<Rightarrow>
          (let cards = hm_insert (card_key gpu) quarantine (q_cards q) in
           q\<lparr>q_cards := cards, q_tested := hm_remove (card_key gpu) (q_tested q),
             q_file := quarantines_save to_json outcome cards (q_file q)\<rparr>)
      | None \<Rightarrow>
          (let cards = hm_remove (card_key gpu) (q_cards q) in
           q\<lparr>q_cards := cards, q_file := quarantines_save to_json outcome cards (q_file q)\<rparr>))"

definition quarantines_get :: "'t quarantines \<Rightarrow> gpu_info \<Rightarrow> quarantine option" where
  "quarantines_get q gpu = hm_get (q_cards q) (card_key gpu)"

definition record_test :: "(card_map \<Rightarrow> 't) \<Rightarrow> 't save_outcome \<Rightarrow> datetime \<Rightarrow> gpu_info \<Rightarrow> bool \<Rightarrow> string \<Rightarrow> 't quarantines \<Rightarrow> 't quarantines" where
  "record_test to_json outcome now gpu passed reason q =
     (let q' = quarantines_handle to_json outcome now gpu (if passed then Cleared else TestFailed reason) q in
      q'\<lparr>q_tested := hm_insert (card_key gpu) now (q_tested q')\<rparr>)"

definition tested_at :: "'t quarantines \<Rightarrow> gpu_info \<Rightarrow> datetime option" where
  "tested_at q gpu = hm_get (q_tested q) (card_key gpu)"

section \<open>Facts\<close>

text \<open>An event that puts a card out of service.\<close>

definition is_fault :: "card_event \<Rightarrow> bool" where
  "is_fault event = (case event of Xid code \<Rightarrow> code \<in> set HARDWARE_XIDS | Cleared \<Rightarrow> False | _ \<Rightarrow> True)"

lemma card_event_apply_fault:
  "is_fault event \<Longrightarrow> card_event_apply now event current \<noteq> None
     \<and> (current \<noteq> None \<longrightarrow> card_event_apply now event current = current)"
  by (cases event) (auto simp: card_event_apply_def is_fault_def split: option.splits)

lemma card_event_apply_harmless:
  "\<not> is_fault event \<Longrightarrow> event \<noteq> Cleared \<Longrightarrow> card_event_apply now event current = current"
  by (cases event) (auto simp: card_event_apply_def is_fault_def)

lemma card_event_apply_cleared [simp]: "card_event_apply now Cleared current = None"
  by (simp add: card_event_apply_def)

lemma handle_get:
  "hm_get (q_cards (quarantines_handle to_json out now gpu event q)) k =
     (if k = card_key gpu then card_event_apply now event (hm_get (q_cards q) k) else hm_get (q_cards q) k)"
  by (auto simp: quarantines_handle_def Let_def hm_get_insert hm_get_remove split: option.splits)

lemma handle_tested:
  "hm_get (q_tested (quarantines_handle to_json out now gpu event q)) k =
     (if k = card_key gpu \<and> hm_get (q_cards q) k = None \<and> is_fault event then None else hm_get (q_tested q) k)"
proof (cases "is_fault event")
  case True
  then show ?thesis using card_event_apply_fault [OF True, of now "hm_get (q_cards q) (card_key gpu)"]
    by (auto simp: quarantines_handle_def Let_def hm_get_remove split: option.splits)
next
  case False
  then show ?thesis using card_event_apply_harmless [OF False, of now "hm_get (q_cards q) (card_key gpu)"]
    by (cases "event = Cleared") (auto simp: quarantines_handle_def Let_def split: option.splits)
qed

lemma handle_wf: "hm_wf (q_cards q) \<Longrightarrow> hm_wf (q_cards (quarantines_handle to_json out now gpu event q))"
  by (auto simp: quarantines_handle_def Let_def hm_wf_insert hm_wf_remove split: option.splits)

lemma save_main: "qf_main (quarantines_save to_json out cards file) \<in> {qf_main file, Some (to_json cards)}"
  by (cases out) (auto simp: quarantines_save_def)

text \<open>A history of events, each with its time, its card and how the save went.\<close>

type_synonym 't card_history = "('t save_outcome \<times> datetime \<times> gpu_info \<times> card_event) list"

fun replay :: "(card_map \<Rightarrow> 't) \<Rightarrow> 't card_history \<Rightarrow> 't quarantines \<Rightarrow> 't quarantines" where
  "replay to_json [] q = q"
| "replay to_json ((out, now, gpu, event) # es) q = replay to_json es (quarantines_handle to_json out now gpu event q)"

text \<open>The specification: the first fault since the card was last cleared.\<close>

fun first_fault :: "gpu_info \<Rightarrow> 't card_history \<Rightarrow> quarantine option \<Rightarrow> quarantine option" where
  "first_fault gpu [] current = current"
| "first_fault gpu ((out, now, g, event) # es) current =
     first_fault gpu es (if card_key g \<noteq> card_key gpu then current
                         else if event = Cleared then None
                         else if is_fault event \<and> current = None then card_event_apply now event None
                         else current)"

lemma apply_cases:
  "card_event_apply now event current =
     (if event = Cleared then None else if is_fault event \<and> current = None then card_event_apply now event None else current)"
  using card_event_apply_fault card_event_apply_harmless by fastforce

lemma replay_get: "quarantines_get (replay to_json es q) gpu = first_fault gpu es (quarantines_get q gpu)"
proof (induction es arbitrary: q)
  case (Cons e es)
  obtain out now g event where e: "e = (out, now, g, event)" by (cases e)
  have "quarantines_get (quarantines_handle to_json out now g event q) gpu =
    (if card_key g \<noteq> card_key gpu then quarantines_get q gpu else card_event_apply now event (quarantines_get q gpu))"
    by (simp add: quarantines_get_def handle_get)
  then show ?case using Cons.IH apply_cases [of now event "quarantines_get q gpu"] by (simp add: e)
qed simp

lemma first_fault_iff:
  "first_fault gpu es current \<noteq> None \<longleftrightarrow>
     (current \<noteq> None \<and> (\<forall>(out, now, g, event) \<in> set es. card_key g = card_key gpu \<longrightarrow> event \<noteq> Cleared))
   \<or> (\<exists>before out now g event after. es = before @ (out, now, g, event) # after \<and> card_key g = card_key gpu \<and> is_fault event
        \<and> (\<forall>(out, now, g, event) \<in> set after. card_key g = card_key gpu \<longrightarrow> event \<noteq> Cleared))"
  (is "_ \<longleftrightarrow> ?kept es current \<or> ?new es")
proof (induction es arbitrary: current)
  case (Cons e es)
  obtain out now g event where e: "e = (out, now, g, event)" by (cases e)
  have new: "?new (e # es) \<longleftrightarrow> (card_key g = card_key gpu \<and> is_fault event \<and> ?kept es (Some undefined)) \<or> ?new es"
    by (auto simp: e Cons_eq_append_conv) (metis append_Nil)+
  show ?case
  proof (cases "card_key g = card_key gpu")
    case same: True
    have clr: "\<not> is_fault Cleared" by (simp add: is_fault_def)
    have flt: "is_fault event \<Longrightarrow> card_event_apply now event None \<noteq> None" using card_event_apply_fault by blast
    show ?thesis unfolding new using Cons.IH same clr flt by (auto simp: e)
  next
    case False
    then show ?thesis unfolding new using Cons.IH by (simp add: e)
  qed
qed simp

text \<open>
  What is relied on of serde: the text of a map reads back as that map, in any order. The file
  then holds what the memory does.
\<close>

definition reads_back :: "('t \<Rightarrow> card_map option) \<Rightarrow> (card_map \<Rightarrow> 't) \<Rightarrow> bool" where
  "reads_back from_json to_json \<longleftrightarrow> (\<forall>m. \<exists>m'. from_json (to_json m) = Some m' \<and> map_of m' = map_of m)"


definition in_sync :: "('t \<Rightarrow> card_map option) \<Rightarrow> 't quarantines \<Rightarrow> bool" where
  "in_sync from_json q \<longleftrightarrow> map_of (q_cards (quarantines_load from_json (q_file q))) = map_of (q_cards q)"

lemma handle_in_sync:
  assumes json: "reads_back from_json to_json"
    and "in_sync from_json q"
  shows "in_sync from_json (quarantines_handle to_json SaveOk now gpu event q)"
proof -
  have saved: "map_of (q_cards (quarantines_load from_json (quarantines_save to_json SaveOk cards f))) = map_of cards"
    for cards and f :: "'a quarantine_file"
    using spec [OF json [unfolded reads_back_def], of cards] by (auto simp: quarantines_load_def quarantines_save_def)
  show ?thesis using assms(2)
    by (auto simp: in_sync_def quarantines_handle_def Let_def saved split: option.split)
qed

lemma replay_in_sync:
  assumes "reads_back from_json to_json"
    and "\<forall>e \<in> set es. fst e = SaveOk" and "in_sync from_json q"
  shows "in_sync from_json (replay to_json es q)"
  using assms(2,3)
proof (induction es arbitrary: q)
  case (Cons e es)
  obtain out now g event where e: "e = (out, now, g, event)" by (cases e)
  then have "in_sync from_json (quarantines_handle to_json out now g event q)"
    using handle_in_sync [OF assms(1)] Cons.prems by simp
  then show ?case using Cons by (simp add: e)
qed simp

section \<open>Properties of quarantines\<close>

text \<open>
  C32: Whatever events reach a node's cards, a card that was in service is quarantined exactly
  when one of its events was a fault of the hardware (a hardware Xid, pages pending retirement, a
  failed test) that no clear followed, and the reason shown is that of the first such fault.
  Other cards' events and Xids caused by a job change nothing.
\<close>

theorem quarantined_iff_uncleared_fault:
  assumes "quarantines_get q gpu = None"
  shows "quarantines_get (replay to_json es q) gpu = first_fault gpu es None
    \<and> (quarantines_get (replay to_json es q) gpu \<noteq> None \<longleftrightarrow>
        (\<exists>before out now g event after. es = before @ (out, now, g, event) # after \<and> card_key g = card_key gpu
           \<and> is_fault event
           \<and> (\<forall>(out, now, g, event) \<in> set after. card_key g = card_key gpu \<longrightarrow> event \<noteq> Cleared)))"
  using replay_get [of to_json es q gpu] first_fault_iff [of gpu es None] assms by simp

definition no_quarantines :: "'t quarantines" where
  "no_quarantines = \<lparr>q_cards = [], q_tested = [], q_file = \<lparr>qf_main = None, qf_temp = None\<rparr>\<rparr>"

theorem quarantined_iff_uncleared_fault_witness:
  "quarantines_get (replay (\<lambda>m. m) [(SaveOk, 1, demo_gpu 0 16000, Xid 79), (SaveOk, 2, demo_gpu 0 16000, Xid 48),
       (SaveOk, 3, demo_gpu 1 16000, Cleared)] no_quarantines) (demo_gpu 0 16000)
     = Some \<lparr>qn_reason = ''Xid 79'', qn_since = 1\<rparr>"
proof -
  have "quarantines_get no_quarantines (demo_gpu 0 16000) = None"
    by (simp add: quarantines_get_def no_quarantines_def)
  moreover have "first_fault (demo_gpu 0 16000) [(SaveOk, 1, demo_gpu 0 16000, Xid 79), (SaveOk, 2, demo_gpu 0 16000, Xid 48),
       (SaveOk, 3, demo_gpu 1 16000, Cleared)] None = Some \<lparr>qn_reason = ''Xid 79'', qn_since = 1\<rparr>"
    by code_simp
  ultimately show ?thesis using quarantined_iff_uncleared_fault by metis
qed

text \<open>
  C33: Quarantines survive a restart. When the text of a saved map reads back as that map and
  the saves went well, loading the file gives every card the quarantine it had in memory. And
  however a save goes wrong, the file holds the old text or all of the new one, never a part.
\<close>

theorem quarantines_survive_restart:
  assumes "reads_back from_json to_json"
    and "\<forall>e \<in> set es. fst e = SaveOk" and "qf_main file = None"
  shows "quarantines_get (quarantines_load from_json (q_file (replay to_json es (quarantines_load from_json file)))) gpu
      = quarantines_get (replay to_json es (quarantines_load from_json file)) gpu
    \<and> qf_main (quarantines_save to_json out cards file') \<in> {qf_main file', Some (to_json cards)}"
proof -
  have "in_sync from_json (quarantines_load from_json file)"
    by (simp add: in_sync_def quarantines_load_def)
  from replay_in_sync [OF assms(1,2) this] show ?thesis
    by (simp add: in_sync_def quarantines_get_def save_main [simplified])
qed

theorem quarantines_survive_restart_witness:
  "quarantines_get (quarantines_load Some (q_file (replay (\<lambda>m. m) [(SaveOk, 1, demo_gpu 0 16000, Xid 48)]
      (quarantines_load Some \<lparr>qf_main = None, qf_temp = None\<rparr>)))) (demo_gpu 0 16000)
   = Some \<lparr>qn_reason = ''Xid 48'', qn_since = 1\<rparr>"
proof -
  have "quarantines_get (replay (\<lambda>m. m) [(SaveOk, 1, demo_gpu 0 16000, Xid 48)]
      (quarantines_load Some \<lparr>qf_main = None, qf_temp = None\<rparr>)) (demo_gpu 0 16000) = Some \<lparr>qn_reason = ''Xid 48'', qn_since = 1\<rparr>"
    by code_simp
  then show ?thesis
    using quarantines_survive_restart [of Some "\<lambda>m. m" "[(SaveOk, 1, demo_gpu 0 16000, Xid 48)]"
        "\<lparr>qf_main = None, qf_temp = None\<rparr>" "demo_gpu 0 16000" SaveOk "[]" "\<lparr>qf_main = None, qf_temp = None\<rparr>"] by (simp add: reads_back_def)
qed

end
