(* ===== verification/Health.thy ===== *)
theory Health
  imports Quarantine
begin

text \<open>
  Live readings of the cards (src/src/resource/health.rs) with the NVML feature. What NVML answers
  is an argument, \<open>None\<close> where a call fails.
\<close>

record gpu_health =
  gh_index :: u32
  temperature_c :: "u32 option"
  power_w :: "u32 option"
  power_limit_w :: "u32 option"
  used_vram_mb :: "u64 option"
  busy_percent :: "u32 option"
  throttled :: "string list"
  processes :: "u32 option"
  process_vram_mb :: "u64 option"
  quarantined :: "string option"
  gh_tested_at :: "datetime option"

definition gpu_health_default :: gpu_health where
  "gpu_health_default = \<lparr>gh_index = 0, temperature_c = None, power_w = None, power_limit_w = None, used_vram_mb = None,
     busy_percent = None, throttled = [], processes = None, process_vram_mb = None, quarantined = None, gh_tested_at = None\<rparr>"

definition BUSY_VRAM_MB :: u64 where "BUSY_VRAM_MB = 1024"

definition unwrap_or :: "'a option \<Rightarrow> 'a \<Rightarrow> 'a" where
  "unwrap_or x d = (case x of Some y \<Rightarrow> y | None \<Rightarrow> d)"

definition busy :: "gpu_health \<Rightarrow> bool" where
  "busy h \<longleftrightarrow> unwrap_or (process_vram_mb h) 0 \<ge> BUSY_VRAM_MB"

definition health_blocked :: "gpu_health \<Rightarrow> bool \<Rightarrow> string option" where
  "health_blocked h unbooked =
     (case quarantined h of
        Some reason \<Rightarrow> Some (''quarantined: '' @ reason)
      | None \<Rightarrow>
          if unbooked \<and> busy h
          then Some (''busy outside roster ('' @ dec (unat (unwrap_or (process_vram_mb h) 0)) @ '' MB)'')
          else if unbooked \<and> throttled h \<noteq> [] then Some (''throttled while idle: '' @ join '', '' (throttled h))
          else if unbooked \<and> gh_tested_at h = None then Some ''not qualified yet''
          else None)"

section \<open>The monitor\<close>

datatype throttle_reason = SW_THERMAL_SLOWDOWN | HW_THERMAL_SLOWDOWN | SW_POWER_CAP | HW_POWER_BRAKE_SLOWDOWN
  | HW_SLOWDOWN | OtherReason nat

definition throttle_names :: "throttle_reason list \<Rightarrow> string list" where
  "throttle_names reasons =
     (if SW_THERMAL_SLOWDOWN \<in> set reasons \<or> HW_THERMAL_SLOWDOWN \<in> set reasons then [''thermal''] else [])
     @ (if SW_POWER_CAP \<in> set reasons \<or> HW_POWER_BRAKE_SLOWDOWN \<in> set reasons then [''power''] else [])
     @ (if HW_SLOWDOWN \<in> set reasons then [''hardware''] else [])"

text \<open>One device's readings; a process whose memory is unavailable is \<open>None\<close> in the list.\<close>

record nvml_readings =
  nr_temperature :: "u32 option"
  nr_power_usage :: "u32 option"
  nr_power_limit :: "u32 option"
  nr_memory_used :: "u64 option"
  nr_utilization :: "u32 option"
  nr_throttle :: "throttle_reason list option"
  nr_processes :: "u64 option list option"
  nr_pages_pending :: "bool option"

text \<open>The outer option is whether NVML opened, the inner whether the device answers.\<close>

type_synonym nvml = "(u32 \<Rightarrow> nvml_readings option) option"

definition used_by :: "u64 option \<Rightarrow> u64" where
  "used_by p = (case p of Some bytes \<Rightarrow> bytes div 1024 div 1024 | None \<Rightarrow> 0)"

definition read_card :: "nvml \<Rightarrow> 't quarantines \<Rightarrow> gpu_info \<Rightarrow> gpu_health" where
  "read_card nvml q gpu =
     (let health = gpu_health_default\<lparr>gh_index := gi_index gpu,
                     quarantined := map_option qn_reason (quarantines_get q gpu),
                     gh_tested_at := tested_at q gpu\<rparr> in
      case Option.bind nvml (\<lambda>device_by_index. device_by_index (gi_index gpu)) of
        None \<Rightarrow> health
      | Some device \<Rightarrow>
          health\<lparr>temperature_c := nr_temperature device,
                 power_w := map_option (\<lambda>mw. mw div 1000) (nr_power_usage device),
                 power_limit_w := map_option (\<lambda>mw. mw div 1000) (nr_power_limit device),
                 used_vram_mb := map_option (\<lambda>u. u div 1024 div 1024) (nr_memory_used device),
                 busy_percent := nr_utilization device,
                 throttled := (case nr_throttle device of Some r \<Rightarrow> throttle_names r | None \<Rightarrow> []),
                 processes := map_option (\<lambda>ps. of_nat (length ps)) (nr_processes device),
                 process_vram_mb := map_option (\<lambda>ps. sum_list (map used_by ps)) (nr_processes device)\<rparr>)"

definition monitor_read :: "nvml \<Rightarrow> 't quarantines \<Rightarrow> gpu_info list \<Rightarrow> gpu_health list" where
  "monitor_read nvml q gs = map (read_card nvml q) gs"

text \<open>
  Opening loads the saved quarantines and, with NVML, quarantines the cards with pages pending
  retirement. Each save has its own outcome and time, taken from the list in order.
\<close>

fun scan_cards :: "(card_map \<Rightarrow> 't) \<Rightarrow> (u32 \<Rightarrow> nvml_readings option) \<Rightarrow> (gpu_info \<Rightarrow> 't save_outcome \<times> datetime)
    \<Rightarrow> gpu_info list \<Rightarrow> 't quarantines \<Rightarrow> 't quarantines" where
  "scan_cards to_json dev env [] q = q"
| "scan_cards to_json dev env (gpu # gs) q =
     scan_cards to_json dev env gs
       (if Option.bind (dev (gi_index gpu)) nr_pages_pending = Some True
        then quarantines_handle to_json (fst (env gpu)) (snd (env gpu)) gpu PagesPendingRetirement q else q)"

definition monitor_open :: "('t \<Rightarrow> card_map option) \<Rightarrow> (card_map \<Rightarrow> 't) \<Rightarrow> nvml \<Rightarrow> (gpu_info \<Rightarrow> 't save_outcome \<times> datetime)
    \<Rightarrow> 't quarantine_file \<Rightarrow> gpu_info list \<Rightarrow> 't quarantines" where
  "monitor_open from_json to_json nvml env file gs =
     (let q = quarantines_load from_json file in
      case nvml of None \<Rightarrow> q | Some dev \<Rightarrow> scan_cards to_json dev env gs q)"

definition monitor_clear :: "(card_map \<Rightarrow> 't) \<Rightarrow> 't save_outcome \<Rightarrow> datetime \<Rightarrow> gpu_info \<Rightarrow> 't quarantines \<Rightarrow> 't quarantines" where
  "monitor_clear to_json out now gpu q = quarantines_handle to_json out now gpu Cleared q"

text \<open>
  The Xid thread: which cards it registers, \<open>None\<close> when it gives up, and its loop over what the
  waits return. \<open>ecc\<close> answers whether a device supports the event, \<open>reg\<close> whether registering worked.
\<close>

fun watch_cards :: "(u32 \<Rightarrow> nvml_readings option) \<Rightarrow> (u32 \<Rightarrow> bool) \<Rightarrow> (u32 \<Rightarrow> bool) \<Rightarrow> gpu_info list \<Rightarrow> gpu_info list option" where
  "watch_cards dev supported reg [] = Some []"
| "watch_cards dev supported reg (gpu # gs) =
     (if dev (gi_index gpu) = None then watch_cards dev supported reg gs
      else if \<not> supported (gi_index gpu) then watch_cards dev supported reg gs
      else if \<not> reg (gi_index gpu) then None
      else map_option ((#) gpu) (watch_cards dev supported reg gs))"

datatype 't wait_result = WaitEvent "u64 option" "string option" "'t save_outcome" datetime | WaitTimeout | WaitError

fun listen_for_xids :: "(card_map \<Rightarrow> 't) \<Rightarrow> gpu_info list \<Rightarrow> 't wait_result list \<Rightarrow> 't quarantines \<Rightarrow> 't quarantines" where
  "listen_for_xids to_json watched [] q = q"
| "listen_for_xids to_json watched (WaitError # rs) q = q"
| "listen_for_xids to_json watched (WaitTimeout # rs) q = listen_for_xids to_json watched rs q"
| "listen_for_xids to_json watched (WaitEvent xid uuid out now # rs) q =
     listen_for_xids to_json watched rs
       (case xid of None \<Rightarrow> q
        | Some code \<Rightarrow> (case find (\<lambda>gpu. gi_uuid gpu = unwrap_or uuid []) watched of
            None \<Rightarrow> q
          | Some gpu \<Rightarrow> quarantines_handle to_json out now gpu (Xid code) q))"

text \<open>The readings appended to a card's line by \<open>roster info\<close>.\<close>

definition health_display :: "gpu_health \<Rightarrow> string" where
  "health_display h =
     (case temperature_c h of Some t \<Rightarrow> '', '' @ dec (unat t) @ '' C'' | None \<Rightarrow> [])
     @ (case (power_w h, power_limit_w h) of
          (Some p, Some l) \<Rightarrow> '', '' @ dec (unat p) @ ''/'' @ dec (unat l) @ '' W''
        | (Some p, None) \<Rightarrow> '', '' @ dec (unat p) @ '' W''
        | _ \<Rightarrow> [])
     @ (case busy_percent h of Some b \<Rightarrow> '', '' @ dec (unat b) @ ''% busy'' | None \<Rightarrow> [])
     @ (case used_vram_mb h of Some u \<Rightarrow> '', '' @ dec (unat u) @ '' MB used'' | None \<Rightarrow> [])
     @ (if throttled h \<noteq> [] then '', throttled: '' @ join '', '' (throttled h) else [])
     @ (let vram = dec (unat (unwrap_or (process_vram_mb h) 0)) in
        case processes h of
          Some n \<Rightarrow> if n = 1 then '', 1 process ('' @ vram @ '' MB)''
                    else if n > 1 then '', '' @ dec (unat n) @ '' processes ('' @ vram @ '' MB)'' else []
        | None \<Rightarrow> [])"

section \<open>Facts\<close>

lemma read_card_simps [simp]:
  "gh_index (read_card nvml q gpu) = gi_index gpu"
  "quarantined (read_card nvml q gpu) = map_option qn_reason (quarantines_get q gpu)"
  "gh_tested_at (read_card nvml q gpu) = tested_at q gpu"
  by (simp_all add: read_card_def Let_def gpu_health_default_def split: option.split)

lemma health_blocked_none_iff:
  "health_blocked h unbooked = None \<longleftrightarrow>
     quarantined h = None \<and> (unbooked \<longrightarrow> \<not> busy h \<and> throttled h = [] \<and> gh_tested_at h \<noteq> None)"
  by (auto simp: health_blocked_def split: option.split)

text \<open>Listening and scanning are histories of card events, so what is known of histories holds of them.\<close>

lemma replay_append: "replay to_json (es @ es') q = replay to_json es' (replay to_json es q)"
  by (induction es arbitrary: q) auto

lemma scan_cards_replay:
  "scan_cards to_json dev env gs q =
     replay to_json (map (\<lambda>gpu. (fst (env gpu), snd (env gpu), gpu, PagesPendingRetirement))
       (filter (\<lambda>gpu. Option.bind (dev (gi_index gpu)) nr_pages_pending = Some True) gs)) q"
  by (induction gs arbitrary: q) simp_all

fun xid_history :: "gpu_info list \<Rightarrow> 't wait_result list \<Rightarrow> 't card_history" where
  "xid_history watched [] = []"
| "xid_history watched (WaitError # rs) = []"
| "xid_history watched (WaitTimeout # rs) = xid_history watched rs"
| "xid_history watched (WaitEvent xid uuid out now # rs) =
     (case xid of None \<Rightarrow> []
      | Some code \<Rightarrow> (case find (\<lambda>gpu. gi_uuid gpu = unwrap_or uuid []) watched of
          None \<Rightarrow> [] | Some gpu \<Rightarrow> [(out, now, gpu, Xid code)])) @ xid_history watched rs"

lemma listen_replay: "listen_for_xids to_json watched rs q = replay to_json (xid_history watched rs) q"
  by (induction watched rs arbitrary: q rule: xid_history.induct) (auto split: option.split)

lemma xid_history_no_clear: "(out, now, g, event) \<in> set (xid_history watched rs) \<Longrightarrow> event \<noteq> Cleared"
  by (induction watched rs rule: xid_history.induct) (auto split: option.splits)

lemma read_card_quarantined: "quarantines_get q gpu \<noteq> None \<Longrightarrow> health_blocked (read_card nvml q gpu) unbooked \<noteq> None"
  unfolding health_blocked_none_iff by simp

section \<open>Properties of the readings\<close>

text \<open>
  A card may be handed out exactly when nothing speaks against it: it is not quarantined
  and, while no job holds it, no outside process holds 1 GB of it, its clocks are not held
  down, and it has passed a test since the daemon started. A card without a test since the
  start, or with a quarantine, is kept from new jobs whatever NVML reads.
\<close>

theorem card_handed_out_iff:
  "(health_blocked h unbooked = None \<longleftrightarrow>
      quarantined h = None
      \<and> (unbooked \<longrightarrow> unwrap_or (process_vram_mb h) 0 < 1024 \<and> throttled h = [] \<and> gh_tested_at h \<noteq> None))
   \<and> (quarantines_get q gpu \<noteq> None \<or> tested_at q gpu = None \<longrightarrow> health_blocked (read_card nvml q gpu) True \<noteq> None)"
  using health_blocked_none_iff [of "read_card nvml q gpu" True]
  by (auto simp: health_blocked_none_iff busy_def BUSY_VRAM_MB_def)

theorem card_handed_out_iff_witness:
  "health_blocked (read_card None (no_quarantines :: string quarantines) (demo_gpu 0 16000)) True \<noteq> None"
  using card_handed_out_iff [of gpu_health_default True "no_quarantines :: string quarantines" "demo_gpu 0 16000" None]
  by (simp add: tested_at_def no_quarantines_def)

text \<open>
  A hardware Xid that NVML reports for a watched card, before the listening ends, takes the
  card out of service: whatever follows on the Xid thread, the card's reading is blocked, booked
  or not, until the card is cleared by other means.
\<close>

theorem hardware_xid_blocks_card:
  assumes "rs = before @ WaitEvent (Some code) (Some uuid) out now # after"
    and "WaitError \<notin> set before" and "code \<in> set HARDWARE_XIDS"
    and "find (\<lambda>gpu. gi_uuid gpu = uuid) watched = Some gpu"
  shows "health_blocked (read_card nvml (listen_for_xids to_json watched rs q) gpu) unbooked \<noteq> None"
proof -
  have "WaitError \<notin> set before \<Longrightarrow> xid_history watched (before @ rest) = xid_history watched before @ xid_history watched rest" for rest
    by (induction watched before rule: xid_history.induct) auto
  then have h: "xid_history watched rs = xid_history watched before @ (out, now, gpu, Xid code) # xid_history watched after"
    using assms by (simp add: unwrap_or_def)
  have fault: "is_fault (Xid code)" using assms(3) by (simp add: is_fault_def)
  have "\<forall>(out, now, g, event) \<in> set (xid_history watched after). card_key g = card_key gpu \<longrightarrow> event \<noteq> Cleared"
    using xid_history_no_clear by fastforce
  then have "first_fault gpu (xid_history watched rs) (quarantines_get q gpu) \<noteq> None"
    unfolding first_fault_iff h using fault by blast
  then have "quarantines_get (listen_for_xids to_json watched rs q) gpu \<noteq> None"
    by (simp add: listen_replay replay_get)
  then show ?thesis by (rule read_card_quarantined)
qed

theorem hardware_xid_blocks_card_witness:
  "health_blocked (read_card None (listen_for_xids (\<lambda>m. m) [demo_gpu 0 16000]
     [WaitTimeout, WaitEvent (Some 79) (Some []) SaveOk 5, WaitError] no_quarantines) (demo_gpu 0 16000)) False \<noteq> None"
  by (rule hardware_xid_blocks_card [where before = "[WaitTimeout]" and code = 79 and uuid = "[]" and out = SaveOk
        and now = 5 and after = "[WaitError]"]) (simp_all add: HARDWARE_XIDS_def demo_gpu_def)

end
