(* ===== verification/Protocol.thy ===== *)
theory Protocol
  imports Job_Model Health
begin

text \<open>
  The messages of the daemon (src/src/ipc/protocol.rs). Their JSON form is serde's.
\<close>

datatype request =
    Ping
  | Submit (rq_spec_yaml: string)
  | Ps
  | Status string
  | Logs string string
  | Cancel string
  | Info
  | Nodes
  | ClearGpu "string option" u32
  | GpuQualified u32 bool string
  | Launch string job_spec allocation
  | Poll string string
  | Kill string string
  | LogTail string string u64

record node_info =
  ni_version :: string
  ni_pid :: u32
  ni_socket :: string
  ni_running_jobs :: nat
  ni_jobs_survive_restart :: bool
  ni_resources :: system_resources
  ni_gpu_health :: "gpu_health list"

record node_status =
  ns_name :: string
  ns_ssh :: "string option"
  ns_online :: bool
  ns_state :: string
  ns_since :: datetime
  ns_running_jobs :: nat
  ns_total :: system_resources
  ns_free_cpu :: u32
  ns_free_memory_mb :: u64
  ns_free_vram_mb :: "u64 list"
  ns_gpu_health :: "gpu_health list"

record run_summary =
  rs_run_id :: string
  rs_workflow_name :: string
  rs_status :: string

record job_detail =
  jd_job_id :: string
  jd_state :: string
  jd_exit_code :: "int option"
  jd_started_at :: "string option"
  jd_ended_at :: "string option"
  jd_log_path :: "string option"
  jd_reason :: "string option"

record run_detail =
  rd_run_id :: string
  rd_workflow_name :: string
  rd_status :: string
  rd_created_at :: string
  rd_jobs :: "job_detail list"

datatype response =
    Pong
  | Submitted string
  | PsResult "run_summary list"
  | StatusResult run_detail
  | Log string
  | CancelledReply string
  | ErrorReply string
  | InfoReply node_info
  | NodesReply "node_status list"
  | GpuCleared
  | Recorded
  | Launched u32
  | RejectedReply string
  | Polled "i32 option"
  | Killed

end
