(* ===== verification/Paths.thy ===== *)
theory Paths
  imports Prelude
begin

text \<open>
  The files of the daemon (src/src/paths.rs). The environment variables are arguments; \<open>None\<close> is
  the panic of \<open>expect("HOME not set")\<close>.
\<close>

text \<open>\<open>PathBuf::join\<close>: an absolute second part replaces the first.\<close>

definition path_join :: "string \<Rightarrow> string \<Rightarrow> string" where
  "path_join a b =
     (if b \<noteq> [] \<and> hd b = CHR ''/'' then b
      else if a = [] \<or> last a = CHR ''/'' then a @ b
      else a @ ''/'' @ b)"

text \<open>The last component, what precedes it, and the parent.\<close>

definition path_dir :: "string \<Rightarrow> string" where
  "path_dir p = rev (dropWhile (\<lambda>c. c \<noteq> CHR ''/'') (rev p))"

definition path_file_name :: "string \<Rightarrow> string" where
  "path_file_name p = rev (takeWhile (\<lambda>c. c \<noteq> CHR ''/'') (rev p))"

definition path_parent :: "string \<Rightarrow> string" where
  "path_parent p = (let d = path_dir p in if length d \<le> 1 then d else butlast d)"

record environment =
  env_home :: "string option"
  env_xdg_runtime_dir :: "string option"

definition runtime_dir :: "environment \<Rightarrow> string option" where
  "runtime_dir env =
     (case env_xdg_runtime_dir env of
        Some dir \<Rightarrow> Some dir
      | None \<Rightarrow> map_option (\<lambda>home. path_join (path_join home ''.local'') ''run'') (env_home env))"

definition socket_path :: "environment \<Rightarrow> string option" where
  "socket_path env = map_option (\<lambda>d. path_join d ''roster.socket'') (runtime_dir env)"

definition pid_path :: "environment \<Rightarrow> string option" where
  "pid_path env = map_option (\<lambda>d. path_join d ''roster.pid'') (runtime_dir env)"

definition in_home :: "environment \<Rightarrow> string list \<Rightarrow> string option" where
  "in_home env parts = map_option (\<lambda>home. foldl path_join home parts) (env_home env)"

definition db_path :: "environment \<Rightarrow> string option" where
  "db_path env = in_home env [''.local'', ''share'', ''roster'', ''roster.db'']"

definition daemon_log_path :: "environment \<Rightarrow> string option" where
  "daemon_log_path env = in_home env [''.local'', ''share'', ''roster'', ''daemon.log'']"

definition job_log_relpath :: "string \<Rightarrow> string \<Rightarrow> string" where
  "job_log_relpath run_id job_id =
     foldl path_join ''.local'' [''share'', ''roster'', ''runs'', run_id, job_id @ ''.log'']"

definition job_log_path :: "environment \<Rightarrow> string \<Rightarrow> string \<Rightarrow> string option" where
  "job_log_path env run_id job_id = in_home env [job_log_relpath run_id job_id]"

definition nodes_path :: "environment \<Rightarrow> string option" where
  "nodes_path env = in_home env [''.config'', ''roster'', ''nodes.yaml'']"

definition quarantine_path :: "environment \<Rightarrow> string option" where
  "quarantine_path env = in_home env [''.local'', ''share'', ''roster'', ''quarantine.json'']"

definition unit_path :: "environment \<Rightarrow> string option" where
  "unit_path env = in_home env [''.config'', ''systemd'', ''user'', ''roster.service'']"

definition node_socket_path :: "environment \<Rightarrow> string \<Rightarrow> string option" where
  "node_socket_path env name =
     map_option (\<lambda>d. path_join (path_join d ''roster-nodes'') (name @ ''.socket'')) (runtime_dir env)"

section \<open>Facts\<close>

lemma path_join_relative: "b = [] \<or> hd b \<noteq> CHR ''/'' \<Longrightarrow> \<exists>sep. path_join a b = a @ sep @ b"
  by (cases "a = [] \<or> last a = CHR ''/''")
    (auto simp: path_join_def intro: exI [of _ "[]"] exI [of _ "''/''"])

lemma job_log_relpath_plain:
  assumes "run_id \<noteq> []" "hd run_id \<noteq> CHR ''/''" "last run_id \<noteq> CHR ''/''" "hd (job_id @ ''.log'') \<noteq> CHR ''/''"
  shows "job_log_relpath run_id job_id = ''.local/share/roster/runs/'' @ run_id @ ''/'' @ job_id @ ''.log''"
  using assms by (simp add: job_log_relpath_def path_join_def)

lemma append_sep_inject:
  assumes "a @ x # b = a' @ x # b'" "x \<notin> set a" "x \<notin> set a'"
  shows "a = a' \<and> b = b'"
  using assms
proof (induction a arbitrary: a')
  case Nil
  then show ?case by (cases a') auto
next
  case (Cons c a)
  then show ?case by (cases a') auto
qed

text \<open>Ids without a slash give every job of every run a log of its own.\<close>

definition plain_id :: "string \<Rightarrow> bool" where
  "plain_id s \<longleftrightarrow> s \<noteq> [] \<and> CHR ''/'' \<notin> set s"

lemma plain_relpath:
  assumes "plain_id run_id" "plain_id job_id"
  shows "job_log_relpath run_id job_id = ''.local/share/roster/runs/'' @ run_id @ ''/'' @ job_id @ ''.log''"
  using assms by (intro job_log_relpath_plain) (auto simp: plain_id_def dest: hd_in_set last_in_set)

lemma job_log_relpath_inject:
  assumes "plain_id r" "plain_id j" "plain_id r'" "plain_id j'" "job_log_relpath r j = job_log_relpath r' j'"
  shows "r = r' \<and> j = j'"
proof -
  have "r @ CHR ''/'' # (j @ ''.log'') = r' @ CHR ''/'' # (j' @ ''.log'')"
    using assms by (simp add: plain_relpath)
  then have "r = r'" "j @ ''.log'' = j' @ ''.log''"
    using append_sep_inject assms by (metis plain_id_def)+
  then show ?thesis by simp
qed

end
