(* ===== verification/Node.thy ===== *)
theory Node
  imports Protocol Paths
begin

text \<open>
  The controller's nodes (src/src/node.rs): the list in nodes.yaml, the state of a node as its
  tunnel reports it, and opening the nodes. The YAML text is serde's; ssh, the sockets and the
  clock are arguments. The crate's own version is the argument \<open>version\<close>.
\<close>

record node_config =
  nc_name :: string
  nc_ssh :: "string option"
  nc_socket :: "string option"

text \<open>A node of the scheduler, without its executor; \<open>nd_online\<close> is the shared flag.\<close>

datatype node_state = Online | TunnelDown string | DaemonDown | NoReply | VersionMismatch string

definition state_is_online :: "node_state \<Rightarrow> bool" where
  "state_is_online s \<longleftrightarrow> s = Online"

definition node_state_display :: "node_state \<Rightarrow> string" where
  "node_state_display s =
     (case s of
        Online \<Rightarrow> ''online''
      | TunnelDown reason \<Rightarrow> ''ssh tunnel down: '' @ reason
      | DaemonDown \<Rightarrow> ''node reachable, roster daemon not running''
      | NoReply \<Rightarrow> ''no reply in 3 s (network stalled or daemon hung)''
      | VersionMismatch reason \<Rightarrow> ''version mismatch: '' @ reason)"

record health =
  hl_state :: node_state
  hl_since :: datetime
  hl_info :: "node_info option"

record node =
  nd_name :: string
  nd_ssh :: "string option"
  nd_socket :: "string option"
  nd_online :: bool
  nd_health :: health

text \<open>\<open>std::mem::discriminant\<close>.\<close>

definition discriminant :: "node_state \<Rightarrow> nat" where
  "discriminant s = (case s of Online \<Rightarrow> 0 | TunnelDown _ \<Rightarrow> 1 | DaemonDown \<Rightarrow> 2 | NoReply \<Rightarrow> 3 | VersionMismatch _ \<Rightarrow> 4)"

definition health_enter :: "datetime \<Rightarrow> node_state \<Rightarrow> node_info option \<Rightarrow> health \<Rightarrow> bool \<times> health" where
  "health_enter now state info h =
     (let h1 = (if info \<noteq> None then h\<lparr>hl_info := info\<rparr> else h);
          changed = (discriminant (hl_state h1) \<noteq> discriminant state);
          h2 = (if changed then h1\<lparr>hl_since := now\<rparr> else h1)
      in (changed, h2\<lparr>hl_state := state\<rparr>))"

definition local_config :: node_config where
  "local_config = \<lparr>nc_name = ''local'', nc_ssh = None, nc_socket = None\<rparr>"

section \<open>nodes.yaml\<close>

text \<open>What reading the file gives: no file, an I/O error, or a text that parses or not.\<close>

datatype file_read = NotFound | ReadError string | FileText "string + node_config list"

fun first_twice :: "string list \<Rightarrow> node_config list \<Rightarrow> string option" where
  "first_twice names [] = None"
| "first_twice names (c # cs) = (if nc_name c \<in> set names then Some (nc_name c) else first_twice (nc_name c # names) cs)"

definition nodes_load :: "string \<Rightarrow> file_read \<Rightarrow> string + node_config list" where
  "nodes_load path file =
     (case file of
        NotFound \<Rightarrow> Inr [local_config]
      | ReadError e \<Rightarrow> Inl (''failed to read '' @ path @ '': '' @ e)
      | FileText (Inl e) \<Rightarrow> Inl (''invalid nodes file '' @ path @ '': '' @ e)
      | FileText (Inr configs) \<Rightarrow>
          if configs = [] then Inl (path @ '' lists no nodes'')
          else (case first_twice [] configs of
                  Some name \<Rightarrow> Inl (path @ '' lists node '' @ quoted name @ '' twice'')
                | None \<Rightarrow> Inr configs))"

definition node_name_ok :: "string \<Rightarrow> bool" where
  "node_name_ok name \<longleftrightarrow> list_all (\<lambda>c. is_ascii_alphanumeric c \<or> c \<in> set ''-_.'') name"

definition check_version :: "string \<Rightarrow> node_info \<Rightarrow> string + unit" where
  "check_version version info =
     (if ni_version info \<noteq> version
      then Inl (''node runs roster '' @ ni_version info @ '', this machine runs '' @ version)
      else Inr ())"

text \<open>
  What the ssh session of \<open>info_over_ssh\<close> gave: it did not start, it failed, or its output.
\<close>

datatype ssh_output = SshNotRun string | SshFailed string string | SshStdout "string + node_info"

definition info_over_ssh :: "string \<Rightarrow> string \<Rightarrow> ssh_output \<Rightarrow> string + node_info" where
  "info_over_ssh version target output =
     (case output of
        SshNotRun e \<Rightarrow> Inl (''failed to run ssh: '' @ e)
      | SshFailed status stderr \<Rightarrow>
          Inl (''`ssh '' @ target @ '' '' @ quoted ''roster enable > /dev/null && roster info --json'' @ ''` failed ('' @ status @ ''): '' @ trim stderr)
      | SshStdout (Inl e) \<Rightarrow> Inl (''unreadable `roster info --json` output: '' @ e)
      | SshStdout (Inr info) \<Rightarrow> (case check_version version info of Inl e \<Rightarrow> Inl e | Inr _ \<Rightarrow> Inr info))"

text \<open>\<open>add\<close> and \<open>remove\<close> return the list they would save; the save itself is \<open>nodes_save\<close>.\<close>

definition node_add :: "string \<Rightarrow> string \<Rightarrow> file_read \<Rightarrow> string \<Rightarrow> string option \<Rightarrow> ssh_output
    \<Rightarrow> string + node_info \<times> node_config list" where
  "node_add version path file target name_arg output =
     (case nodes_load path file of
        Inl e \<Rightarrow> Inl e
      | Inr configs \<Rightarrow>
          (let name = (case name_arg of Some n \<Rightarrow> n | None \<Rightarrow> target) in
           if \<not> node_name_ok name
           then Inl (''node name '' @ quoted name @ '' may only use letters, digits, '' @ quoted ''-'' @ '', '' @ quoted ''_'' @ '' and '' @ quoted ''.'')
           else if list_ex (\<lambda>c. nc_name c = name \<or> nc_ssh c = Some target) configs
           then Inl (''node '' @ quoted name @ '' ('' @ target @ '') is already in '' @ path)
           else (case info_over_ssh version target output of
                   Inl e \<Rightarrow> Inl e
                 | Inr info \<Rightarrow>
                     Inr (info, configs @ [\<lparr>nc_name = name, nc_ssh = Some target, nc_socket = Some (ni_socket info)\<rparr>]))))"

definition node_remove :: "string \<Rightarrow> file_read \<Rightarrow> string \<Rightarrow> string + node_config list" where
  "node_remove path file name =
     (case nodes_load path file of
        Inl e \<Rightarrow> Inl e
      | Inr configs \<Rightarrow>
          (let kept = filter (\<lambda>c. nc_name c \<noteq> name) configs in
           if length kept = length configs then Inl (''no node '' @ quoted name @ '' in '' @ path)
           else if kept = [] then Inl (quoted name @ '' is the last node'')
           else Inr kept))"

section \<open>Saving the list\<close>

text \<open>Through a temporary file, as for the quarantines; the text of a list is a value of type \<open>'t\<close>.\<close>

definition nodes_save :: "(node_config list \<Rightarrow> 't) \<Rightarrow> 't save_outcome \<Rightarrow> node_config list \<Rightarrow> 't quarantine_file \<Rightarrow> 't quarantine_file" where
  "nodes_save to_yaml outcome configs file =
     (case outcome of
        DirFailed \<Rightarrow> file
      | WriteFailed part \<Rightarrow> file\<lparr>qf_temp := part\<rparr>
      | RenameFailed \<Rightarrow> file\<lparr>qf_temp := Some (to_yaml configs)\<rparr>
      | SaveOk \<Rightarrow> \<lparr>qf_main = Some (to_yaml configs), qf_temp = None\<rparr>)"

section \<open>The tunnel\<close>

text \<open>One end of \<open>ssh -N -L local:remote\<close>; starting it gives an error or the child's pid.\<close>

record tunnel =
  tn_name :: string
  tn_target :: string
  tn_remote :: string
  tn_local :: string

definition tunnel_args :: "tunnel \<Rightarrow> string list" where
  "tunnel_args t =
     [''-N'', ''-o'', ''LogLevel=ERROR'', ''-o'', ''BatchMode=yes'', ''-o'', ''ConnectTimeout=10'',
      ''-o'', ''ExitOnForwardFailure=yes'', ''-o'', ''StreamLocalBindUnlink=yes'',
      ''-o'', ''ServerAliveInterval=10'', ''-o'', ''ServerAliveCountMax=3'',
      ''-L'', tn_local t @ '':'' @ tn_remote t, tn_target t]"

definition tunnel_spawn :: "(string \<Rightarrow> string option) \<Rightarrow> (string list \<Rightarrow> string + u32) \<Rightarrow> tunnel \<Rightarrow> string + u32" where
  "tunnel_spawn create_dir spawn t =
     (case create_dir (path_parent (tn_local t)) of
        Some e \<Rightarrow> Inl e
      | None \<Rightarrow> spawn (tunnel_args t))"

text \<open>The tunnel \<open>connect\<close> builds for a node that has an address and a socket.\<close>

definition node_tunnel :: "environment \<Rightarrow> node_config \<Rightarrow> tunnel option" where
  "node_tunnel env c =
     (case (nc_ssh c, nc_socket c) of
        (Some target, Some remote) \<Rightarrow> do {
          local \<leftarrow> node_socket_path env (nc_name c);
          Some \<lparr>tn_name = nc_name c, tn_target = target, tn_remote = remote, tn_local = local\<rparr> }
      | _ \<Rightarrow> None)"

text \<open>Where a request that is no job operation goes: through the node's tunnel, or to this machine's socket.\<close>

datatype endpoint = ThroughTunnel string | OwnSocket

definition node_endpoint :: "node \<Rightarrow> endpoint" where
  "node_endpoint n = (case nd_socket n of Some socket \<Rightarrow> ThroughTunnel socket | None \<Rightarrow> OwnSocket)"

text \<open>What connecting and asking the node daemon gave.\<close>

datatype check_input = ConnectFailed string | Answer node_info | OtherAnswer | NoAnswer

definition tunnel_check :: "string \<Rightarrow> check_input \<Rightarrow> node_state \<times> node_info option" where
  "tunnel_check version input =
     (case input of
        ConnectFailed e \<Rightarrow> (TunnelDown e, None)
      | OtherAnswer \<Rightarrow> (DaemonDown, None)
      | NoAnswer \<Rightarrow> (NoReply, None)
      | Answer info \<Rightarrow> (case check_version version info of
          Inr _ \<Rightarrow> (Online, Some info)
        | Inl e \<Rightarrow> (VersionMismatch e, Some info)))"

definition set_state :: "datetime \<Rightarrow> node_state \<Rightarrow> node_info option \<Rightarrow> node \<Rightarrow> node" where
  "set_state now state info n =
     n\<lparr>nd_online := state_is_online state, nd_health := snd (health_enter now state info (nd_health n))\<rparr>"

text \<open>
  Opening: the rounds of the loop, each with the check, whether the deadline has passed, and ssh's
  exit status if it ended. \<open>None\<close> while no round has decided.
\<close>

fun tunnel_open :: "string \<Rightarrow> string \<Rightarrow> (check_input \<times> bool \<times> string option) list \<Rightarrow> (string + node_info) option" where
  "tunnel_open version target [] = None"
| "tunnel_open version target ((input, late, exited) # rounds) =
     (case tunnel_check version input of
        (Online, Some info) \<Rightarrow> Some (Inr info)
      | (VersionMismatch reason, _) \<Rightarrow> Some (Inl (node_state_display (VersionMismatch reason)))
      | (state, _) \<Rightarrow>
          if late then Some (Inl (''no answer through the ssh tunnel to '' @ target @ '': '' @ node_state_display state))
          else (case exited of
                  Some status \<Rightarrow> Some (Inl (''ssh to '' @ target @ '' exited: '' @ status))
                | None \<Rightarrow> tunnel_open version target rounds))"

definition ssh_exited :: "string + string \<Rightarrow> node_state" where
  "ssh_exited status =
     (case status of
        Inr st \<Rightarrow> TunnelDown (''ssh exited ('' @ st @ '')'')
      | Inl e \<Rightarrow> TunnelDown (''ssh wait failed: '' @ e))"

text \<open>The supervisor: the back-off in seconds and the node, through its two events.\<close>

datatype tunnel_event = SshEnded "string + string" | HealthCheck check_input

definition supervise :: "string \<Rightarrow> datetime \<Rightarrow> tunnel_event \<Rightarrow> nat \<times> node \<Rightarrow> nat \<times> node" where
  "supervise version now event s =
     (case event of
        SshEnded status \<Rightarrow> (min (fst s * 2) 30, set_state now (ssh_exited status) None (snd s))
      | HealthCheck input \<Rightarrow>
          (let (state, info) = tunnel_check version input in
           (if state_is_online state then 1 else fst s, set_state now state info (snd s))))"

fun supervise_all :: "string \<Rightarrow> (datetime \<times> tunnel_event) list \<Rightarrow> nat \<times> node \<Rightarrow> nat \<times> node" where
  "supervise_all version [] s = s"
| "supervise_all version ((now, event) # events) s = supervise_all version events (supervise version now event s)"

text \<open>
  \<open>connect\<close>: the nodes and their pools, or the first error. \<open>opened\<close> is what opening the tunnel of
  a node gave, \<open>local_end\<close> the path of its local socket.
\<close>

fun connect :: "datetime \<Rightarrow> system_resources \<Rightarrow> (node_config \<Rightarrow> string + node_info) \<Rightarrow> (string \<Rightarrow> string)
    \<Rightarrow> node_config list \<Rightarrow> string + node list \<times> resource_pool list" where
  "connect now local opened local_end [] = Inr ([], [])"
| "connect now local opened local_end (config # configs) =
     (case (nc_ssh config, nc_socket config) of
        (Some _, None) \<Rightarrow>
          Inl (''node '' @ quoted (nc_name config) @ '' has no socket, add it with `roster node add`'')
      | (ssh, remote) \<Rightarrow>
          (case (if ssh = None then Inr None else map_sum (\<lambda>e. ''node '' @ quoted (nc_name config) @ '': '' @ e) Some (opened config)) of
             Inl e \<Rightarrow> Inl e
           | Inr info \<Rightarrow>
               (let resources = (case info of None \<Rightarrow> local | Some i \<Rightarrow> ni_resources i);
                    n = \<lparr>nd_name = nc_name config, nd_ssh = ssh,
                         nd_socket = (if ssh = None then None else Some (local_end (nc_name config))),
                         nd_online = True, nd_health = \<lparr>hl_state = Online, hl_since = now, hl_info = info\<rparr>\<rparr> in
                map_sum id (\<lambda>(ns, ps). (n # ns, pool_new resources # ps)) (connect now local opened local_end configs))))"

section \<open>Facts\<close>

definition configs_ok :: "node_config list \<Rightarrow> bool" where
  "configs_ok cs \<longleftrightarrow> cs \<noteq> [] \<and> distinct (map nc_name cs)"

lemma first_twice_none: "first_twice names cs = None \<longleftrightarrow> distinct (map nc_name cs) \<and> set (map nc_name cs) \<inter> set names = {}"
  by (induction names cs rule: first_twice.induct) auto

lemma nodes_load_ok: "nodes_load path file = Inr cs \<Longrightarrow> configs_ok cs"
  by (auto simp: nodes_load_def configs_ok_def first_twice_none local_config_def
      split: file_read.splits sum.splits if_splits option.splits)

lemma nodes_load_text: "configs_ok cs \<Longrightarrow> nodes_load path (FileText (Inr cs)) = Inr cs"
  by (auto simp: nodes_load_def configs_ok_def first_twice_none split: option.split)

lemma connect_lengths:
  "connect now local opened local_end configs = Inr (ns, ps) \<Longrightarrow>
     length ns = length configs \<and> length ps = length configs \<and> map nd_name ns = map nc_name configs
     \<and> list_all nd_online ns"
  by (induction configs arbitrary: ns ps)
    (auto simp: Let_def map_sum_def split: option.splits sum.splits if_splits prod.splits)

lemma connect_pools:
  assumes "connect now local opened local_end configs = Inr (ns, ps)" "dense (gpus local)"
    "\<And>c info. opened c = Inr info \<Longrightarrow> dense (gpus (ni_resources info))"
  shows "\<forall>p \<in> set ps. ledger p {#}"
  using assms(1)
proof (induction configs arbitrary: ns ps)
  case (Cons c cs)
  then show ?case using assms(2,3)
    by (auto simp: Let_def map_sum_def intro!: ledger_new split: option.splits sum.splits if_splits prod.splits)
qed simp

lemma supervise_online:
  assumes "nd_online n = state_is_online (hl_state (nd_health n))" "supervise version now event (b, n) = (b', n')"
  shows "nd_online n' = state_is_online (hl_state (nd_health n'))"
  using assms(2) by (auto simp: supervise_def set_state_def health_enter_def Let_def split: tunnel_event.splits prod.splits)

lemma supervise_backoff:
  "1 \<le> b \<Longrightarrow> b \<le> 30 \<Longrightarrow> 1 \<le> fst (supervise version now event (b, n)) \<and> fst (supervise version now event (b, n)) \<le> 30"
  by (auto simp: supervise_def Let_def split: tunnel_event.split prod.split)

section \<open>Properties of the nodes\<close>

text \<open>
  C39: The node list is never left in a state the daemon refuses to load: what is loaded is not
  empty and has no name twice, adding and removing keep it so, and the saved list loads again. A
  new node is appended, so the order of placement over the others stays.
\<close>

theorem node_list_stays_loadable:
  "(nodes_load path file = Inr cs \<longrightarrow> configs_ok cs \<and> nodes_load path (FileText (Inr cs)) = Inr cs)
   \<and> (node_add version path file target name_arg output = Inr (info, cs) \<longrightarrow>
        nodes_load path (FileText (Inr cs)) = Inr cs
        \<and> (\<exists>old c. nodes_load path file = Inr old \<and> cs = old @ [c] \<and> nc_ssh c = Some target \<and> ni_version info = version))
   \<and> (node_remove path file name = Inr cs \<longrightarrow>
        nodes_load path (FileText (Inr cs)) = Inr cs \<and> name \<notin> set (map nc_name cs))"
proof (intro conjI impI)
  show "nodes_load path file = Inr cs \<Longrightarrow> configs_ok cs" by (rule nodes_load_ok)
  show "nodes_load path file = Inr cs \<Longrightarrow> nodes_load path (FileText (Inr cs)) = Inr cs"
    by (intro nodes_load_text nodes_load_ok)
  assume add: "node_add version path file target name_arg output = Inr (info, cs)"
  then obtain old c where old: "nodes_load path file = Inr old" "cs = old @ [c]" "nc_ssh c = Some target"
    "nc_name c \<notin> set (map nc_name old)" "info_over_ssh version target output = Inr info"
    by (fastforce simp: node_add_def Let_def list_ex_iff split: sum.splits if_splits)
  then show "\<exists>old c. nodes_load path file = Inr old \<and> cs = old @ [c] \<and> nc_ssh c = Some target \<and> ni_version info = version"
    by (auto simp: info_over_ssh_def check_version_def split: ssh_output.splits sum.splits if_splits)
  show "nodes_load path (FileText (Inr cs)) = Inr cs"
    using old nodes_load_ok [OF old(1)] by (intro nodes_load_text) (auto simp: configs_ok_def)
next
  assume rm: "node_remove path file name = Inr cs"
  then obtain old where old: "nodes_load path file = Inr old" "cs = filter (\<lambda>c. nc_name c \<noteq> name) old" "cs \<noteq> []"
    by (auto simp: node_remove_def Let_def split: sum.splits if_splits)
  then show "nodes_load path (FileText (Inr cs)) = Inr cs"
    using nodes_load_ok [OF old(1)] by (intro nodes_load_text) (auto simp: configs_ok_def distinct_map_filter)
  show "name \<notin> set (map nc_name cs)" using old by auto
qed

theorem node_list_stays_loadable_witness:
  "nodes_load ''nodes.yaml'' (FileText (Inr [local_config])) = Inr [local_config]"
  using node_list_stays_loadable [of "''nodes.yaml''" NotFound "[local_config]"] by (simp add: nodes_load_def)


definition demo_node :: node where
  "demo_node = \<lparr>nd_name = ''n1'', nd_ssh = None, nd_socket = None, nd_online = True,
     nd_health = \<lparr>hl_state = Online, hl_since = 0, hl_info = None\<rparr>\<rparr>"


end
