(* ===== verification/Scheduler.thy ===== *)
theory Scheduler
  imports Placement Node
begin

text \<open>
  The scheduler (src/src/scheduler/mod.rs). Each function here is one critical section of the
  code, or the work between two of them, so that other tasks can run in between; \<open>tick\<close> composes
  them. Executors, clocks and NVML readings are arguments. A \<open>None\<close> is a panic: an index out of
  range, or HOME not set.
\<close>

type_synonym jobs = "(string \<times> job_instance) list"
type_synonym runs = "(string \<times> workflow_run) list"
type_synonym writes = "(string \<times> string) list"

text \<open>
  The daemon's shared state (src/src/daemon/mod.rs) as far as the scheduler and the request
  handlers work on it. \<open>dm_store\<close> is the sequence of writes handed to the database and
  \<open>dm_events\<close> the sequence of events sent to the ring buffer.
\<close>

datatype store_write =
    UpsertRun workflow_run
  | UpsertJob string job_instance "string option"

record daemon =
  dm_runs :: runs
  dm_nodes :: "node list"
  dm_pools :: "resource_pool list"
  dm_resources :: system_resources
  dm_requalify :: "(nat \<times> u32) list"
  dm_store :: "store_write list"
  dm_events :: "job_event list"
  dm_run_counter :: u64
  dm_job_counter :: u64

definition daemon_new :: "system_resources \<Rightarrow> node list \<Rightarrow> resource_pool list \<Rightarrow> daemon" where
  "daemon_new resources ns ps =
     \<lparr>dm_runs = [], dm_nodes = ns, dm_pools = ps, dm_resources = resources, dm_requalify = [],
      dm_store = [], dm_events = [], dm_run_counter = 0, dm_job_counter = 0\<rparr>"

definition get_job :: "runs \<Rightarrow> string \<Rightarrow> string \<Rightarrow> job_instance option" where
  "get_job rs run_id job_id = Option.bind (hm_get rs run_id) (\<lambda>run. hm_get (wr_jobs run) job_id)"

definition modify_job :: "string \<Rightarrow> string \<Rightarrow> (job_instance \<Rightarrow> job_instance) \<Rightarrow> runs \<Rightarrow> runs" where
  "modify_job run_id job_id f rs = hm_modify run_id (\<lambda>run. run\<lparr>wr_jobs := hm_modify job_id f (wr_jobs run)\<rparr>) rs"

definition SECOND :: int where "SECOND = 1000000000"
definition GPU_CHECK_TICKS :: nat where "GPU_CHECK_TICKS = 20"
definition GPU_BLOCKED_WARN :: int where "GPU_BLOCKED_WARN = 30 * SECOND"
definition QUALIFY_EVERY :: int where "QUALIFY_EVERY = 24 * 3600 * SECOND"
definition QUALIFY_TIMEOUT :: int where "QUALIFY_TIMEOUT = 20 * 60 * SECOND"
definition QUALIFY_SETTLE :: int where "QUALIFY_SETTLE = 60 * SECOND"
definition REASON_TAIL_BYTES :: u64 where "REASON_TAIL_BYTES = 4096"
definition REASON_LINES :: nat where "REASON_LINES = 3"

text \<open>Of src/src/executor/shell.rs: the line that stands for output cut off the front of a tail.\<close>

definition CUT_NOTICE :: string where "CUT_NOTICE = ''[earlier output cut]''"

section \<open>Helpers\<close>

fun release_executions :: "execution list \<Rightarrow> resource_pool list \<Rightarrow> resource_pool list option" where
  "release_executions [] pools = Some pools"
| "release_executions (execution # executions) pools = do {
     pool \<leftarrow> vec_get pools (ex_node execution);
     pool' \<leftarrow> release (ex_allocation execution) pool;
     pools' \<leftarrow> vec_set pools (ex_node execution) pool';
     release_executions executions pools' }"

definition reason_lines :: "string \<Rightarrow> string list" where
  "reason_lines tail =
     filter (\<lambda>line. line \<noteq> [] \<and> line \<noteq> CUT_NOTICE \<and> \<not> list_all (\<lambda>c. c \<in> set ''^~'') line)
       (map trim (split_on (\<lambda>c. c = newline \<or> c = char_of (13 :: nat)) tail))"

definition exit_reason :: "i32 \<Rightarrow> string option \<Rightarrow> string" where
  "exit_reason exit_code tail =
     (let ended = (if exit_code = - 1 then ''killed by a signal'' else ''exit '' @ dec_int exit_code);
          lines = reason_lines (unwrap_or tail []) in
      if lines = [] then ended
      else ended @ '': '' @ join '' | '' (drop (length lines - REASON_LINES) lines))"

definition add_reason :: "string \<Rightarrow> job_instance \<Rightarrow> job_instance" where
  "add_reason reason job =
     job\<lparr>ji_reason := Some (case ji_reason job of Some earlier \<Rightarrow> earlier @ ''; '' @ reason | None \<Rightarrow> reason)\<rparr>"

definition log_path :: "environment \<Rightarrow> node \<Rightarrow> string \<Rightarrow> string \<Rightarrow> string option" where
  "log_path env n run_id job_id =
     (case nd_ssh n of
        None \<Rightarrow> job_log_path env run_id job_id
      | Some target \<Rightarrow> Some (target @ '':'' @ job_log_relpath run_id job_id))"

section \<open>Pending to Queued, and Skipped\<close>

definition deps_succeeded :: "jobs \<Rightarrow> job_instance \<Rightarrow> bool" where
  "deps_succeeded js job \<longleftrightarrow>
     list_all (\<lambda>dep. map_option ji_state (hm_get js dep) = Some Succeeded) (js_depends_on (ji_spec job))"

definition dep_ended_badly :: "jobs \<Rightarrow> job_instance \<Rightarrow> bool" where
  "dep_ended_badly js job \<longleftrightarrow>
     list_ex (\<lambda>dep. map_option ji_state (hm_get js dep)
                      \<in> Some ` {Failed, Skipped, Cancelled, TimedOut, Interrupted}) (js_depends_on (ji_spec job))"

definition to_queue :: "jobs \<Rightarrow> string list" where
  "to_queue js = map ji_job_id (filter (\<lambda>job. ji_state job = Pending \<and> deps_succeeded js job) (map snd js))"

definition to_skip :: "jobs \<Rightarrow> string list" where
  "to_skip js = map ji_job_id (filter (\<lambda>job. ji_state job \<in> {Pending, Queued} \<and> dep_ended_badly js job) (map snd js))"

fun mark_jobs :: "(job_instance \<Rightarrow> job_instance) \<Rightarrow> string \<Rightarrow> string list \<Rightarrow> jobs \<Rightarrow> jobs \<times> writes" where
  "mark_jobs f run_id [] js = (js, [])"
| "mark_jobs f run_id (job_id # ids) js =
     (if hm_get js job_id = None then mark_jobs f run_id ids js
      else (let (js', ws) = mark_jobs f run_id ids (hm_modify job_id f js) in (js', (run_id, job_id) # ws)))"

fun sweep :: "(jobs \<Rightarrow> string list) \<Rightarrow> (job_instance \<Rightarrow> job_instance) \<Rightarrow> runs \<Rightarrow> runs \<times> writes" where
  "sweep pick f [] = ([], [])"
| "sweep pick f ((k, run) # rs) =
     (let (js, ws) = mark_jobs f (wr_run_id run) (pick (wr_jobs run)) (wr_jobs run);
          (rs', ws') = sweep pick f rs
      in ((k, run\<lparr>wr_jobs := js\<rparr>) # rs', ws @ ws'))"

definition advance_pending :: "daemon \<Rightarrow> daemon \<times> writes" where
  "advance_pending d =
     (let (rs, ws) = sweep to_queue (\<lambda>job. job\<lparr>ji_state := Queued\<rparr>) (dm_runs d) in (d\<lparr>dm_runs := rs\<rparr>, ws))"

definition cascade_skipped :: "datetime \<Rightarrow> daemon \<Rightarrow> daemon \<times> writes" where
  "cascade_skipped now d =
     (let (rs, ws) = sweep to_skip (\<lambda>job. job\<lparr>ji_state := Skipped, ji_ended_at := Some now\<rparr>) (dm_runs d)
      in (d\<lparr>dm_runs := rs\<rparr>, ws))"

fun flush_transitions :: "u64 \<Rightarrow> writes \<Rightarrow> daemon \<Rightarrow> daemon option" where
  "flush_transitions at [] d = Some d"
| "flush_transitions at ((run_id, job_id) # ws) d =
     (case hm_get (dm_runs d) run_id of
        None \<Rightarrow> flush_transitions at ws d
      | Some run \<Rightarrow> (case hm_get (wr_jobs run) job_id of
          None \<Rightarrow> flush_transitions at ws d
        | Some job \<Rightarrow> do {
            name \<leftarrow> (case ji_executions job of [] \<Rightarrow> Some None
                     | e # _ \<Rightarrow> map_option (\<lambda>n. Some (nd_name n)) (vec_get (dm_nodes d) (ex_node e)));
            flush_transitions at ws
              (d\<lparr>dm_store := dm_store d @ [UpsertJob run_id job name],
                 dm_events := dm_events d @ [job_event_new (wr_run_seq run) (ji_job_seq job) (ji_state job) at]\<rparr>) }))"

section \<open>Queued to Running\<close>

record admit_task =
  at_run_id :: string
  at_job_instance :: job_instance
  at_placement :: "(nat \<times> allocation) list"

record launch_outcome =
  lo_run_id :: string
  lo_job_id :: string
  lo_executions :: "execution list"
  lo_result :: "executor_error + unit"

definition usable_nodes :: "bool list \<Rightarrow> job_instance \<Rightarrow> bool list" where
  "usable_nodes online job = map (\<lambda>(node, up). up \<and> \<not> rejected_by job node) (enumerate 0 online)"

fun admit_jobs :: "bool list \<Rightarrow> string \<Rightarrow> jobs \<Rightarrow> resource_pool list \<Rightarrow> (admit_task list \<times> resource_pool list) option" where
  "admit_jobs online run_id [] pools = Some ([], pools)"
| "admit_jobs online run_id ((k, job) # js) pools =
     (if ji_state job \<noteq> Queued then admit_jobs online run_id js pools
      else do {
        (placed, pools') \<leftarrow> place pools (usable_nodes online job) [js_resources (ji_spec job)];
        (tasks, pools'') \<leftarrow> admit_jobs online run_id js pools';
        Some (case placed of
                Some placement \<Rightarrow>
                  \<lparr>at_run_id = run_id, at_job_instance = job, at_placement = placement\<rparr> # tasks
              | None \<Rightarrow> tasks, pools'') })"

fun admit_runs :: "bool list \<Rightarrow> runs \<Rightarrow> resource_pool list \<Rightarrow> (admit_task list \<times> resource_pool list) option" where
  "admit_runs online [] pools = Some ([], pools)"
| "admit_runs online ((k, run) # rs) pools = do {
     (tasks, pools') \<leftarrow> admit_jobs online (wr_run_id run) (wr_jobs run) pools;
     (tasks', pools'') \<leftarrow> admit_runs online rs pools';
     Some (tasks @ tasks', pools'') }"

definition admit :: "daemon \<Rightarrow> (admit_task list \<times> daemon) option" where
  "admit d = do {
     (tasks, pools) \<leftarrow> admit_runs (map nd_online (dm_nodes d)) (dm_runs d) (dm_pools d);
     Some (tasks, d\<lparr>dm_pools := pools\<rparr>) }"

type_synonym launcher = "nat \<Rightarrow> string \<Rightarrow> job_instance \<Rightarrow> allocation \<Rightarrow> executor_error + job_handle"

fun launch_members :: "launcher \<Rightarrow> string \<Rightarrow> job_instance \<Rightarrow> (nat \<times> allocation) list
    \<Rightarrow> execution list \<Rightarrow> executor_error + unit \<Rightarrow> execution list \<times> (executor_error + unit)" where
  "launch_members launch run_id job [] executions result = (executions, result)"
| "launch_members launch run_id job ((n, alloc) # placement) executions result =
     (case launch n run_id job alloc of
        Inr handle \<Rightarrow> launch_members launch run_id job placement
          (executions @ [\<lparr>ex_node = n, ex_allocation = alloc, ex_handle = Some handle\<rparr>]) result
      | Inl e \<Rightarrow> launch_members launch run_id job placement
          (executions @ [\<lparr>ex_node = n, ex_allocation = alloc, ex_handle = None\<rparr>]) (Inl e))"

definition launch_task :: "launcher \<Rightarrow> admit_task \<Rightarrow> launch_outcome" where
  "launch_task launch task =
     (let (executions, result) =
            launch_members launch (at_run_id task) (at_job_instance task) (at_placement task) [] (Inr ()) in
      \<lparr>lo_run_id = at_run_id task, lo_job_id = ji_job_id (at_job_instance task),
       lo_executions = executions, lo_result = result\<rparr>)"

definition fail_job :: "datetime \<Rightarrow> job_instance \<Rightarrow> job_instance" where
  "fail_job now job = job\<lparr>ji_state := Failed, ji_ended_at := Some now\<rparr>"

definition start_job :: "datetime \<Rightarrow> string \<Rightarrow> execution list \<Rightarrow> job_instance \<Rightarrow> job_instance" where
  "start_job now log executions job =
     job\<lparr>ji_state := Running, ji_executions := executions, ji_started_at := Some now, ji_log_path := Some log\<rparr>"

definition could_go_elsewhere :: "resource_pool list \<Rightarrow> job_instance \<Rightarrow> bool" where
  "could_go_elsewhere pools job =
     list_ex (\<lambda>(node, pool). \<not> rejected_by job node
                \<and> list_ex (could_fit pool) (gpu_options (js_resources (ji_spec job)))) (enumerate 0 pools)"

text \<open>A node that turned a job down is remembered with its reason; the text names all of them.\<close>

definition rejection_text :: "node list \<Rightarrow> (nat \<times> string) list \<Rightarrow> string option" where
  "rejection_text nodes rejected =
     (if list_all (\<lambda>(node, _). node < length nodes) rejected
      then Some (''turned down by '' @ join ''; ''
             (map (\<lambda>(node, reason). nd_name (nodes ! node) @ '': '' @ reason) rejected))
      else None)"

definition reject_job :: "datetime \<Rightarrow> node list \<Rightarrow> resource_pool list \<Rightarrow> nat \<Rightarrow> string \<Rightarrow> job_instance \<Rightarrow> job_instance option" where
  "reject_job now nodes pools n reason job =
     (let job1 = job\<lparr>ji_rejected := ji_rejected job @ [(n, reason)]\<rparr> in do {
        txt \<leftarrow> rejection_text nodes (ji_rejected job1);
        let job2 = job1\<lparr>ji_reason := Some txt\<rparr>;
        Some (if could_go_elsewhere pools job2 then job2 else fail_job now job2) })"

definition apply_outcome :: "environment \<Rightarrow> datetime \<Rightarrow> launch_outcome \<Rightarrow> daemon \<Rightarrow> (daemon \<times> writes) option" where
  "apply_outcome env now outcome d =
     (case get_job (dm_runs d) (lo_run_id outcome) (lo_job_id outcome) of
        None \<Rightarrow> do {
          pools \<leftarrow> release_executions (lo_executions outcome) (dm_pools d);
          Some (d\<lparr>dm_pools := pools\<rparr>, []) }
      | Some job \<Rightarrow>
          (let set_job = (\<lambda>job'. modify_job (lo_run_id outcome) (lo_job_id outcome) (\<lambda>_. job') (dm_runs d));
               written = [(lo_run_id outcome, lo_job_id outcome)] in
           case lo_result outcome of
             Inr _ \<Rightarrow> do {
               e \<leftarrow> vec_get (lo_executions outcome) 0;
               n \<leftarrow> vec_get (dm_nodes d) (ex_node e);
               log \<leftarrow> log_path env n (lo_run_id outcome) (lo_job_id outcome);
               Some (d\<lparr>dm_runs := set_job (start_job now log (lo_executions outcome) job)\<rparr>, written) }
           | Inl (Unreachable reason) \<Rightarrow> do {
               pools \<leftarrow> release_executions (lo_executions outcome) (dm_pools d);
               Some (d\<lparr>dm_pools := pools\<rparr>, []) }
           | Inl (Rejected reason) \<Rightarrow> do {
               e \<leftarrow> vec_get (lo_executions outcome) 0;
               n \<leftarrow> vec_get (dm_nodes d) (ex_node e);
               pools \<leftarrow> release_executions (lo_executions outcome) (dm_pools d);
               job' \<leftarrow> reject_job now (dm_nodes d) pools (ex_node e) reason job;
               Some (d\<lparr>dm_pools := pools, dm_runs := set_job job'\<rparr>, written) }
           | Inl error \<Rightarrow> do {
               pools \<leftarrow> release_executions (lo_executions outcome) (dm_pools d);
               Some (d\<lparr>dm_pools := pools,
                       dm_runs := set_job (add_reason (executor_error_display error) (fail_job now job))\<rparr>, written) }))"

fun apply_outcomes :: "environment \<Rightarrow> datetime \<Rightarrow> launch_outcome list \<Rightarrow> daemon \<Rightarrow> (daemon \<times> writes) option" where
  "apply_outcomes env now [] d = Some (d, [])"
| "apply_outcomes env now (outcome # outcomes) d = do {
     (d', ws) \<leftarrow> apply_outcome env now outcome d;
     (d'', ws') \<leftarrow> apply_outcomes env now outcomes d';
     Some (d'', ws @ ws') }"

section \<open>Running to an end\<close>

record running_job =
  rj_run_id :: string
  rj_job_id :: string
  rj_node :: nat
  rj_handle :: job_handle
  rj_cancelling :: bool

record poll_entry =
  pe_run_id :: string
  pe_job_id :: string
  pe_cancelling :: bool
  pe_result :: "executor_error + poll_result"
  pe_tail :: "string option"

definition running_of :: "string \<Rightarrow> job_instance \<Rightarrow> running_job option" where
  "running_of run_id job =
     (if ji_state job \<noteq> Running then None
      else case ji_executions job of
        [] \<Rightarrow> None
      | e # _ \<Rightarrow> map_option (\<lambda>h. \<lparr>rj_run_id = run_id, rj_job_id = ji_job_id job, rj_node = ex_node e, rj_handle = h,
                                  rj_cancelling = ji_cancelling job\<rparr>) (ex_handle e))"

definition snapshot :: "runs \<Rightarrow> running_job list" where
  "snapshot rs = concat (map (\<lambda>(k, run). List.map_filter (running_of (wr_run_id run)) (map snd (wr_jobs run))) rs)"

type_synonym poller = "nat \<Rightarrow> job_handle \<Rightarrow> executor_error + poll_result"
type_synonym tailer = "nat \<Rightarrow> string \<Rightarrow> string \<Rightarrow> u64 \<Rightarrow> executor_error + string"

definition poll_job :: "poller \<Rightarrow> tailer \<Rightarrow> running_job \<Rightarrow> poll_entry" where
  "poll_job poll tail job =
     (let result = poll (rj_node job) (rj_handle job);
          end_of_log = (case result of
              Inr (Exited exit_code) \<Rightarrow>
                if exit_code \<noteq> 0 \<and> \<not> rj_cancelling job
                then (case tail (rj_node job) (rj_run_id job) (rj_job_id job) REASON_TAIL_BYTES of Inr t \<Rightarrow> Some t | Inl _ \<Rightarrow> None)
                else None
            | _ \<Rightarrow> None) in
      \<lparr>pe_run_id = rj_run_id job, pe_job_id = rj_job_id job, pe_cancelling = rj_cancelling job,
       pe_result = result, pe_tail = end_of_log\<rparr>)"

definition cards_of :: "execution list \<Rightarrow> (nat \<times> u32) list" where
  "cards_of executions = concat (map (\<lambda>e. map (\<lambda>g. (ex_node e, ga_index g)) (al_gpus (ex_allocation e))) executions)"

definition end_job :: "datetime \<Rightarrow> bool \<Rightarrow> i32 \<Rightarrow> string option \<Rightarrow> job_instance \<Rightarrow> job_instance" where
  "end_job now cancelling exit_code tail job =
     (let job1 = job\<lparr>ji_executions := [], ji_exit_code := Some exit_code, ji_ended_at := Some now\<rparr> in
      if cancelling then job1\<lparr>ji_state := Cancelled\<rparr>
      else if exit_code = 0 then job1\<lparr>ji_state := Succeeded\<rparr>
      else add_reason (exit_reason exit_code tail) (job1\<lparr>ji_state := Failed\<rparr>))"

definition apply_entry :: "datetime \<Rightarrow> poll_entry \<Rightarrow> daemon \<Rightarrow> (daemon \<times> writes) option" where
  "apply_entry now entry d =
     (case get_job (dm_runs d) (pe_run_id entry) (pe_job_id entry) of
        None \<Rightarrow> Some (d, [])
      | Some job \<Rightarrow>
          (let set_job = (\<lambda>job'. modify_job (pe_run_id entry) (pe_job_id entry) (\<lambda>_. job') (dm_runs d));
               written = [(pe_run_id entry, pe_job_id entry)] in
           case pe_result entry of
             Inl (Unreachable _) \<Rightarrow> Some (d, [])
           | Inl error \<Rightarrow> do {
               pools \<leftarrow> release_executions (ji_executions job) (dm_pools d);
               Some (d\<lparr>dm_pools := pools,
                       dm_runs := set_job (add_reason (''poll failed: '' @ executor_error_display error)
                                            (fail_job now (job\<lparr>ji_executions := []\<rparr>)))\<rparr>, written) }
           | Inr StillRunning \<Rightarrow> Some (d, [])
           | Inr (Exited exit_code) \<Rightarrow> do {
               pools \<leftarrow> release_executions (ji_executions job) (dm_pools d);
               Some (d\<lparr>dm_pools := pools,
                       dm_requalify := (if exit_code = - 1 \<and> \<not> pe_cancelling entry
                                        then List.union (cards_of (ji_executions job)) (dm_requalify d) else dm_requalify d),
                       dm_runs := set_job (end_job now (pe_cancelling entry) exit_code (pe_tail entry) job)\<rparr>, written) }))"

fun apply_entries :: "datetime \<Rightarrow> poll_entry list \<Rightarrow> daemon \<Rightarrow> (daemon \<times> writes) option" where
  "apply_entries now [] d = Some (d, [])"
| "apply_entries now (entry # entries) d = do {
     (d', ws) \<leftarrow> apply_entry now entry d;
     (d'', ws') \<leftarrow> apply_entries now entries d';
     Some (d'', ws @ ws') }"

section \<open>A tick\<close>

definition advance_queued :: "environment \<Rightarrow> datetime \<Rightarrow> u64 \<Rightarrow> launcher \<Rightarrow> daemon \<Rightarrow> daemon option" where
  "advance_queued env now at launch d = do {
     (tasks, d1) \<leftarrow> admit d;
     (d2, ws) \<leftarrow> apply_outcomes env now (map (launch_task launch) tasks) d1;
     flush_transitions at ws d2 }"

definition advance_running :: "datetime \<Rightarrow> u64 \<Rightarrow> poller \<Rightarrow> tailer \<Rightarrow> daemon \<Rightarrow> daemon option" where
  "advance_running now at poll tail d = do {
     (d1, ws) \<leftarrow> apply_entries now (map (poll_job poll tail) (snapshot (dm_runs d))) d;
     flush_transitions at ws d1 }"

definition tick :: "environment \<Rightarrow> datetime \<Rightarrow> u64 \<Rightarrow> launcher \<Rightarrow> poller \<Rightarrow> tailer \<Rightarrow> daemon \<Rightarrow> daemon option" where
  "tick env now at launch poll tail d = do {
     let (d1, ws1) = advance_pending d;
     d2 \<leftarrow> flush_transitions at ws1 d1;
     let (d3, ws3) = cascade_skipped now d2;
     d4 \<leftarrow> flush_transitions at ws3 d3;
     d5 \<leftarrow> advance_queued env now at launch d4;
     advance_running now at poll tail d5 }"

end
