(* ===== verification/Shell.thy ===== *)
theory Shell
  imports Scheduler
begin

text \<open>
  The executor of this machine's jobs (src/src/executor/shell.rs). What the operating system
  answers at the time of a call is the argument \<open>m\<close>: the files, the wait for a child, the process
  groups systemd reports. What a call does to the machine, a unit stopped or a signal sent, is
  returned beside its result. \<open>None\<close> is the panic when HOME is not set.
\<close>

section \<open>The machine\<close>

text \<open>The answers of \<open>waitpid\<close> with WNOHANG; \<open>NoChild\<close> is ECHILD.\<close>

datatype wait_status = StillAlive | ChildExited i32 | ChildSignaled | OtherStatus | NoChild | WaitError string

record machine =
  mc_scopes :: bool
  mc_wait :: "int \<Rightarrow> wait_status"
  mc_read :: "string \<Rightarrow> string option"
  mc_exists :: "string \<Rightarrow> bool"
  mc_executable :: "string \<Rightarrow> bool"
  mc_systemctl_show :: "string \<Rightarrow> string option"
  mc_current_dir :: "string option"
  mc_path :: "string option"
  mc_current_exe :: "string option"

datatype machine_effect = StopUnit string | SendSignal bool int

section \<open>Text of the standard library\<close>

definition split_once :: "char \<Rightarrow> string \<Rightarrow> (string \<times> string) option" where
  "split_once c s =
     (if c \<in> set s then Some (takeWhile (\<lambda>x. x \<noteq> c) s, tl (dropWhile (\<lambda>x. x \<noteq> c) s)) else None)"

text \<open>\<open>str::lines\<close>: line ends are LF or CR LF, and the last line may lack one.\<close>

definition str_lines :: "string \<Rightarrow> string list" where
  "str_lines s =
     (let ls = split_on (\<lambda>c. c = newline) s;
          ls = (if last ls = [] then butlast ls else ls) in
      map (\<lambda>l. if l \<noteq> [] \<and> last l = char_of (13 :: nat) then butlast l else l) ls)"

text \<open>
  \<open>String::from_utf8_lossy\<close>: the length of the character the bytes begin with, or of the broken
  piece that becomes one U+FFFD.
\<close>

definition byte_at :: "string \<Rightarrow> nat \<Rightarrow> nat" where
  "byte_at s i = (if i < length s then of_char (s ! i) else 0)"

definition is_cont :: "nat \<Rightarrow> bool" where "is_cont b \<longleftrightarrow> 128 \<le> b \<and> b \<le> 191"

definition utf8_step :: "string \<Rightarrow> bool \<times> nat" where
  "utf8_step s =
     (let b = byte_at s 0; c = byte_at s 1 in
      if b < 128 then (True, 1)
      else if 194 \<le> b \<and> b \<le> 223 then (if is_cont c then (True, 2) else (False, 1))
      else if 224 \<le> b \<and> b \<le> 239 then
        (if \<not> is_cont c \<or> b = 224 \<and> c < 160 \<or> b = 237 \<and> 159 < c then (False, 1)
         else if is_cont (byte_at s 2) then (True, 3) else (False, 2))
      else if 240 \<le> b \<and> b \<le> 244 then
        (if \<not> is_cont c \<or> b = 240 \<and> c < 144 \<or> b = 244 \<and> 143 < c then (False, 1)
         else if \<not> is_cont (byte_at s 2) then (False, 2)
         else if is_cont (byte_at s 3) then (True, 4) else (False, 3))
      else (False, 1))"

lemma utf8_step_pos: "0 < snd (utf8_step s)"
  by (auto simp: utf8_step_def Let_def)

definition REPLACEMENT :: string where
  "REPLACEMENT = map char_of [239 :: nat, 191, 189]"

function from_utf8_lossy :: "string \<Rightarrow> string" where
  "from_utf8_lossy s =
     (if s = [] then []
      else let (ok, n) = utf8_step s in
           (if ok then take n s else REPLACEMENT) @ from_utf8_lossy (drop n s))"
  by auto
termination
  by (relation "measure length") (auto simp: utf8_step_pos dest: sym intro!: diff_less, metis snd_conv utf8_step_pos)

declare from_utf8_lossy.simps [simp del]

lemma utf8_step_length:
  assumes "s \<noteq> []" "utf8_step s = (True, n)"
  shows "n \<le> length s"
proof -
  have "\<not> is_cont (byte_at s i)" if "length s \<le> i" for i using that by (simp add: byte_at_def is_cont_def)
  then have *: "is_cont (byte_at s i) \<Longrightarrow> i < length s" for i by (metis not_le)
  have "1 \<le> length s" using assms(1) by (cases s) auto
  then show ?thesis using assms(2) *[of "Suc 0"] *[of 2] *[of 3] by (auto simp: utf8_step_def Let_def split: if_splits)
qed

lemma utf8_step_cong:
  assumes "utf8_step s = (True, n)" "\<And>i. i < n \<Longrightarrow> byte_at t i = byte_at s i"
  shows "utf8_step t = (True, n)"
proof -
  have n: "n \<in> {1, 2, 3, 4}" using assms(1) by (auto simp: utf8_step_def Let_def split: if_splits)
  have 0: "byte_at t 0 = byte_at s 0" using n assms(2) by auto
  show ?thesis
  proof (cases "byte_at s 0 < 128")
    case True
    then show ?thesis using assms(1) 0 by (simp add: utf8_step_def Let_def)
  next
    case False
    then have "n > 1" using assms(1) by (auto simp: utf8_step_def Let_def split: if_splits)
    then have 1: "byte_at t (Suc 0) = byte_at s (Suc 0)" using assms(2) by simp
    have 2: "byte_at t 2 = byte_at s 2" if "224 \<le> byte_at s 0"
      using assms that by (auto simp: utf8_step_def Let_def split: if_splits)
    have 3: "byte_at t 3 = byte_at s 3" if "240 \<le> byte_at s 0"
      using assms that by (auto simp: utf8_step_def Let_def split: if_splits)
    have "utf8_step t = utf8_step s"
      by (cases "224 \<le> byte_at s 0"; cases "240 \<le> byte_at s 0") (simp_all add: utf8_step_def 0 1 2 3 Let_def)
    then show ?thesis using assms(1) by simp
  qed
qed

lemma from_utf8_lossy_char:
  assumes "utf8_step s = (True, n)" "n \<le> length s" "s \<noteq> []"
  shows "from_utf8_lossy (take n s @ t) = take n s @ from_utf8_lossy t"
proof -
  have n: "0 < n" using utf8_step_pos [of s] assms(1) by simp
  have "utf8_step (take n s @ t) = (True, n)"
    by (rule utf8_step_cong [OF assms(1)]) (use assms(2) in \<open>simp add: byte_at_def nth_append\<close>)
  moreover have "take n s @ t \<noteq> []" using n assms(3) by simp
  ultimately show ?thesis using assms(2) by (subst from_utf8_lossy.simps) (simp del: append_is_Nil_conv)
qed

lemma utf8_step_replacement: "utf8_step (REPLACEMENT @ t) = (True, 3)"
  by (simp add: REPLACEMENT_def utf8_step_def byte_at_def is_cont_def Let_def)

text \<open>What lossy decoding gives is well-formed: decoding it again changes nothing.\<close>

lemma from_utf8_lossy_idem: "from_utf8_lossy (from_utf8_lossy s) = from_utf8_lossy s"
proof (induction s rule: from_utf8_lossy.induct)
  case (1 s)
  show ?case
  proof (cases "s = []")
    case False
    then have "s \<noteq> []" .
    obtain ok n where step: "utf8_step s = (ok, n)" by fastforce
    have IH: "from_utf8_lossy (from_utf8_lossy (drop n s)) = from_utf8_lossy (drop n s)"
      using "1.IH" [OF False step [symmetric] refl] .
    have s: "from_utf8_lossy s = (if ok then take n s else REPLACEMENT) @ from_utf8_lossy (drop n s)"
      using False by (subst from_utf8_lossy.simps) (simp add: step)
    show ?thesis
    proof (cases ok)
      case True
      then show ?thesis using from_utf8_lossy_char [of s n "from_utf8_lossy (drop n s)"] utf8_step_length [OF \<open>s \<noteq> []\<close>] step s IH \<open>s \<noteq> []\<close> by simp
    next
      case False
      have "from_utf8_lossy (REPLACEMENT @ t) = REPLACEMENT @ from_utf8_lossy t" for t
        using from_utf8_lossy_char [of REPLACEMENT 3 t] utf8_step_replacement [of "[]"] by (simp add: REPLACEMENT_def)
      then show ?thesis using False s IH by simp
    qed
  qed (simp add: from_utf8_lossy.simps)
qed

section \<open>Paths\<close>

text \<open>\<open>Path::with_extension\<close>.\<close>

definition file_stem :: "string \<Rightarrow> string" where
  "file_stem name =
     (let before = rev (tl (dropWhile (\<lambda>c. c \<noteq> CHR ''.'') (rev name))) in
      if CHR ''.'' \<in> set name \<and> before \<noteq> [] then before else name)"

definition with_extension :: "string \<Rightarrow> string \<Rightarrow> string" where
  "with_extension p ext = path_dir p @ file_stem (path_file_name p) @ ''.'' @ ext"

section \<open>Names and files of a job\<close>

definition hex_digit :: "nat \<Rightarrow> char" where
  "hex_digit n = (if n < 10 then char_of (48 + n) else char_of (87 + n))"

definition escape_byte :: "char \<Rightarrow> string" where
  "escape_byte byte =
     (if is_ascii_alphanumeric byte \<or> byte = CHR ''-'' then [byte]
      else [CHR ''_'', hex_digit (of_char byte div 16), hex_digit (of_char byte mod 16)])"

definition unit_name :: "string \<Rightarrow> string \<Rightarrow> string" where
  "unit_name run_id job_id =
     ''roster-'' @ concat (map escape_byte run_id) @ ''-'' @ concat (map escape_byte job_id)"

definition SLICE :: string where "SLICE = ''roster.slice''"

definition EXIT_WRAPPER :: string where
  \<open>EXIT_WRAPPER = ''sh -c "$1"; code=$?; echo $code > "$2.tmp" && mv "$2.tmp" "$2"; exit $code''\<close>

definition exit_path :: "environment \<Rightarrow> string \<Rightarrow> string \<Rightarrow> string option" where
  "exit_path env run_id job_id = map_option (\<lambda>p. with_extension p ''exit'') (job_log_path env run_id job_id)"

section \<open>Polling\<close>

definition read_exit_code :: "machine \<Rightarrow> string \<Rightarrow> i32 option" where
  "read_exit_code m exit_file = do {
     text \<leftarrow> mc_read m exit_file;
     code \<leftarrow> parse_i32 (trim text);
     Some (if 129 \<le> code \<and> code \<le> 192 then - 1 else code) }"

definition in_scope :: "machine \<Rightarrow> u32 \<Rightarrow> string \<Rightarrow> bool" where
  "in_scope m pid unit \<longleftrightarrow>
     pid > 0 \<and> (case mc_read m (''/proc/'' @ dec (unat pid) @ ''/cgroup'') of
                  Some content \<Rightarrow> contains content (''/'' @ unit @ ''.scope'') | None \<Rightarrow> False)"

definition scope_pids :: "machine \<Rightarrow> string \<Rightarrow> u32 list" where
  "scope_pids m unit =
     (case mc_systemctl_show m (unit @ ''.scope'') of
        None \<Rightarrow> []
      | Some out \<Rightarrow>
          let group = trim (from_utf8_lossy out) in
          if group = [] then []
          else List.map_filter (\<lambda>pid. map_option of_nat (parse_uint 32 pid))
                 (str_lines (unwrap_or (mc_read m (''/sys/fs/cgroup'' @ group @ ''/cgroup.procs'')) [])))"

text \<open>A process id is passed to the kernel as a signed number.\<close>

definition poll_child :: "machine \<Rightarrow> u32 \<Rightarrow> executor_error + poll_result" where
  "poll_child m pid =
     (case mc_wait m (sint pid) of
        StillAlive \<Rightarrow> Inr StillRunning
      | ChildExited code \<Rightarrow> Inr (Exited code)
      | ChildSignaled \<Rightarrow> Inr (Exited (- 1))
      | OtherStatus \<Rightarrow> Inr StillRunning
      | NoChild \<Rightarrow> Inr (Exited 0)
      | WaitError e \<Rightarrow> Inl (WaitFailed e))"

definition poll_scope :: "machine \<Rightarrow> u32 \<Rightarrow> string \<Rightarrow> string \<Rightarrow> poll_result \<times> machine_effect list" where
  "poll_scope m pid unit exit_file =
     (if pid > 0 \<and> mc_wait m (sint pid) = StillAlive then (StillRunning, [])
      else case read_exit_code m exit_file of
        Some code \<Rightarrow> (Exited code, [StopUnit unit])
      | None \<Rightarrow>
          if in_scope m pid unit \<or> scope_pids m unit \<noteq> [] then (StillRunning, [])
          else (Exited (- 1), []))"

definition shell_poll :: "machine \<Rightarrow> job_handle \<Rightarrow> (executor_error + poll_result) \<times> machine_effect list" where
  "shell_poll m handle =
     (case (handle_scope handle, handle_exit_file handle) of
        (Some unit, Some exit_file) \<Rightarrow> map_prod Inr (\<lambda>e. e) (poll_scope m (host_pid handle) unit exit_file)
      | _ \<Rightarrow> (poll_child m (host_pid handle), []))"

section \<open>Finding, cancelling, reading the log\<close>

definition shell_find :: "environment \<Rightarrow> machine \<Rightarrow> string \<Rightarrow> string \<Rightarrow> job_handle option option" where
  "shell_find env m run_id job_id =
     (if \<not> mc_scopes m then Some None
      else do {
        exit_file \<leftarrow> exit_path env run_id job_id;
        let unit = unit_name run_id job_id;
        let pids = scope_pids m unit;
        Some (if pids = [] \<and> \<not> mc_exists m exit_file then None
              else Some (job_handle_process (if pids = [] then 0 else Min (set pids)) (Some unit) (Some exit_file))) })"

text \<open>\<open>term_error\<close> is what sending SIGTERM to the process group answers when it fails.\<close>

definition shell_cancel :: "string option \<Rightarrow> job_handle \<Rightarrow> (executor_error + unit) \<times> machine_effect list" where
  "shell_cancel term_error handle =
     (case handle_scope handle of
        Some unit \<Rightarrow> (Inr (), [StopUnit unit])
      | None \<Rightarrow>
          let pgid = sint (host_pid handle) in
          case term_error of
            Some e \<Rightarrow> (Inl (KillFailed e), [])
          | None \<Rightarrow> (Inr (), [SendSignal False pgid, SendSignal True pgid]))"

definition tail_text :: "u64 \<Rightarrow> string \<Rightarrow> string" where
  "tail_text bytes content =
     (let start = length content - unat bytes;
          text = from_utf8_lossy (drop start content) in
      if start = 0 then text
      else CUT_NOTICE @ [newline] @ (case split_once newline text of None \<Rightarrow> [] | Some (_, rest) \<Rightarrow> rest))"

text \<open>\<open>content\<close> is the file, or the message of the failed open or read.\<close>

definition read_tail :: "u64 \<Rightarrow> string + string \<Rightarrow> string + string" where
  "read_tail bytes content = map_sum (\<lambda>e. e) (tail_text bytes) content"

definition shell_tail :: "environment \<Rightarrow> (string \<Rightarrow> string + string) \<Rightarrow> string \<Rightarrow> string \<Rightarrow> u64 \<Rightarrow> (executor_error + string) option" where
  "shell_tail env content run_id job_id bytes =
     map_option (\<lambda>p. map_sum LogReadFailed (\<lambda>t. t) (read_tail bytes (content p))) (job_log_path env run_id job_id)"

section \<open>The program a command starts with\<close>

definition SHELL_WORDS :: "string list" where
  "SHELL_WORDS =
     [''.'', '':'', ''['', ''alias'', ''break'', ''case'', ''cd'', ''command'', ''continue'', ''eval'', ''exec'', ''exit'', ''export'',
      ''for'', ''if'', ''read'', ''readonly'', ''return'', ''set'', ''shift'', ''source'', ''test'', ''time'', ''trap'', ''ulimit'',
      ''umask'', ''unset'', ''until'', ''wait'', ''while'']"

definition EXPANDED_CHARS :: string where
  "EXPANDED_CHARS = ''$`(){}[]*?~;&|<>!#='' @ [CHR 0x27, CHR 0x22, CHR 0x5C]"

definition is_assignment :: "string \<Rightarrow> bool" where
  "is_assignment word =
     (case split_once (CHR ''='') word of
        Some (name, _) \<Rightarrow>
          name \<noteq> [] \<and> (is_ascii_alphabetic (hd name) \<or> hd name = CHR ''_'')
          \<and> list_all (\<lambda>c. is_ascii_alphanumeric c \<or> c = CHR ''_'') name
      | None \<Rightarrow> False)"

definition not_a_file_text :: "string \<Rightarrow> string \<Rightarrow> string" where
  "not_a_file_text program cwd =
     quoted program @ '' is not an executable file (working directory '' @ cwd @ '')''"

definition not_on_path_text :: "string \<Rightarrow> string \<Rightarrow> string" where
  "not_on_path_text program search_path =
     quoted program @ '' not found on PATH '' @ search_path
     @ '' (jobs don'' @ [CHR 0x27] @ ''t read .bashrc; give the program'' @ [CHR 0x27] @ ''s full path)''"

definition check_program :: "machine \<Rightarrow> string \<Rightarrow> string + unit" where
  "check_program m command =
     (let words = split_whitespace command;
          assignments = length (takeWhile is_assignment words) in
      if list_ex (is_prefix ''PATH='') (take assignments words) then Inr ()
      else case drop assignments words of
        [] \<Rightarrow> Inr ()
      | program # _ \<Rightarrow>
          if program \<in> set SHELL_WORDS \<or> list_ex (\<lambda>c. c \<in> set EXPANDED_CHARS) program then Inr ()
          else if CHR ''/'' \<in> set program then
            let cwd = unwrap_or (mc_current_dir m) [] in
            if mc_executable m (path_join cwd program) then Inr () else Inl (not_a_file_text program cwd)
          else
            let search_path = unwrap_or (mc_path m) [] in
            if list_ex (\<lambda>dir. mc_executable m (path_join dir program)) (split_on (\<lambda>c. c = CHR '':'') search_path)
            then Inr () else Inl (not_on_path_text program search_path))"

section \<open>Launching\<close>

record child_command =
  cc_program :: string
  cc_args :: "string list"
  cc_env :: "(string \<times> string) list"
  cc_log :: string

text \<open>
  What setting up the log answers when it fails, step by step, and what spawning the child answers.
\<close>

record launch_answers =
  la_create_dir :: "string \<Rightarrow> string option"
  la_open_log :: "string \<Rightarrow> string option"
  la_clone_log :: "string option"
  la_spawn :: "child_command \<Rightarrow> string + u32"

definition scope_args :: "string \<Rightarrow> string \<Rightarrow> string \<Rightarrow> string list" where
  "scope_args unit command exit_file =
     [''--user'', ''--scope'', ''--quiet'', ''--collect'', ''--slice'', SLICE, ''--unit'', unit,
      ''-p'', ''TimeoutStopSec=5'', ''sh'', ''-c'', EXIT_WRAPPER, ''roster'', command, exit_file]"

definition job_environment :: "machine \<Rightarrow> allocation \<Rightarrow> (string \<times> string) list" where
  "job_environment m placement =
     [(''CUDA_DEVICE_ORDER'', ''PCI_BUS_ID''),
      (''CUDA_VISIBLE_DEVICES'', join '','' (map (\<lambda>g. dec (unat (ga_index g))) (al_gpus placement))),
      (''ROSTER_GPUS'', dec (length (al_gpus placement))),
      (''ROSTER_BIN'', unwrap_or (mc_current_exe m) []),
      (''PYTHONUNBUFFERED'', ''1'')]"

definition job_command :: "machine \<Rightarrow> string \<Rightarrow> string \<Rightarrow> string \<Rightarrow> allocation \<Rightarrow> string \<Rightarrow> child_command" where
  "job_command m unit exit_file command placement log =
     (if mc_scopes m
      then \<lparr>cc_program = ''systemd-run'', cc_args = scope_args unit command exit_file,
            cc_env = job_environment m placement, cc_log = log\<rparr>
      else \<lparr>cc_program = ''sh'', cc_args = [''-c'', command], cc_env = job_environment m placement, cc_log = log\<rparr>)"

text \<open>The second component is the child that was spawned, if one was.\<close>

definition shell_launch :: "environment \<Rightarrow> machine \<Rightarrow> launch_answers \<Rightarrow> string \<Rightarrow> job_instance \<Rightarrow> allocation
    \<Rightarrow> ((executor_error + job_handle) \<times> child_command option) option" where
  "shell_launch env m fs run_id job placement = do {
     found \<leftarrow> shell_find env m run_id (ji_job_id job);
     case found of
       Some handle \<Rightarrow> Some (Inr handle, None)
     | None \<Rightarrow> (case check_program m (js_command (ji_spec job)) of
         Inl reason \<Rightarrow> Some (Inl (Rejected reason), None)
       | Inr _ \<Rightarrow> do {
           log \<leftarrow> job_log_path env run_id (ji_job_id job);
           case la_create_dir fs (path_parent log) of
             Some e \<Rightarrow> Some (Inl (LogSetupFailed e), None)
           | None \<Rightarrow> (case la_open_log fs log of
               Some e \<Rightarrow> Some (Inl (LogSetupFailed e), None)
             | None \<Rightarrow> (case la_clone_log fs of
                 Some e \<Rightarrow> Some (Inl (LogSetupFailed e), None)
               | None \<Rightarrow>
                   let unit = unit_name run_id (ji_job_id job);
                       exit_file = with_extension log ''exit'';
                       child = job_command m unit exit_file (js_command (ji_spec job)) placement log in
                   case la_spawn fs child of
                     Inl e \<Rightarrow> Some (Inl (SpawnFailed e), Some child)
                   | Inr pid \<Rightarrow>
                       Some (Inr (if mc_scopes m then job_handle_process pid (Some unit) (Some exit_file)
                                  else job_handle_process pid None None), Some child))) }) }"

text \<open>
  Whether jobs can run in scopes: the answer of one run of \<open>true\<close> in a scope, kept for good. \<open>run\<close>
  is what starting systemd-run gives: an error, or whether it exited with success.
\<close>

definition SCOPE_PROBE :: "string list" where
  "SCOPE_PROBE = [''--user'', ''--scope'', ''--quiet'', ''true'']"

definition scopes_available :: "(string list \<Rightarrow> string + bool) \<Rightarrow> bool option \<Rightarrow> bool \<times> bool option" where
  "scopes_available run known =
     (case known of
        Some available \<Rightarrow> (available, known)
      | None \<Rightarrow> (let available = (case run SCOPE_PROBE of Inr success \<Rightarrow> success | Inl _ \<Rightarrow> False)
                 in (available, Some available)))"

lemma scopes_available_once:
  "scopes_available run known = (a, known') \<Longrightarrow> scopes_available run' known' = (a, known')"
  by (auto simp: scopes_available_def Let_def split: option.splits)

text \<open>\<open>is_executable\<close> on what \<open>fs::metadata\<close> gives: whether it is a file, and its mode.\<close>

definition is_executable :: "(bool \<times> u32) option \<Rightarrow> bool" where
  "is_executable metadata = (case metadata of Some (is_file, mode) \<Rightarrow> is_file \<and> and mode 73 \<noteq> 0 | None \<Rightarrow> False)"

text \<open>What systemctl is called with to stop a scope.\<close>

definition stop_scope :: "string \<Rightarrow> string list" where
  "stop_scope unit = [''--user'', ''stop'', unit @ ''.scope'']"

text \<open>The memory cap of all jobs together: the arguments of the systemctl call, if one is made.\<close>

definition limit_jobs :: "machine \<Rightarrow> u64 \<Rightarrow> string list option" where
  "limit_jobs m mb =
     (if \<not> mc_scopes m then None
      else Some [''--user'', ''set-property'', ''--runtime'', SLICE,
                 ''MemoryMax='' @ dec (unat mb) @ ''M'', ''MemorySwapMax=0''])"

section \<open>Facts\<close>

lemma hex_digit_inject: "m < 16 \<Longrightarrow> n < 16 \<Longrightarrow> hex_digit m = hex_digit n \<longleftrightarrow> m = n"
proof -
  have val: "(of_char (hex_digit k) :: nat) = (if k < 10 then 48 + k else 87 + k)" if "k < 16" for k
    using that by (simp add: hex_digit_def)
  assume m: "m < 16" and n: "n < 16"
  have "m = n" if eq: "hex_digit m = hex_digit n"
  proof -
    have "(of_char (hex_digit m) :: nat) = of_char (hex_digit n)" using eq by simp
    then have "(if m < 10 then 48 + m else 87 + m) = (if n < 10 then 48 + n else 87 + n)"
      unfolding val [OF m] val [OF n] .
    then show ?thesis using m n by (simp split: if_splits)
  qed
  then show ?thesis by blast
qed

lemma escape_byte_cases:
  "escape_byte c = [c] \<and> c \<noteq> CHR ''_'' \<or> (\<exists>x y. escape_byte c = [CHR ''_'', x, y])"
  by (auto simp: escape_byte_def is_ascii_alphanumeric_def is_ascii_alphabetic_def is_lower_def is_upper_def is_digit_def)

lemma escape_byte_inject: "escape_byte c = escape_byte d \<longleftrightarrow> c = d"
proof -
  have div: "(of_char e :: nat) div 16 < 16" for e :: char
  proof -
    have "(of_char e :: nat) < 256" by simp
    then show ?thesis by linarith
  qed
  have "c = d" if eq: "escape_byte c = escape_byte d"
  proof (cases "length (escape_byte c) = 1")
    case True
    with eq show ?thesis by (simp add: escape_byte_def split: if_splits)
  next
    case False
    then have "hex_digit (of_char c div 16) = hex_digit (of_char d div 16)"
      "hex_digit (of_char c mod 16) = hex_digit (of_char d mod 16)"
      using eq by (simp_all add: escape_byte_def split: if_splits)
    then have "(of_char c :: nat) div 16 = of_char d div 16" "(of_char c :: nat) mod 16 = of_char d mod 16"
      using hex_digit_inject [OF div [of c] div [of d]] hex_digit_inject [of "of_char c mod 16" "of_char d mod 16"]
      by simp_all
    then have "(of_char c :: nat) = of_char d" by (metis div_mult_mod_eq)
    then show ?thesis by simp
  qed
  then show ?thesis by blast
qed

text \<open>The escape is a prefix code, so an id is read back from its escaped form.\<close>

lemma escape_append_inject:
  "concat (map escape_byte r) @ u = concat (map escape_byte r') @ u' \<Longrightarrow>
   length (concat (map escape_byte r)) = length (concat (map escape_byte r')) \<Longrightarrow> r = r' \<and> u = u'"
proof -
  have inj: "concat (map escape_byte a) = concat (map escape_byte b) \<Longrightarrow> a = b" for a b
  proof (induction a arbitrary: b)
    case Nil
    then show ?case by (cases b) (auto simp: escape_byte_def split: if_splits)
  next
    case (Cons x a)
    obtain y b' where b: "b = y # b'"
      using Cons.prems by (cases b) (auto simp: escape_byte_def split: if_splits)
    have eq: "escape_byte x @ concat (map escape_byte a) = escape_byte y @ concat (map escape_byte b')"
      using Cons.prems b by simp
    have "length (escape_byte x) = length (escape_byte y)"
      using eq escape_byte_cases [of x] escape_byte_cases [of y] by auto
    then have "escape_byte x = escape_byte y" "concat (map escape_byte a) = concat (map escape_byte b')"
      using eq by simp_all
    then show ?case using Cons.IH b escape_byte_inject by simp
  qed
  assume "concat (map escape_byte r) @ u = concat (map escape_byte r') @ u'"
    and "length (concat (map escape_byte r)) = length (concat (map escape_byte r'))"
  then show ?thesis using inj by simp
qed

lemma unit_name_inject:
  assumes "unit_name r j = unit_name r' j'"
    and "length (concat (map escape_byte r)) = length (concat (map escape_byte r'))"
  shows "r = r' \<and> j = j'"
proof -
  have "concat (map escape_byte r) @ ''-'' @ concat (map escape_byte j)
      = concat (map escape_byte r') @ ''-'' @ concat (map escape_byte j')"
    using assms(1) by (simp add: unit_name_def)
  from escape_append_inject [OF this assms(2)]
  have r: "r = r'" and j: "concat (map escape_byte j) @ [] = concat (map escape_byte j') @ []" by simp_all
  from escape_append_inject [OF j] j r show ?thesis by simp
qed

text \<open>The separator is a byte of ids too: these two jobs share a unit.\<close>

lemma unit_name_collision: "unit_name ''a-b'' ''c'' = unit_name ''a'' ''b-c''"
  by (simp add: unit_name_def escape_byte_def is_ascii_alphanumeric_def is_ascii_alphabetic_def is_lower_def)

definition is_ascii :: "string \<Rightarrow> bool" where
  "is_ascii s \<longleftrightarrow> (\<forall>c\<in>set s. (of_char c :: nat) < 128)"

lemma from_utf8_lossy_ascii: "is_ascii s \<Longrightarrow> from_utf8_lossy s = s"
proof (induction s)
  case Nil
  then show ?case by (simp add: from_utf8_lossy.simps)
next
  case (Cons c s)
  then have "utf8_step (c # s) = (True, 1)" by (simp add: utf8_step_def byte_at_def is_ascii_def Let_def)
  then show ?case using Cons by (simp add: from_utf8_lossy.simps [of "c # s"] is_ascii_def)
qed

lemma is_ascii_drop: "is_ascii s \<Longrightarrow> is_ascii (drop n s)"
  by (auto simp: is_ascii_def dest: in_set_dropD)

lemma split_once_Some:
  "split_once c s = Some (a, b) \<longleftrightarrow> s = a @ c # b \<and> c \<notin> set a"
proof
  assume eq: "split_once c s = Some (a, b)"
  then have "c \<in> set s" "a = takeWhile (\<lambda>x. x \<noteq> c) s" "b = tl (dropWhile (\<lambda>x. x \<noteq> c) s)"
    by (auto simp: split_once_def split: if_splits)
  then show "s = a @ c # b \<and> c \<notin> set a"
  proof (intro conjI)
    obtain y ys where d: "dropWhile (\<lambda>x. x \<noteq> c) s = y # ys"
      using \<open>c \<in> set s\<close> by (cases "dropWhile (\<lambda>x. x \<noteq> c) s") auto
    then have "y = c" using hd_dropWhile [of "\<lambda>x. x \<noteq> c" s] by simp
    then show "s = a @ c # b"
      using d \<open>a = _\<close> \<open>b = _\<close> takeWhile_dropWhile_id [of "\<lambda>x. x \<noteq> c" s] by simp
    show "c \<notin> set a" using \<open>a = _\<close> set_takeWhileD by fastforce
  qed
next
  assume s: "s = a @ c # b \<and> c \<notin> set a"
  have "c \<notin> set a \<Longrightarrow> takeWhile (\<lambda>x. x \<noteq> c) (a @ c # b) = a \<and> dropWhile (\<lambda>x. x \<noteq> c) (a @ c # b) = c # b"
    by (induction a) auto
  with s show "split_once c s = Some (a, b)" by (simp add: split_once_def)
qed

text \<open>What is read of a log never exceeds what was asked for, beside the notice.\<close>

lemma tail_text_cases:
  assumes "is_ascii content"
  shows "length content \<le> unat bytes \<Longrightarrow> tail_text bytes content = content"
    "unat bytes < length content \<Longrightarrow>
       (\<exists>rest. tail_text bytes content = CUT_NOTICE @ newline # rest \<and> length rest \<le> unat bytes
          \<and> (rest = [] \<or> (\<exists>earlier. content = earlier @ newline # rest)))"
proof -
  let ?start = "length content - unat bytes"
  have lossy: "from_utf8_lossy (drop ?start content) = drop ?start content"
    by (rule from_utf8_lossy_ascii [OF is_ascii_drop [OF assms]])
  show "length content \<le> unat bytes \<Longrightarrow> tail_text bytes content = content"
    using lossy by (simp add: tail_text_def Let_def)
  assume lt: "unat bytes < length content"
  show "\<exists>rest. tail_text bytes content = CUT_NOTICE @ newline # rest \<and> length rest \<le> unat bytes
          \<and> (rest = [] \<or> (\<exists>earlier. content = earlier @ newline # rest))"
  proof (cases "split_once newline (drop ?start content)")
    case None
    then show ?thesis using lt lossy by (intro exI [of _ "[]"]) (simp add: tail_text_def Let_def)
  next
    case (Some p)
    obtain a rest where p: "p = (a, rest)" by (cases p)
    then have d: "drop ?start content = a @ newline # rest" using Some split_once_Some by metis
    then have "content = (take ?start content @ a) @ newline # rest" by (metis append_assoc append_take_drop_id)
    then have "\<exists>earlier. content = earlier @ newline # rest" by blast
    moreover have "length rest \<le> unat bytes"
      using arg_cong [OF d, of length] by simp
    ultimately show ?thesis
      using Some p lt lossy by (intro exI [of _ rest]) (simp add: tail_text_def Let_def)
  qed
qed

lemma shell_launch_found:
  assumes "shell_find env m run_id (ji_job_id job) = Some (Some handle)"
  shows "shell_launch env m fs run_id job placement = Some (Inr handle, None)"
  using assms by (simp add: shell_launch_def)

end
