(* ===== verification/Store.thy ===== *)
theory Store
  imports Shell "HOL-Library.Char_ord" "HOL-Library.List_Lexorder"
begin

text \<open>
  The database of runs and jobs (src/src/store/mod.rs). SQLite is outside the repository; the two
  tables are lists of rows and a statement of the source is the selection or change it writes out:
  a primary key names at most one row, INSERT OR REPLACE puts a new row in place of the one with
  its key, text is ordered by its bytes. Rows a query does not order come in the table's order, on
  which no result here depends. The text forms of times, specs and allocations are chrono's and
  serde's: they are the functions of \<open>codecs\<close>. Failing statements are not modelled.
\<close>

section \<open>The tables\<close>

record codecs =
  cd_time :: "datetime \<Rightarrow> string"
  cd_parse_time :: "string \<Rightarrow> datetime option"
  cd_spec :: "workflow_spec \<Rightarrow> string"
  cd_parse_spec :: "string \<Rightarrow> workflow_spec option"
  cd_allocation :: "allocation \<Rightarrow> string"
  cd_parse_allocation :: "string \<Rightarrow> allocation option"

record run_record =
  rr_run_id :: string
  rr_workflow_name :: string
  rr_created_at :: string
  rr_spec_json :: "string option"

record job_row =
  jr_run_id :: string
  jr_job_id :: string
  jr_state :: string
  jr_exit_code :: "int option"
  jr_started_at :: "string option"
  jr_ended_at :: "string option"
  jr_log_path :: "string option"
  jr_reason :: "string option"

record saved_job =
  sj_row :: job_row
  sj_node :: "string option"
  sj_allocation :: "string option"

record store =
  st_runs :: "run_record list"
  st_jobs :: "saved_job list"

record saved_run =
  sr_run_id :: string
  sr_created_at :: string
  sr_spec_json :: "string option"
  sr_jobs :: "saved_job list"

record run_row =
  rw_run_id :: string
  rw_workflow_name :: string
  rw_status :: string
  rw_created_at :: string

definition job_key :: "saved_job \<Rightarrow> string \<times> string" where
  "job_key j = (jr_run_id (sj_row j), jr_job_id (sj_row j))"

text \<open>The schema: the two tables and the columns later releases added, each only once.\<close>

definition add_column :: "string \<Rightarrow> string \<Rightarrow> (string \<times> string list) list \<Rightarrow> (string \<times> string list) list" where
  "add_column table column =
     hm_modify table (\<lambda>columns. if list_ex (\<lambda>c. c = column) columns then columns else columns @ [column])"

definition create_table :: "string \<Rightarrow> string list \<Rightarrow> (string \<times> string list) list \<Rightarrow> (string \<times> string list) list" where
  "create_table table columns schema =
     (case hm_get schema table of None \<Rightarrow> schema @ [(table, columns)] | Some _ \<Rightarrow> schema)"

definition migrate :: "(string \<times> string list) list \<Rightarrow> (string \<times> string list) list" where
  "migrate schema =
     fold (\<lambda>(table, column). add_column table column)
       [(''runs'', ''spec_json''), (''jobs'', ''node''), (''jobs'', ''allocation''), (''jobs'', ''reason'')]
       (create_table ''jobs'' [''run_id'', ''job_id'', ''state'', ''exit_code'', ''started_at'', ''ended_at'', ''log_path'']
         (create_table ''runs'' [''run_id'', ''workflow_name'', ''created_at''] schema))"

section \<open>Writing\<close>

definition upsert_run :: "codecs \<Rightarrow> workflow_run \<Rightarrow> store \<Rightarrow> store" where
  "upsert_run cd run st =
     st\<lparr>st_runs := filter (\<lambda>r. rr_run_id r \<noteq> wr_run_id run) (st_runs st)
        @ [\<lparr>rr_run_id = wr_run_id run, rr_workflow_name = wr_workflow_name run,
             rr_created_at = cd_time cd (wr_created_at run), rr_spec_json = Some (cd_spec cd (wr_spec run))\<rparr>]\<rparr>"

definition row_of_job :: "codecs \<Rightarrow> string \<Rightarrow> job_instance \<Rightarrow> job_row" where
  "row_of_job cd run_id job =
     \<lparr>jr_run_id = run_id, jr_job_id = ji_job_id job, jr_state = as_str (ji_state job), jr_exit_code = ji_exit_code job,
      jr_started_at = map_option (cd_time cd) (ji_started_at job), jr_ended_at = map_option (cd_time cd) (ji_ended_at job),
      jr_log_path = map_option from_utf8_lossy (ji_log_path job), jr_reason = ji_reason job\<rparr>"

definition upsert_job :: "codecs \<Rightarrow> string \<Rightarrow> job_instance \<Rightarrow> string option \<Rightarrow> store \<Rightarrow> store" where
  "upsert_job cd run_id job node st =
     st\<lparr>st_jobs := filter (\<lambda>j. job_key j \<noteq> (run_id, ji_job_id job)) (st_jobs st)
        @ [\<lparr>sj_row = row_of_job cd run_id job, sj_node = node,
             sj_allocation = (case ji_executions job of [] \<Rightarrow> None | e # _ \<Rightarrow> Some (cd_allocation cd (ex_allocation e)))\<rparr>]\<rparr>"

text \<open>The writes of the daemon, in order.\<close>

fun store_write_apply :: "codecs \<Rightarrow> store_write \<Rightarrow> store \<Rightarrow> store" where
  "store_write_apply cd (UpsertRun run) st = upsert_run cd run st"
| "store_write_apply cd (UpsertJob run_id job node) st = upsert_job cd run_id job node st"

definition interrupt :: "codecs \<Rightarrow> datetime \<Rightarrow> string \<Rightarrow> string \<Rightarrow> store \<Rightarrow> store" where
  "interrupt cd now run_id job_id st =
     st\<lparr>st_jobs := map (\<lambda>j. if job_key j = (run_id, job_id)
        then j\<lparr>sj_row := (sj_row j)\<lparr>jr_state := ''Interrupted'', jr_ended_at := Some (cd_time cd now)\<rparr>,
                sj_node := None, sj_allocation := None\<rparr>
        else j) (st_jobs st)\<rparr>"

section \<open>Reading\<close>

definition jobs_of :: "string \<Rightarrow> store \<Rightarrow> saved_job list" where
  "jobs_of run_id st = filter (\<lambda>j. jr_run_id (sj_row j) = run_id) (st_jobs st)"

definition unfinished_runs :: "store \<Rightarrow> saved_run list" where
  "unfinished_runs st =
     map (\<lambda>r. \<lparr>sr_run_id = rr_run_id r, sr_created_at = rr_created_at r, sr_spec_json = rr_spec_json r,
               sr_jobs = jobs_of (rr_run_id r) st\<rparr>)
       (sort_key rr_created_at
         (filter (\<lambda>r. list_ex (\<lambda>j. jr_state (sj_row j) \<in> {''Pending'', ''Queued'', ''Running''}) (jobs_of (rr_run_id r) st))
           (st_runs st)))"

text \<open>A run with the states of its jobs, folded into its row.\<close>

record run_accumulator =
  ra_run_id :: string
  ra_workflow_name :: string
  ra_created_at :: string
  ra_job_states :: "job_state list"

definition push_state :: "string \<Rightarrow> run_accumulator \<Rightarrow> run_accumulator" where
  "push_state state_str acc =
     acc\<lparr>ra_job_states := ra_job_states acc @ [case from_str state_str of Some state \<Rightarrow> state | None \<Rightarrow> Failed]\<rparr>"

definition into_run_row :: "run_accumulator \<Rightarrow> run_row" where
  "into_run_row acc =
     \<lparr>rw_run_id = ra_run_id acc, rw_workflow_name = ra_workflow_name acc,
      rw_status = run_state_as_str (derive_run_state (ra_job_states acc)), rw_created_at = ra_created_at acc\<rparr>"

text \<open>A row of the left join: a run with one of its jobs' states, or with none when it has no job.\<close>

type_synonym join_row = "run_record \<times> string option"

definition left_join :: "store \<Rightarrow> run_record \<Rightarrow> join_row list" where
  "left_join st r =
     (case jobs_of (rr_run_id r) st of
        [] \<Rightarrow> [(r, None)]
      | js \<Rightarrow> map (\<lambda>j. (r, Some (jr_state (sj_row j)))) js)"

definition accumulator_of :: "run_record \<Rightarrow> run_accumulator" where
  "accumulator_of r =
     \<lparr>ra_run_id = rr_run_id r, ra_workflow_name = rr_workflow_name r, ra_created_at = rr_created_at r, ra_job_states = []\<rparr>"

definition push_joined :: "string option \<Rightarrow> run_accumulator \<Rightarrow> run_accumulator" where
  "push_joined state acc = (case state of Some s \<Rightarrow> push_state s acc | None \<Rightarrow> acc)"

text \<open>The loop over the joined rows: a row of another run closes the current one.\<close>

fun group_rows :: "join_row list \<Rightarrow> run_accumulator option \<Rightarrow> run_row list" where
  "group_rows [] current = (case current of Some finished \<Rightarrow> [into_run_row finished] | None \<Rightarrow> [])"
| "group_rows ((r, state) # rows) current =
     (let is_new_run = (case current of Some acc \<Rightarrow> ra_run_id acc \<noteq> rr_run_id r | None \<Rightarrow> True) in
      if is_new_run then
        (case current of Some finished \<Rightarrow> [into_run_row finished] | None \<Rightarrow> [])
        @ group_rows rows (Some (push_joined state (accumulator_of r)))
      else group_rows rows (map_option (push_joined state) current))"

text \<open>\<open>ORDER BY created_at DESC, run_id\<close>.\<close>

definition newest_first :: "run_record list \<Rightarrow> run_record list" where
  "newest_first rs = rev (sort_key rr_created_at (rev (sort_key rr_run_id rs)))"

definition list_runs :: "store \<Rightarrow> run_row list" where
  "list_runs st = group_rows (concat (map (left_join st) (newest_first (st_runs st)))) None"

definition get_run :: "string \<Rightarrow> store \<Rightarrow> run_row option" where
  "get_run run_id st =
     (case concat (map (left_join st) (filter (\<lambda>r. rr_run_id r = run_id) (st_runs st))) of
        [] \<Rightarrow> None
      | rows \<Rightarrow> Some (into_run_row (fold (\<lambda>(_, state). push_joined state) rows
                   ((accumulator_of (fst (hd rows)))\<lparr>ra_run_id := run_id\<rparr>))))"

definition list_jobs :: "string \<Rightarrow> store \<Rightarrow> job_row list" where
  "list_jobs run_id st = sort_key jr_job_id (map sj_row (jobs_of run_id st))"

section \<open>Facts\<close>

text \<open>The keys of the tables.\<close>

definition store_ok :: "store \<Rightarrow> bool" where
  "store_ok st \<longleftrightarrow> distinct (map rr_run_id (st_runs st)) \<and> distinct (map job_key (st_jobs st))"

lemma upsert_run_ok: "store_ok st \<Longrightarrow> store_ok (upsert_run cd run st)"
  by (auto simp: store_ok_def upsert_run_def distinct_map_filter)

lemma job_key_row_of_job [simp]:
  "job_key \<lparr>sj_row = row_of_job cd run_id job, sj_node = node, sj_allocation = a\<rparr> = (run_id, ji_job_id job)"
  by (simp add: job_key_def row_of_job_def)

lemma upsert_job_ok: "store_ok st \<Longrightarrow> store_ok (upsert_job cd run_id job node st)"
  by (auto simp: store_ok_def upsert_job_def distinct_map_filter)

lemma interrupt_ok: "store_ok st \<Longrightarrow> store_ok (interrupt cd now run_id job_id st)"
proof -
  have "map job_key (st_jobs (interrupt cd now run_id job_id st)) = map job_key (st_jobs st)"
    by (auto simp: interrupt_def job_key_def)
  then show "store_ok st \<Longrightarrow> store_ok (interrupt cd now run_id job_id st)"
    by (simp add: store_ok_def) (simp add: interrupt_def)
qed

lemma store_writes_ok: "store_ok st \<Longrightarrow> store_ok (fold (store_write_apply cd) ws st)"
proof (induction ws arbitrary: st)
  case (Cons w ws)
  then show ?case by (cases w) (auto intro: upsert_run_ok upsert_job_ok)
qed simp

text \<open>The states the rows of a run are read as; one that cannot be read counts as failed.\<close>

definition read_states :: "string \<Rightarrow> store \<Rightarrow> job_state list" where
  "read_states run_id st =
     map (\<lambda>j. case from_str (jr_state (sj_row j)) of Some state \<Rightarrow> state | None \<Rightarrow> Failed) (jobs_of run_id st)"

definition summary_of :: "store \<Rightarrow> run_record \<Rightarrow> run_row" where
  "summary_of st r =
     \<lparr>rw_run_id = rr_run_id r, rw_workflow_name = rr_workflow_name r,
      rw_status = run_state_as_str (derive_run_state (read_states (rr_run_id r) st)), rw_created_at = rr_created_at r\<rparr>"

definition joined_states :: "store \<Rightarrow> run_record \<Rightarrow> string option list" where
  "joined_states st r =
     (case jobs_of (rr_run_id r) st of [] \<Rightarrow> [None] | js \<Rightarrow> map (\<lambda>j. Some (jr_state (sj_row j))) js)"

lemma left_join_states: "left_join st r = map (Pair r) (joined_states st r)"
  by (simp add: left_join_def joined_states_def split: list.splits)

lemma joined_states_nonempty: "joined_states st r \<noteq> []"
  by (simp add: joined_states_def split: list.splits)

lemma push_joined_fields [simp]:
  "ra_run_id (push_joined s acc) = ra_run_id acc"
  "ra_workflow_name (push_joined s acc) = ra_workflow_name acc"
  "ra_created_at (push_joined s acc) = ra_created_at acc"
  by (simp_all add: push_joined_def push_state_def split: option.splits)

lemma fold_push_Some:
  "fold push_joined (map (\<lambda>j. Some (f j)) js) acc =
   acc\<lparr>ra_job_states := ra_job_states acc @ map (\<lambda>j. case from_str (f j) of Some state \<Rightarrow> state | None \<Rightarrow> Failed) js\<rparr>"
  by (induction js arbitrary: acc) (simp_all add: push_joined_def push_state_def)

lemma fold_joined_states:
  "into_run_row (fold push_joined (joined_states st r) (accumulator_of r)) = summary_of st r"
proof -
  have "fold push_joined (joined_states st r) (accumulator_of r) =
      (accumulator_of r)\<lparr>ra_job_states := read_states (rr_run_id r) st\<rparr>"
  proof (cases "jobs_of (rr_run_id r) st")
    case Nil
    then show ?thesis by (simp add: joined_states_def read_states_def push_joined_def accumulator_of_def)
  next
    case (Cons j js)
    then have "joined_states st r = map (\<lambda>j. Some (jr_state (sj_row j))) (jobs_of (rr_run_id r) st)"
      by (simp add: joined_states_def)
    then show ?thesis by (simp only: fold_push_Some) (simp add: read_states_def accumulator_of_def)
  qed
  then show ?thesis by (simp add: into_run_row_def summary_of_def accumulator_of_def)
qed

lemma group_rows_same:
  "ra_run_id acc = rr_run_id r \<Longrightarrow>
   group_rows (map (Pair r) ss @ rows) (Some acc) = group_rows rows (Some (fold push_joined ss acc))"
  by (induction ss arbitrary: acc) simp_all

lemma group_rows_run:
  assumes "\<And>acc. current = Some acc \<Longrightarrow> ra_run_id acc \<noteq> rr_run_id r"
  shows "group_rows (left_join st r @ rows) current =
    (case current of Some finished \<Rightarrow> [into_run_row finished] | None \<Rightarrow> [])
    @ group_rows rows (Some (fold push_joined (joined_states st r) (accumulator_of r)))"
proof -
  obtain s ss where ss: "joined_states st r = s # ss" using joined_states_nonempty by (meson neq_Nil_conv)
  have "ra_run_id (push_joined s (accumulator_of r)) = rr_run_id r" by (simp add: accumulator_of_def)
  note same = group_rows_same [OF this]
  show ?thesis using assms same by (cases current) (simp_all add: left_join_states ss)
qed

lemma group_rows_runs:
  "distinct (map rr_run_id rs) \<Longrightarrow> (\<And>acc. current = Some acc \<Longrightarrow> ra_run_id acc \<notin> rr_run_id ` set rs) \<Longrightarrow>
   group_rows (concat (map (left_join st) rs)) current =
     (case current of Some finished \<Rightarrow> [into_run_row finished] | None \<Rightarrow> []) @ map (summary_of st) rs"
proof (induction rs arbitrary: current)
  case (Cons r rs)
  let ?acc = "fold push_joined (joined_states st r) (accumulator_of r)"
  have id: "ra_run_id ?acc = rr_run_id r"
  proof -
    have "ra_run_id (fold push_joined ss acc) = ra_run_id acc" for ss acc by (induction ss arbitrary: acc) simp_all
    then show ?thesis by (simp add: accumulator_of_def)
  qed
  have "group_rows (concat (map (left_join st) rs)) (Some ?acc) = into_run_row ?acc # map (summary_of st) rs"
    using Cons.IH [of "Some ?acc"] Cons.prems(1) id by simp
  moreover have "\<And>acc. current = Some acc \<Longrightarrow> ra_run_id acc \<noteq> rr_run_id r" using Cons.prems(2) by auto
  note group_rows_run [OF this, where st = st]
  ultimately show ?case by (simp add: fold_joined_states)
qed simp

lemma set_newest_first: "mset (newest_first rs) = mset rs"
  by (simp add: newest_first_def)

lemma list_runs_summaries: "store_ok st \<Longrightarrow> list_runs st = map (summary_of st) (newest_first (st_runs st))"
proof -
  assume ok: "store_ok st"
  have "mset (map rr_run_id (newest_first (st_runs st))) = mset (map rr_run_id (st_runs st))"
    by (simp add: set_newest_first)
  then have "distinct (map rr_run_id (newest_first (st_runs st)))"
    using ok unfolding store_ok_def by (metis mset_eq_imp_distinct_iff)
  from group_rows_runs [OF this, where st = st and current = None] show ?thesis by (simp add: list_runs_def)
qed

lemma filter_key: "distinct (map f xs) \<Longrightarrow> x \<in> set xs \<Longrightarrow> filter (\<lambda>y. f y = f x) xs = [x]"
proof (induction xs)
  case (Cons y ys)
  show ?case
  proof (cases "x = y")
    case True
    have "f z \<noteq> f x" if "z \<in> set ys" for z
      using Cons.prems(1) imageI [OF that, of f] True by fastforce
    then have "filter (\<lambda>z. f z = f x) ys = []" by (simp add: filter_empty_conv)
    then show ?thesis using True by simp
  next
    case False
    then have "f y \<noteq> f x" using Cons.prems by auto
    then show ?thesis using Cons False by simp
  qed
qed simp

lemma get_run_summary:
  assumes ok: "store_ok st" and r: "r \<in> set (st_runs st)"
  shows "get_run (rr_run_id r) st = Some (summary_of st r)"
proof -
  have "filter (\<lambda>r'. rr_run_id r' = rr_run_id r) (st_runs st) = [r]"
    by (rule filter_key) (use ok r in \<open>simp_all add: store_ok_def\<close>)
  then have rows: "concat (map (left_join st) (filter (\<lambda>r'. rr_run_id r' = rr_run_id r) (st_runs st))) = map (Pair r) (joined_states st r)"
    by (simp add: left_join_states)
  obtain s ss where ss: "joined_states st r = s # ss" using joined_states_nonempty by (meson neq_Nil_conv)
  have "fold (\<lambda>(_, state). push_joined state) (map (Pair r) xs) acc = fold push_joined xs acc" for xs acc
    by (induction xs arbitrary: acc) simp_all
  moreover have "(accumulator_of r)\<lparr>ra_run_id := rr_run_id r\<rparr> = accumulator_of r" by (simp add: accumulator_of_def)
  ultimately show ?thesis
    using fold_joined_states [of st r] unfolding get_run_def rows ss by simp
qed

lemma get_run_none: "get_run run_id st = None \<longleftrightarrow> run_id \<notin> rr_run_id ` set (st_runs st)"
proof -
  have "left_join st r \<noteq> []" for r by (simp add: left_join_states joined_states_nonempty)
  then have "concat (map (left_join st) rs) = [] \<longleftrightarrow> rs = []" for rs by (cases rs) simp_all
  moreover have "get_run run_id st = None \<longleftrightarrow>
      concat (map (left_join st) (filter (\<lambda>r. rr_run_id r = run_id) (st_runs st))) = []"
    unfolding get_run_def by (simp only: list.case_eq_if option.simps split: if_split) simp
  ultimately have "get_run run_id st = None \<longleftrightarrow> filter (\<lambda>r. rr_run_id r = run_id) (st_runs st) = []" by blast
  then show ?thesis by (auto simp: filter_empty_conv)
qed

section \<open>What a database holds of a run\<close>

definition record_of_run :: "codecs \<Rightarrow> workflow_run \<Rightarrow> run_record" where
  "record_of_run cd run =
     \<lparr>rr_run_id = wr_run_id run, rr_workflow_name = wr_workflow_name run, rr_created_at = cd_time cd (wr_created_at run),
      rr_spec_json = Some (cd_spec cd (wr_spec run))\<rparr>"

definition holds_run :: "codecs \<Rightarrow> workflow_run \<Rightarrow> store \<Rightarrow> bool" where
  "holds_run cd run st \<longleftrightarrow> record_of_run cd run \<in> set (st_runs st)
     \<and> sj_row ` set (jobs_of (wr_run_id run) st) = (\<lambda>(_, job). row_of_job cd (wr_run_id run) job) ` set (wr_jobs run)"

lemma read_states_holds:
  assumes "holds_run cd run st"
  shows "set (read_states (wr_run_id run) st) = (\<lambda>(_, job). ji_state job) ` set (wr_jobs run)"
proof -
  let ?read = "\<lambda>row. case from_str (jr_state row) of Some state \<Rightarrow> state | None \<Rightarrow> Failed"
  have read: "?read (row_of_job cd r job) = ji_state job" for r job
    by (simp add: row_of_job_def job_state_str.dec_enc)
  have "set (read_states (wr_run_id run) st) = ?read ` (sj_row ` set (jobs_of (wr_run_id run) st))"
    by (auto simp: read_states_def)
  also have "\<dots> = ?read ` ((\<lambda>(_, job). row_of_job cd (wr_run_id run) job) ` set (wr_jobs run))"
    using assms by (simp add: holds_run_def)
  also have "\<dots> = (\<lambda>(_, job). ji_state job) ` set (wr_jobs run)"
    unfolding image_image by (rule image_cong [OF refl]) (simp add: read case_prod_beta')
  finally show ?thesis .
qed

text \<open>
  C24: The listings agree with each other and with the daemon. In a database written by the daemon
  the loop that groups the joined rows lists every run exactly once, newest first, each as the
  query for that run alone gives it; a run is unknown exactly when no row has its id; and a run
  whose rows are up to date is shown with the status its jobs have in memory.
\<close>

theorem listings_agree:
  assumes "st = fold (store_write_apply cd) ws st0" "store_ok st0"
  shows "map Some (list_runs st) = map (\<lambda>r. get_run (rr_run_id r) st) (newest_first (st_runs st))
    \<and> mset (newest_first (st_runs st)) = mset (st_runs st)
    \<and> sorted (map rr_created_at (rev (newest_first (st_runs st))))
    \<and> (get_run run_id st = None \<longleftrightarrow> run_id \<notin> rr_run_id ` set (st_runs st))
    \<and> (holds_run cd run st \<longrightarrow> get_run (wr_run_id run) st =
         Some \<lparr>rw_run_id = wr_run_id run, rw_workflow_name = wr_workflow_name run,
               rw_status = run_state_as_str (run_status run), rw_created_at = cd_time cd (wr_created_at run)\<rparr>)"
proof -
  have ok: "store_ok st" unfolding assms(1) by (rule store_writes_ok [OF assms(2)])
  have runs: "set (newest_first (st_runs st)) = set (st_runs st)"
    using set_newest_first by (metis set_mset_mset)
  have "map Some (list_runs st) = map (\<lambda>r. get_run (rr_run_id r) st) (newest_first (st_runs st))"
    unfolding list_runs_summaries [OF ok] using get_run_summary [OF ok] runs by simp
  moreover have "sorted (map rr_created_at (rev (newest_first (st_runs st))))"
    by (simp add: newest_first_def)
  moreover have "get_run (wr_run_id run) st =
         Some \<lparr>rw_run_id = wr_run_id run, rw_workflow_name = wr_workflow_name run,
               rw_status = run_state_as_str (run_status run), rw_created_at = cd_time cd (wr_created_at run)\<rparr>"
    if holds: "holds_run cd run st"
  proof -
    have "derive_run_state (read_states (wr_run_id run) st) = run_status run"
      unfolding run_status_def using read_states_holds [OF holds]
      by (subst (1 2) derive_run_state_set) simp
    then show ?thesis
      using get_run_summary [OF ok, of "record_of_run cd run"] holds
      by (simp add: holds_run_def record_of_run_def summary_of_def)
  qed
  ultimately show ?thesis using get_run_none set_newest_first by blast
qed

definition demo_times :: codecs where
  "demo_times = \<lparr>cd_time = dec_int, cd_parse_time = parse_i32, cd_spec = (\<lambda>_. []), cd_parse_spec = (\<lambda>_. None),
     cd_allocation = (\<lambda>_. []), cd_parse_allocation = (\<lambda>_. None)\<rparr>"

definition demo_run :: "string \<Rightarrow> datetime \<Rightarrow> workflow_run" where
  "demo_run r now = workflow_run_new now r 0 \<lparr>ws_name = ''w'', ws_jobs =
     [\<lparr>js_id = ''j'', js_command = [], js_depends_on = [], js_resources = resource_spec_default\<rparr>]\<rparr> 0"

definition demo_rows :: "store_write list" where
  "demo_rows = concat (map (\<lambda>run. UpsertRun run # map (\<lambda>(_, job). UpsertJob (wr_run_id run) job None) (wr_jobs run))
     [demo_run ''b'' 5, demo_run ''a'' 7])"

definition demo_store :: store where
  "demo_store = fold (store_write_apply demo_times) demo_rows \<lparr>st_runs = [], st_jobs = []\<rparr>"

lemma demo_store_runs: "st_runs demo_store = map (record_of_run demo_times) [demo_run ''b'' 5, demo_run ''a'' 7]"
  by (simp add: demo_store_def demo_rows_def demo_run_def workflow_run_new_def upsert_run_def upsert_job_def record_of_run_def)

lemma demo_store_order: "map rr_run_id (newest_first (st_runs demo_store)) = [''a'', ''b'']"
proof -
  have times: "dec_int 5 = ''5''" "dec_int 7 = ''7''" by code_simp+
  show ?thesis unfolding demo_store_runs
    by (simp add: newest_first_def record_of_run_def demo_run_def workflow_run_new_def demo_times_def times)
qed

lemma demo_store_holds: "holds_run demo_times (demo_run ''b'' 5) demo_store"
  by (simp add: holds_run_def demo_store_runs) (simp add: demo_store_def demo_rows_def demo_run_def workflow_run_new_def
      upsert_run_def upsert_job_def jobs_of_def row_of_job_def job_instance_new_def job_key_def)

theorem listings_agree_witness:
  "map Some (list_runs demo_store) = map (\<lambda>run_id. get_run run_id demo_store) [''a'', ''b'']
   \<and> map_option rw_status (get_run ''b'' demo_store) = Some ''Pending''"
proof -
  note agree = listings_agree [OF demo_store_def, of "''b''" "demo_run ''b'' 5"]
  have "map Some (list_runs demo_store) = map (\<lambda>r. get_run (rr_run_id r) demo_store) (newest_first (st_runs demo_store))"
    using agree by (simp add: store_ok_def)
  also have "\<dots> = map (\<lambda>run_id. get_run run_id demo_store) (map rr_run_id (newest_first (st_runs demo_store)))"
    by simp
  finally have "map Some (list_runs demo_store) = map (\<lambda>run_id. get_run run_id demo_store) [''a'', ''b'']"
    unfolding demo_store_order .
  moreover have "map_option rw_status (get_run ''b'' demo_store) = Some ''Pending''"
  proof -
    have "wr_run_id (demo_run ''b'' 5) = ''b''" "run_status (demo_run ''b'' 5) = RunPending"
      by (simp_all add: demo_run_def workflow_run_new_def run_status_def job_instance_new_def derive_run_state_def)
    then show ?thesis using agree demo_store_holds by (simp add: store_ok_def run_state_as_str_def)
  qed
  ultimately show ?thesis by blast
qed

end
