(* ===== verification/Recover.thy ===== *)
theory Recover
  imports Store
begin

text \<open>
  Taking runs back after a restart (src/src/daemon/recover.rs). The database is read before the
  scheduler starts; the machine's answers, the clock and the JSON forms are arguments. \<open>None\<close> is a
  panic: a node without a pool, or HOME not set.
\<close>

section \<open>The operations\<close>

fun position :: "('a \<Rightarrow> bool) \<Rightarrow> 'a list \<Rightarrow> nat option" where
  "position p [] = None"
| "position p (x # xs) = (if p x then Some 0 else map_option Suc (position p xs))"

definition restore :: "codecs \<Rightarrow> job_row \<Rightarrow> job_instance \<Rightarrow> job_instance" where
  "restore cd row job =
     job\<lparr>ji_state := (case from_str (jr_state row) of Some state \<Rightarrow> state | None \<Rightarrow> Pending),
         ji_exit_code := map_option as_i32 (jr_exit_code row),
         ji_started_at := Option.bind (jr_started_at row) (cd_parse_time cd),
         ji_ended_at := Option.bind (jr_ended_at row) (cd_parse_time cd),
         ji_log_path := jr_log_path row,
         ji_reason := jr_reason row\<rparr>"

text \<open>The outer \<open>None\<close> is the panic, the inner one an execution that cannot be found again.\<close>

definition reattach :: "codecs \<Rightarrow> environment \<Rightarrow> machine \<Rightarrow> node list \<Rightarrow> string \<Rightarrow> saved_job \<Rightarrow> execution option option" where
  "reattach cd env m ns run_id saved =
     (case position (\<lambda>n. Some (nd_name n) = sj_node saved) ns of
        None \<Rightarrow> Some None
      | Some node \<Rightarrow> (case Option.bind (sj_allocation saved) (cd_parse_allocation cd) of
          None \<Rightarrow> Some None
        | Some allocation \<Rightarrow>
            let job_id = jr_job_id (sj_row saved) in
            map_option (map_option (\<lambda>handle. \<lparr>ex_node = node, ex_allocation = allocation, ex_handle = Some handle\<rparr>))
              (case nd_ssh (ns ! node) of
                 None \<Rightarrow> shell_find env m run_id job_id
               | Some _ \<Rightarrow> Some (Some (job_handle_remote 0 run_id job_id)))))"

text \<open>What the loop over a run's jobs changes: the jobs, the pools, the database.\<close>

record taking_back =
  tb_jobs :: jobs
  tb_pools :: "resource_pool list"
  tb_store :: store

definition take_back_job :: "codecs \<Rightarrow> environment \<Rightarrow> machine \<Rightarrow> datetime \<Rightarrow> node list \<Rightarrow> string \<Rightarrow> saved_job
    \<Rightarrow> taking_back \<Rightarrow> taking_back option" where
  "take_back_job cd env m now ns run_id saved tb =
     (let job_id = jr_job_id (sj_row saved) in
      case hm_get (tb_jobs tb) job_id of
        None \<Rightarrow> Some tb
      | Some fresh \<Rightarrow>
          let job = restore cd (sj_row saved) fresh;
              put = (\<lambda>job. tb\<lparr>tb_jobs := hm_modify job_id (\<lambda>_. job) (tb_jobs tb)\<rparr>) in
          if ji_state job \<noteq> Running then Some (put job)
          else do {
            found \<leftarrow> reattach cd env m ns run_id saved;
            case found of
              Some execution \<Rightarrow> do {
                pool \<leftarrow> vec_get (tb_pools tb) (ex_node execution);
                Some ((put (job\<lparr>ji_executions := [execution]\<rparr>))
                  \<lparr>tb_pools := (tb_pools tb)[ex_node execution := book (ex_allocation execution) pool]\<rparr>) }
            | None \<Rightarrow>
                Some ((put (job\<lparr>ji_state := Interrupted, ji_ended_at := Some now\<rparr>))
                  \<lparr>tb_store := interrupt cd now run_id job_id (tb_store tb)\<rparr>) })"

fun take_back_jobs :: "codecs \<Rightarrow> environment \<Rightarrow> machine \<Rightarrow> datetime \<Rightarrow> node list \<Rightarrow> string \<Rightarrow> saved_job list
    \<Rightarrow> taking_back \<Rightarrow> taking_back option" where
  "take_back_jobs cd env m now ns run_id [] tb = Some tb"
| "take_back_jobs cd env m now ns run_id (saved # rest) tb = do {
     tb' \<leftarrow> take_back_job cd env m now ns run_id saved tb;
     take_back_jobs cd env m now ns run_id rest tb' }"

text \<open>A run stored without its spec: its unfinished jobs end in the database.\<close>

definition interrupt_saved :: "codecs \<Rightarrow> datetime \<Rightarrow> string \<Rightarrow> saved_job list \<Rightarrow> store \<Rightarrow> store" where
  "interrupt_saved cd now run_id js st =
     fold (\<lambda>j st. case from_str (jr_state (sj_row j)) of
              Some state \<Rightarrow> if is_terminal state then st else interrupt cd now run_id (jr_job_id (sj_row j)) st
            | None \<Rightarrow> st) js st"

definition take_back_run :: "codecs \<Rightarrow> environment \<Rightarrow> machine \<Rightarrow> datetime \<Rightarrow> saved_run \<Rightarrow> daemon \<times> store \<Rightarrow> (daemon \<times> store) option" where
  "take_back_run cd env m now saved ds =
     (let (d, st) = ds in
      case Option.bind (sr_spec_json saved) (cd_parse_spec cd) of
        None \<Rightarrow> Some (d, interrupt_saved cd now (sr_run_id saved) (sr_jobs saved) st)
      | Some spec \<Rightarrow>
          let run = workflow_run_new now (sr_run_id saved) (dm_run_counter d) spec (dm_job_counter d);
              run = (case cd_parse_time cd (sr_created_at saved) of
                       Some created_at \<Rightarrow> run\<lparr>wr_created_at := created_at\<rparr> | None \<Rightarrow> run) in
          do {
            tb \<leftarrow> take_back_jobs cd env m now (dm_nodes d) (sr_run_id saved) (sr_jobs saved)
                    \<lparr>tb_jobs = wr_jobs run, tb_pools = dm_pools d, tb_store = st\<rparr>;
            Some (d\<lparr>dm_run_counter := dm_run_counter d + 1,
                    dm_job_counter := dm_job_counter d + of_nat (length (ws_jobs spec)),
                    dm_pools := tb_pools tb,
                    dm_runs := hm_insert (sr_run_id saved) (run\<lparr>wr_jobs := tb_jobs tb\<rparr>) (dm_runs d)\<rparr>, tb_store tb) })"

fun take_back_list :: "codecs \<Rightarrow> environment \<Rightarrow> machine \<Rightarrow> datetime \<Rightarrow> saved_run list \<Rightarrow> daemon \<times> store \<Rightarrow> (daemon \<times> store) option" where
  "take_back_list cd env m now [] ds = Some ds"
| "take_back_list cd env m now (saved # rest) ds = do {
     ds' \<leftarrow> take_back_run cd env m now saved ds;
     take_back_list cd env m now rest ds' }"

definition take_back_runs :: "codecs \<Rightarrow> environment \<Rightarrow> machine \<Rightarrow> datetime \<Rightarrow> daemon \<Rightarrow> store \<Rightarrow> (daemon \<times> store) option" where
  "take_back_runs cd env m now d st = take_back_list cd env m now (unfinished_runs st) (d, st)"

end
