(* ===== verification/Gpu_Checks.thy ===== *)
theory Gpu_Checks
  imports Scheduler
begin

text \<open>
  The scheduler's check of the cards every two seconds and their qualification
  (src/src/scheduler/mod.rs, \<open>check_gpus\<close> and what it calls). \<open>now\<close> is the monotonic clock and
  \<open>utc\<close> the wall clock, both in nanoseconds; the readings of each node are an argument.
\<close>

record qualification =
  qu_node :: nat
  qu_gpu :: u32
  qu_allocation :: allocation
  qu_handle :: job_handle
  qu_started :: datetime

type_synonym card = "nat \<times> u32"

record gpu_checks =
  gc_blocked_since :: "(card \<times> (datetime \<times> bool)) list"
  gc_qualifying :: "qualification list"
  gc_last_qualified :: "(card \<times> datetime) list"

definition gpu_checks_default :: gpu_checks where
  "gpu_checks_default = \<lparr>gc_blocked_since = [], gc_qualifying = [], gc_last_qualified = []\<rparr>"

section \<open>Ending qualifications\<close>

text \<open>
  The qualifications that go on, those that ended, and the reports sent for those past their
  timeout, in order.
\<close>

fun poll_qualifications :: "datetime \<Rightarrow> poller \<Rightarrow> qualification list
    \<Rightarrow> qualification list \<times> qualification list \<times> (nat \<times> request) list" where
  "poll_qualifications now poll [] = ([], [], [])"
| "poll_qualifications now poll (q # qs) =
     (let (kept, ended, sent) = poll_qualifications now poll qs in
      case poll (qu_node q) (qu_handle q) of
        Inr StillRunning \<Rightarrow>
          if now - qu_started q > QUALIFY_TIMEOUT
          then (kept, q # ended,
                (qu_node q, GpuQualified (qu_gpu q) False
                   (''no result within '' @ dec (nat (QUALIFY_TIMEOUT div SECOND) div 60) @ '' minutes'')) # sent)
          else (q # kept, ended, sent)
      | Inl (Unreachable _) \<Rightarrow> (q # kept, ended, sent)
      | _ \<Rightarrow> (kept, q # ended, sent))"

definition release_at :: "nat \<Rightarrow> allocation \<Rightarrow> resource_pool list \<Rightarrow> resource_pool list option" where
  "release_at n alloc pools = do {
     pool \<leftarrow> vec_get pools n;
     pool' \<leftarrow> release alloc pool;
     vec_set pools n pool' }"

fun release_qualifications :: "qualification list \<Rightarrow> resource_pool list \<Rightarrow> resource_pool list option" where
  "release_qualifications [] pools = Some pools"
| "release_qualifications (q # qs) pools = do {
     pools' \<leftarrow> release_at (qu_node q) (qu_allocation q) pools;
     release_qualifications qs pools' }"

definition finish_qualifications :: "datetime \<Rightarrow> poller \<Rightarrow> gpu_checks \<Rightarrow> resource_pool list
    \<Rightarrow> (gpu_checks \<times> resource_pool list \<times> (nat \<times> request) list) option" where
  "finish_qualifications now poll checks pools =
     (let (kept, ended, sent) = poll_qualifications now poll (gc_qualifying checks) in do {
        pools' \<leftarrow> release_qualifications ended pools;
        Some (checks\<lparr>gc_qualifying := kept\<rparr>, pools', sent) })"

section \<open>Checking the cards\<close>

record pending_qualification =
  pq_node :: nat
  pq_gpu :: gpu_info
  pq_retest :: bool
  pq_allocation :: allocation

text \<open>What the loop over cards changes.\<close>

record check_state =
  cs_pool :: resource_pool
  cs_requalify :: "card list"
  cs_blocked_since :: "(card \<times> (datetime \<times> bool)) list"
  cs_to_qualify :: "pending_qualification list"

definition note_blocked :: "datetime \<Rightarrow> card \<Rightarrow> string option \<Rightarrow> (card \<times> (datetime \<times> bool)) list \<Rightarrow> (card \<times> (datetime \<times> bool)) list" where
  "note_blocked now key reason since =
     (case reason of
        None \<Rightarrow> hm_remove key since
      | Some _ \<Rightarrow>
          (let (start, warned) = unwrap_or (hm_get since key) (now, False) in
           hm_insert key (start, warned \<or> now - start \<ge> GPU_BLOCKED_WARN) since))"

definition qualification_due :: "datetime \<Rightarrow> datetime \<Rightarrow> card list \<Rightarrow> (card \<times> datetime) list \<Rightarrow> card \<Rightarrow> gpu_health \<Rightarrow> bool" where
  "qualification_due now utc requalify last_qualified key h \<longleftrightarrow>
     (key \<in> set requalify \<or> (case gh_tested_at h of None \<Rightarrow> True | Some tested \<Rightarrow> utc - tested > QUALIFY_EVERY))
     \<and> \<not> (case hm_get last_qualified key of None \<Rightarrow> False | Some tested \<Rightarrow> now - tested < QUALIFY_SETTLE)
     \<and> \<not> busy h \<and> throttled h = []"

definition check_card :: "datetime \<Rightarrow> datetime \<Rightarrow> bool \<Rightarrow> nat \<Rightarrow> (card \<times> datetime) list \<Rightarrow> gpu_health list \<Rightarrow> gpu_info
    \<Rightarrow> check_state \<Rightarrow> check_state option" where
  "check_card now utc online index last_qualified reading gpu s =
     (let h = find (\<lambda>h. gh_index h = gi_index gpu) reading;
          key = (index, gi_index gpu) in do {
        free \<leftarrow> vec_get (available_vram_mb (cs_pool s)) (unat (gi_index gpu));
        let reason = Option.bind h (\<lambda>h. health_blocked h (free = gi_vram_mb gpu));
        flags \<leftarrow> vec_set (blocked (cs_pool s)) (unat (gi_index gpu)) (reason \<noteq> None);
        let s1 = s\<lparr>cs_pool := (cs_pool s)\<lparr>blocked := flags\<rparr>,
                   cs_blocked_since := note_blocked now key reason (cs_blocked_since s)\<rparr>;
        case h of
          None \<Rightarrow> Some s1
        | Some health \<Rightarrow>
            if qualification_due now utc (cs_requalify s1) last_qualified key health \<and> online
            then do {
              (got, pool') \<leftarrow> reserve_card (gi_index gpu) (cs_pool s1);
              Some (case got of
                      None \<Rightarrow> s1\<lparr>cs_pool := pool'\<rparr>
                    | Some allocation \<Rightarrow>
                        s1\<lparr>cs_pool := pool', cs_requalify := removeAll key (cs_requalify s1),
                           cs_to_qualify := cs_to_qualify s1 @
                             [\<lparr>pq_node = index, pq_gpu = gpu, pq_retest = (quarantined health \<noteq> None),
                               pq_allocation = allocation\<rparr>]\<rparr>) }
            else Some s1 })"

fun check_cards :: "datetime \<Rightarrow> datetime \<Rightarrow> bool \<Rightarrow> nat \<Rightarrow> (card \<times> datetime) list \<Rightarrow> gpu_health list \<Rightarrow> gpu_info list
    \<Rightarrow> check_state \<Rightarrow> check_state option" where
  "check_cards now utc online index last_qualified reading [] s = Some s"
| "check_cards now utc online index last_qualified reading (gpu # gs) s = do {
     s' \<leftarrow> check_card now utc online index last_qualified reading gpu s;
     check_cards now utc online index last_qualified reading gs s' }"

text \<open>An offline node, or one without a reading, has all its cards blocked.\<close>

definition check_node :: "datetime \<Rightarrow> datetime \<Rightarrow> bool \<Rightarrow> nat \<Rightarrow> (card \<times> datetime) list \<Rightarrow> gpu_health list option
    \<Rightarrow> check_state \<Rightarrow> check_state option" where
  "check_node now utc online index last_qualified reading s =
     (case (if online then reading else None) of
        None \<Rightarrow> Some (s\<lparr>cs_pool := (cs_pool s)\<lparr>blocked := map (\<lambda>_. True) (blocked (cs_pool s))\<rparr>\<rparr>)
      | Some r \<Rightarrow> check_cards now utc online index last_qualified r (gpus (total (cs_pool s))) s)"

text \<open>The loop over the nodes, zipped with their readings, under the locks of the pools and of \<open>requalify\<close>.\<close>

fun check_nodes :: "datetime \<Rightarrow> datetime \<Rightarrow> (card \<times> datetime) list \<Rightarrow> nat \<Rightarrow> (bool \<times> gpu_health list option) list
    \<Rightarrow> resource_pool list \<times> card list \<times> (card \<times> (datetime \<times> bool)) list
    \<Rightarrow> (resource_pool list \<times> card list \<times> (card \<times> (datetime \<times> bool)) list \<times> pending_qualification list) option" where
  "check_nodes now utc last_qualified index [] (pools, requalify, since) = Some (pools, requalify, since, [])"
| "check_nodes now utc last_qualified index ((online, reading) # nodes) (pools, requalify, since) = do {
     pool \<leftarrow> vec_get pools index;
     s \<leftarrow> check_node now utc online index last_qualified reading
            \<lparr>cs_pool = pool, cs_requalify = requalify, cs_blocked_since = since, cs_to_qualify = []\<rparr>;
     pools' \<leftarrow> vec_set pools index (cs_pool s);
     (pools'', requalify', since', more) \<leftarrow>
       check_nodes now utc last_qualified (Suc index) nodes (pools', cs_requalify s, cs_blocked_since s);
     Some (pools'', requalify', since', cs_to_qualify s @ more) }"

section \<open>Starting qualifications\<close>

definition qualify_command :: "gpu_info \<Rightarrow> bool \<Rightarrow> string" where
  "qualify_command gpu retest =
     [CHR 0x22] @ ''$ROSTER_BIN'' @ [CHR 0x22] @ '' qualify --index '' @ dec (unat (gi_index gpu))
     @ (if gi_uuid gpu \<noteq> [] then '' --uuid '' @ gi_uuid gpu else [])
     @ (if retest then '' --retest'' else [])"

definition start_qualification :: "launcher \<Rightarrow> string \<Rightarrow> pending_qualification \<Rightarrow> job_handle option" where
  "start_qualification launch run_id p =
     (let job = job_instance_new (job_spec_default\<lparr>js_id := ''gpu'' @ dec (unat (gi_index (pq_gpu p))),
                                                 js_command := qualify_command (pq_gpu p) (pq_retest p)\<rparr>) 0 in
      case launch (pq_node p) run_id job (pq_allocation p) of Inr handle \<Rightarrow> Some handle | Inl _ \<Rightarrow> None)"

definition begin_qualification :: "datetime \<Rightarrow> launcher \<Rightarrow> string \<Rightarrow> pending_qualification \<Rightarrow> gpu_checks \<times> resource_pool list
    \<Rightarrow> (gpu_checks \<times> resource_pool list) option" where
  "begin_qualification now launch run_id p s =
     (let checks = (fst s)\<lparr>gc_last_qualified := hm_insert (pq_node p, gi_index (pq_gpu p)) now (gc_last_qualified (fst s))\<rparr> in
      case start_qualification launch run_id p of
        Some handle \<Rightarrow>
          Some (checks\<lparr>gc_qualifying := gc_qualifying checks @
                  [\<lparr>qu_node = pq_node p, qu_gpu = gi_index (pq_gpu p), qu_allocation = pq_allocation p,
                    qu_handle = handle, qu_started = now\<rparr>]\<rparr>, snd s)
      | None \<Rightarrow> do {
          pools' \<leftarrow> release_at (pq_node p) (pq_allocation p) (snd s);
          Some (checks, pools') })"

fun begin_qualifications :: "datetime \<Rightarrow> launcher \<Rightarrow> (nat \<Rightarrow> string) \<Rightarrow> pending_qualification list
    \<Rightarrow> gpu_checks \<times> resource_pool list \<Rightarrow> (gpu_checks \<times> resource_pool list) option" where
  "begin_qualifications now launch run_id [] s = Some s"
| "begin_qualifications now launch run_id (p # ps) s = do {
     s' \<leftarrow> begin_qualification now launch (run_id (length ps)) p s;
     begin_qualifications now launch run_id ps s' }"

text \<open>
  The readings: this machine's are taken now, another node's are those of its last health check.
\<close>

definition node_reading :: "gpu_health list \<Rightarrow> node \<Rightarrow> gpu_health list option" where
  "node_reading local n =
     (case nd_ssh n of None \<Rightarrow> Some local | Some _ \<Rightarrow> map_option ni_gpu_health (hl_info (nd_health n)))"

definition check_gpus :: "datetime \<Rightarrow> datetime \<Rightarrow> poller \<Rightarrow> launcher \<Rightarrow> (nat \<Rightarrow> string) \<Rightarrow> gpu_health list
    \<Rightarrow> gpu_checks \<times> daemon \<Rightarrow> (gpu_checks \<times> daemon \<times> (nat \<times> request) list) option" where
  "check_gpus now utc poll launch run_id local s = do {
     let d = snd s;
     (checks, pools, sent) \<leftarrow> finish_qualifications now poll (fst s) (dm_pools d);
     (pools', requalify', since', to_qualify) \<leftarrow>
       check_nodes now utc (gc_last_qualified checks) 0 (map (\<lambda>n. (nd_online n, node_reading local n)) (dm_nodes d))
         (pools, dm_requalify d, gc_blocked_since checks);
     (checks', pools'') \<leftarrow> begin_qualifications now launch run_id to_qualify
                             (checks\<lparr>gc_blocked_since := since'\<rparr>, pools');
     Some (checks', d\<lparr>dm_pools := pools'', dm_requalify := requalify'\<rparr>, sent) }"

text \<open>
  One turn of the scheduler's loop (\<open>run\<close>): the cards are checked on every twentieth tick, then the
  tick itself runs. \<open>tick_no\<close> is the loop's counter.
\<close>

definition scheduler_turn :: "nat \<Rightarrow> environment \<Rightarrow> datetime \<Rightarrow> datetime \<Rightarrow> u64 \<Rightarrow> launcher \<Rightarrow> poller \<Rightarrow> tailer \<Rightarrow> (nat \<Rightarrow> string)
    \<Rightarrow> gpu_health list \<Rightarrow> gpu_checks \<times> daemon \<Rightarrow> (gpu_checks \<times> daemon) option" where
  "scheduler_turn tick_no env now utc at launch poll tail run_id local s = do {
     (checks, d) \<leftarrow> (if tick_no mod GPU_CHECK_TICKS = 0
                     then map_option (\<lambda>(checks, d, sent). (checks, d)) (check_gpus now utc poll launch run_id local s)
                     else Some s);
     d' \<leftarrow> tick env now at launch poll tail d;
     Some (checks, d') }"

end
