(* ===== verification/Scheduler_Facts.thy ===== *)
theory Scheduler_Facts
  imports Gpu_Checks
begin

text \<open>
  What the scheduler's operations do to the jobs and to the ledgers of the pools: lemmas about
  changing one job of one run, about the sweeps over all jobs, and about releasing.
\<close>

section \<open>One job of one run\<close>

lemma get_job_modify:
  "get_job (modify_job r j f rs) r' j' =
     (if r' = r \<and> j' = j then map_option f (get_job rs r j) else get_job rs r' j')"
  by (auto simp: get_job_def modify_job_def bind_eq_None_conv split: bind_splits)

text \<open>Well-formed runs: keys are the ids, and each job satisfies \<open>P\<close>.\<close>

definition jobs_ok :: "(job_instance \<Rightarrow> bool) \<Rightarrow> jobs \<Rightarrow> bool" where
  "jobs_ok P js \<longleftrightarrow> hm_wf js \<and> (\<forall>k job. hm_get js k = Some job \<longrightarrow> ji_job_id job = k \<and> P job)"

definition runs_ok :: "(job_instance \<Rightarrow> bool) \<Rightarrow> runs \<Rightarrow> bool" where
  "runs_ok P rs \<longleftrightarrow> hm_wf rs \<and> (\<forall>k run. hm_get rs k = Some run \<longrightarrow> wr_run_id run = k \<and> jobs_ok P (wr_jobs run))"

lemma jobs_ok_modify:
  assumes "jobs_ok P js" "\<And>job. hm_get js j = Some job \<Longrightarrow> ji_job_id (f job) = ji_job_id job \<and> P (f job)"
  shows "jobs_ok P (hm_modify j f js)"
  using assms by (auto simp: jobs_ok_def)

lemma runs_ok_modify:
  assumes "runs_ok P rs" "\<And>job. get_job rs r j = Some job \<Longrightarrow> ji_job_id (f job) = ji_job_id job \<and> P (f job)"
  shows "runs_ok P (modify_job r j f rs)"
  using assms by (auto simp: runs_ok_def modify_job_def get_job_def intro!: jobs_ok_modify)

lemma runs_ok_get:
  assumes "runs_ok P rs" "get_job rs r j = Some job"
  shows "ji_job_id job = j" "P job"
  using assms by (auto simp: runs_ok_def jobs_ok_def get_job_def bind_eq_Some_conv)

lemma runs_ok_run: "runs_ok P rs \<Longrightarrow> (k, run) \<in> set rs \<Longrightarrow> hm_get rs k = Some run \<and> wr_run_id run = k \<and> jobs_ok P (wr_jobs run)"
  using hm_get_in [of rs k run] by (auto simp: runs_ok_def)

lemma jobs_ok_job: "jobs_ok P js \<Longrightarrow> (j, job) \<in> set js \<Longrightarrow> hm_get js j = Some job \<and> ji_job_id job = j \<and> P job"
  using hm_get_in [of js j job] by (auto simp: jobs_ok_def)

section \<open>What the jobs hold\<close>

definition exec_held :: "execution list \<Rightarrow> nat \<Rightarrow> allocation multiset" where
  "exec_held es i = mset (map ex_allocation (filter (\<lambda>e. ex_node e = i) es))"

definition jobs_held :: "jobs \<Rightarrow> nat \<Rightarrow> allocation multiset" where
  "jobs_held js i = sum_list (map (\<lambda>(_, job). exec_held (ji_executions job) i) js)"

definition runs_held :: "runs \<Rightarrow> nat \<Rightarrow> allocation multiset" where
  "runs_held rs i = sum_list (map (\<lambda>(_, run). jobs_held (wr_jobs run) i) rs)"

lemma exec_held_simps [simp]:
  "exec_held [] i = {#}"
  "exec_held (e # es) i = (if ex_node e = i then add_mset (ex_allocation e) (exec_held es i) else exec_held es i)"
  by (simp_all add: exec_held_def)

text \<open>Changing one entry of a map changes a sum over the map by that entry.\<close>

lemma sum_hm_modify:
  fixes g :: "'v \<Rightarrow> 'm::cancel_comm_monoid_add"
  assumes "hm_get m k = Some v"
  shows "sum_list (map (\<lambda>(_, v). g v) (hm_modify k f m)) + g v = sum_list (map (\<lambda>(_, v). g v) m) + g (f v)"
  using assms
proof (induction m)
  case (Cons x m)
  obtain k' u where x: "x = (k', u)" by (cases x)
  show ?case
  proof (cases "k' = k")
    case True
    then show ?thesis using Cons.prems by (simp add: x add.commute add.left_commute)
  next
    case False
    then have "sum_list (map (\<lambda>(_, v). g v) (hm_modify k f m)) + g v = sum_list (map (\<lambda>(_, v). g v) m) + g (f v)"
      using Cons by (simp add: x)
    then show ?thesis using False by (simp add: x add.assoc)
  qed
qed simp

lemma jobs_held_modify:
  "hm_get js j = Some job \<Longrightarrow>
     jobs_held (hm_modify j f js) i + exec_held (ji_executions job) i = jobs_held js i + exec_held (ji_executions (f job)) i"
  unfolding jobs_held_def by (rule sum_hm_modify)

lemma runs_held_modify:
  assumes "get_job rs r j = Some job"
  shows "runs_held (modify_job r j f rs) i + exec_held (ji_executions job) i
    = runs_held rs i + exec_held (ji_executions (f job)) i"
proof -
  obtain run where run: "hm_get rs r = Some run" "hm_get (wr_jobs run) j = Some job"
    using assms by (auto simp: get_job_def bind_eq_Some_conv)
  have "runs_held (modify_job r j f rs) i + jobs_held (wr_jobs run) i
    = runs_held rs i + jobs_held (hm_modify j f (wr_jobs run)) i"
    using sum_hm_modify [OF run(1), of "\<lambda>run. jobs_held (wr_jobs run) i" "\<lambda>run. run\<lparr>wr_jobs := hm_modify j f (wr_jobs run)\<rparr>"]
    by (simp add: runs_held_def modify_job_def)
  moreover note jobs_held_modify [OF run(2), of f i]
  ultimately have "(runs_held (modify_job r j f rs) i + exec_held (ji_executions job) i) + jobs_held (wr_jobs run) i
    = (runs_held rs i + exec_held (ji_executions (f job)) i) + jobs_held (wr_jobs run) i"
    by (simp add: add.assoc add.commute add.left_commute)
  then show ?thesis by (rule add_right_imp_eq)
qed

lemma runs_held_same: "get_job rs r j = Some job \<Longrightarrow> ji_executions (f job) = ji_executions job \<Longrightarrow>
    runs_held (modify_job r j f rs) i = runs_held rs i"
  using runs_held_modify [of rs r j job f i] by simp

lemma runs_held_start: "get_job rs r j = Some job \<Longrightarrow> ji_executions job = [] \<Longrightarrow>
    runs_held (modify_job r j f rs) i = runs_held rs i + exec_held (ji_executions (f job)) i"
  using runs_held_modify [of rs r j job f i] by simp

lemma runs_held_end: "get_job rs r j = Some job \<Longrightarrow> ji_executions (f job) = [] \<Longrightarrow>
    runs_held rs i = runs_held (modify_job r j f rs) i + exec_held (ji_executions job) i"
  using runs_held_modify [of rs r j job f i] by simp

section \<open>The ledgers of all nodes\<close>

definition accounts :: "resource_pool list \<Rightarrow> (nat \<Rightarrow> allocation multiset) \<Rightarrow> bool" where
  "accounts pools H \<longleftrightarrow> (\<forall>i < length pools. ledger (pools ! i) (H i))"

lemma accounts_cong: "(\<And>i. i < length pools \<Longrightarrow> H i = H' i) \<Longrightarrow> accounts pools H = accounts pools H'"
  by (simp add: accounts_def)

lemma accounts_pool: "accounts pools H \<Longrightarrow> i < length pools \<Longrightarrow> ledger (pools ! i) (H i)"
  by (simp add: accounts_def)

lemma release_at_held:
  assumes "accounts pools (\<lambda>i. H i + (if i = n then {#a#} else {#}))" "n < length pools"
  shows "\<exists>pools'. release_at n a pools = Some pools' \<and> accounts pools' H \<and> length pools' = length pools"
proof -
  have "ledger (pools ! n) (add_mset a (H n))" using accounts_pool [OF assms] by simp
  from release_held [OF this] obtain p' where p': "release a (pools ! n) = Some p'" "ledger p' (H n)" by blast
  have "accounts (pools[n := p']) H"
    using assms p' by (auto simp: accounts_def nth_list_update)
  then show ?thesis using assms(2) p' by (simp add: release_at_def)
qed

lemma release_executions_at:
  "release_executions (e # es) pools = Option.bind (release_at (ex_node e) (ex_allocation e) pools) (release_executions es)"
  by (simp add: release_at_def)

lemma release_executions_held:
  assumes "accounts pools (\<lambda>i. H i + exec_held es i)" "\<forall>e \<in> set es. ex_node e < length pools"
  shows "\<exists>pools'. release_executions es pools = Some pools' \<and> accounts pools' H \<and> length pools' = length pools"
  using assms
proof (induction es arbitrary: pools)
  case (Cons e es)
  have "accounts pools (\<lambda>i. (H i + exec_held es i) + (if i = ex_node e then {#ex_allocation e#} else {#}))"
    using Cons.prems(1) by (rule accounts_cong [THEN iffD1, rotated]) auto
  from release_at_held [OF this] Cons.prems(2) obtain pools' where
    p: "release_at (ex_node e) (ex_allocation e) pools = Some pools'" "accounts pools' (\<lambda>i. H i + exec_held es i)"
    "length pools' = length pools" by auto
  from Cons.IH [OF p(2)] Cons.prems(2) p show ?case
    by (auto simp del: release_executions.simps simp add: release_executions_at)
qed simp

section \<open>Sweeps over the jobs\<close>

lemma fst_mark_jobs [simp]: "fst (mark_jobs f r ids js) = fold (\<lambda>j. hm_modify j f) ids js"
proof (induction ids arbitrary: js)
  case (Cons j ids)
  show ?case
  proof (cases "hm_get js j")
    case None
    then show ?thesis using Cons by (simp add: hm_modify_absent)
  next
    case (Some job)
    then show ?thesis using Cons [of "hm_modify j f js"] by (simp add: case_prod_beta' Let_def)
  qed
qed simp

lemma mark_jobs_get:
  assumes "\<And>job. f (f job) = f job"
  shows "hm_get (fold (\<lambda>j. hm_modify j f) ids js) j = (if j \<in> set ids then map_option f (hm_get js j) else hm_get js j)"
  by (induction ids arbitrary: js) (auto simp: option.map_comp comp_def assms)

lemma mark_jobs_ok:
  assumes "jobs_ok P js" "\<And>job. f (f job) = f job" "\<And>job. ji_job_id (f job) = ji_job_id job"
    and "\<And>j job. j \<in> set ids \<Longrightarrow> hm_get js j = Some job \<Longrightarrow> P (f job)"
  shows "jobs_ok P (fold (\<lambda>j. hm_modify j f) ids js)"
  using assms(1,4)
proof (induction ids arbitrary: js)
  case (Cons j ids)
  have "jobs_ok P (hm_modify j f js)"
    using Cons.prems assms(3) by (intro jobs_ok_modify) auto
  then have "jobs_ok P (fold (\<lambda>j. hm_modify j f) ids (hm_modify j f js))"
  proof (rule Cons.IH)
    fix j' job
    assume j': "j' \<in> set ids" "hm_get (hm_modify j f js) j' = Some job"
    then obtain job0 where "hm_get js j' = Some job0" "f job = f job0" using assms(2) by (auto split: if_splits)
    then show "P (f job)" using Cons.prems(2) j'(1) by (metis list.set_intros(2))
  qed
  then show ?case by simp
qed simp

lemma mark_jobs_held:
  assumes "\<And>job. ji_executions (f job) = ji_executions job"
  shows "jobs_held (fold (\<lambda>j. hm_modify j f) ids js) i = jobs_held js i"
proof (induction ids arbitrary: js)
  case (Cons j ids)
  have "jobs_held (hm_modify j f js) i = jobs_held js i"
  proof (cases "hm_get js j")
    case (Some job)
    then show ?thesis using jobs_held_modify [OF Some, of f i] assms by simp
  qed (simp add: hm_modify_absent)
  then show ?case using Cons by simp
qed simp

lemma fst_sweep: "fst (sweep pick f rs) =
    map (\<lambda>(k, run). (k, run\<lparr>wr_jobs := fold (\<lambda>j. hm_modify j f) (pick (wr_jobs run)) (wr_jobs run)\<rparr>)) rs"
  by (induction rs) (auto simp: Let_def case_prod_beta')

lemma hm_get_map_values: "hm_get (map (\<lambda>(k, v). (k, f v)) m) k = map_option f (hm_get m k)"
  by (induction m) auto

lemma sweep_get:
  assumes "\<And>job. f (f job) = f job"
  shows "get_job (fst (sweep pick f rs)) r j =
    (case hm_get rs r of None \<Rightarrow> None
     | Some run \<Rightarrow> if j \<in> set (pick (wr_jobs run)) then map_option f (hm_get (wr_jobs run) j) else hm_get (wr_jobs run) j)"
  by (auto simp: fst_sweep get_job_def hm_get_map_values mark_jobs_get [OF assms] split: option.split)

lemma sweep_ok:
  assumes "runs_ok P rs" "\<And>job. f (f job) = f job" "\<And>job. ji_job_id (f job) = ji_job_id job"
    and "\<And>js j job. j \<in> set (pick js) \<Longrightarrow> jobs_ok P js \<Longrightarrow> hm_get js j = Some job \<Longrightarrow> P (f job)"
  shows "runs_ok P (fst (sweep pick f rs))"
proof -
  have "jobs_ok P (fold (\<lambda>j. hm_modify j f) (pick (wr_jobs run)) (wr_jobs run))" if "hm_get rs k = Some run" for k run
    using assms that by (intro mark_jobs_ok) (auto simp: runs_ok_def)
  moreover have "hm_wf (fst (sweep pick f rs)) = hm_wf rs" by (simp add: hm_wf_def fst_sweep comp_def case_prod_beta')
  moreover have "hm_get (fst (sweep pick f rs)) k =
      map_option (\<lambda>run. run\<lparr>wr_jobs := fold (\<lambda>j. hm_modify j f) (pick (wr_jobs run)) (wr_jobs run)\<rparr>) (hm_get rs k)" for k
    by (simp add: fst_sweep hm_get_map_values)
  ultimately show ?thesis using assms(1) by (auto simp: runs_ok_def)
qed

lemma sweep_held:
  assumes "\<And>job. ji_executions (f job) = ji_executions job"
  shows "runs_held (fst (sweep pick f rs)) i = runs_held rs i"
  by (simp add: fst_sweep runs_held_def comp_def case_prod_beta' mark_jobs_held [OF assms])

section \<open>Admitting and launching\<close>

definition placed_held :: "(nat \<times> allocation) list \<Rightarrow> nat \<Rightarrow> allocation multiset" where
  "placed_held ps i = mset (map snd (filter (\<lambda>m. fst m = i) ps))"

definition tasks_held :: "admit_task list \<Rightarrow> nat \<Rightarrow> allocation multiset" where
  "tasks_held ts i = sum_list (map (\<lambda>t. placed_held (at_placement t) i) ts)"

definition task_key :: "admit_task \<Rightarrow> string \<times> string" where
  "task_key t = (at_run_id t, ji_job_id (at_job_instance t))"

lemma usable_nodes_length [simp]: "length (usable_nodes online job) = length online"
  by (simp add: usable_nodes_def)

lemma usable_nodes_nth: "i < length online \<Longrightarrow> usable_nodes online job ! i = (online ! i \<and> \<not> rejected_by job i)"
  by (simp add: usable_nodes_def nth_enumerate_eq)

text \<open>One member is placed on one online node that has not turned the job down.\<close>

lemma place_one:
  assumes "accounts pools H" "length online = length pools"
  obtains (refused) "place pools (usable_nodes online job) [spec] = Some (None, pools)"
  | (placed) n a pools' where "place pools (usable_nodes online job) [spec] = Some (Some [(n, a)], pools')"
      "n < length pools" "online ! n" "\<not> rejected_by job n" "length pools' = length pools"
      "accounts pools' (\<lambda>i. H i + placed_held [(n, a)] i)" "map total pools' = map total pools"
proof -
  have L: "\<forall>i < length pools. ledger (pools ! i) (H i)" using assms(1) by (simp add: accounts_def)
  have len: "length (usable_nodes online job) = length pools" using assms(2) by simp
  from place_result [OF L len, of "[spec]"] show ?thesis
  proof (elim disjE exE conjE)
    fix ms pools'
    assume ms: "place pools (usable_nodes online job) [spec] = Some (Some ms, pools')" "length ms = length [spec]"
      "length pools' = length pools" "\<forall>m \<in> set ms. fst m < length pools \<and> usable_nodes online job ! fst m"
      and led: "\<forall>i < length pools. ledger (pools' ! i) (H i + mset (map snd (filter (\<lambda>m. fst m = i) ms)))
        \<and> total (pools' ! i) = total (pools ! i) \<and> blocked (pools' ! i) = blocked (pools ! i)"
    obtain n a where m: "ms = [(n, a)]" using ms(2) by (cases ms) auto
    have "map total pools' = map total pools" using led ms(3) by (auto intro: nth_equalityI)
    then show ?thesis using placed ms led m assms(2)
      by (auto simp: accounts_def placed_held_def usable_nodes_nth)
  qed (rule refused)
qed

text \<open>A task of an admission: its job was queued, and it has one place, on an online node that has not turned it down.\<close>

definition task_for :: "bool list \<Rightarrow> jobs \<Rightarrow> admit_task \<Rightarrow> bool" where
  "task_for online js t \<longleftrightarrow>
     (ji_job_id (at_job_instance t), at_job_instance t) \<in> set js \<and> ji_state (at_job_instance t) = Queued
     \<and> (\<exists>n a. at_placement t = [(n, a)] \<and> n < length online \<and> online ! n \<and> \<not> rejected_by (at_job_instance t) n)"

lemma tasks_held_simps [simp]:
  "tasks_held [] i = {#}" "tasks_held (t # ts) i = placed_held (at_placement t) i + tasks_held ts i"
  "tasks_held (ts @ ts') i = tasks_held ts i + tasks_held ts' i"
  by (simp_all add: tasks_held_def)

lemma admit_jobs_result:
  assumes "accounts pools H" "length online = length pools" "hm_wf js" "\<forall>(k, job) \<in> set js. ji_job_id job = k"
  shows "\<exists>ts pools'. admit_jobs online r js pools = Some (ts, pools') \<and> length pools' = length pools
    \<and> accounts pools' (\<lambda>i. H i + tasks_held ts i) \<and> map total pools' = map total pools
    \<and> distinct (map task_key ts) \<and> (\<forall>t \<in> set ts. at_run_id t = r \<and> task_for online js t)"
  using assms
proof (induction js arbitrary: pools H)
  case (Cons x js)
  obtain k job where x: "x = (k, job)" by (cases x)
  have wf: "hm_wf js" "\<forall>(k, job) \<in> set js. ji_job_id job = k" "ji_job_id job = k" "k \<notin> fst ` set js"
    using Cons.prems(3,4) by (auto simp: x hm_wf_def)
  have fresh: "task_for online js t \<Longrightarrow> task_for online (x # js) t \<and> ji_job_id (at_job_instance t) \<noteq> k" for t
    using wf(4) by (auto simp: task_for_def image_iff)
  note IH = Cons.IH [OF _ _ wf(1,2)]
  show ?case
  proof (cases "ji_state job = Queued")
    case False
    then show ?thesis using IH [OF Cons.prems(1,2)] fresh by (force simp: x)
  next
    case True
    show ?thesis
    proof (rule place_one [OF Cons.prems(1,2), of job "js_resources (ji_spec job)"])
      assume "place pools (usable_nodes online job) [js_resources (ji_spec job)] = Some (None, pools)"
      then show ?thesis using IH [OF Cons.prems(1,2)] fresh True by (force simp: x)
    next
      fix n a pools1
      assume p: "place pools (usable_nodes online job) [js_resources (ji_spec job)] = Some (Some [(n, a)], pools1)"
        "n < length pools" "online ! n" "\<not> rejected_by job n" "length pools1 = length pools"
        "accounts pools1 (\<lambda>i. H i + placed_held [(n, a)] i)" "map total pools1 = map total pools"
      have "length online = length pools1" using Cons.prems(2) p(5) by simp
      from IH [OF p(6) this] obtain ts pools' where ts: "admit_jobs online r js pools1 = Some (ts, pools')"
        "length pools' = length pools1" "accounts pools' (\<lambda>i. H i + placed_held [(n, a)] i + tasks_held ts i)"
        "map total pools' = map total pools1" "distinct (map task_key ts)"
        "\<forall>t \<in> set ts. at_run_id t = r \<and> task_for online js t" by blast
      let ?t = "\<lparr>at_run_id = r, at_job_instance = job, at_placement = [(n, a)]\<rparr>"
      have "task_for online (x # js) ?t"
        using True p(2-4) Cons.prems(2) wf(3) by (simp add: task_for_def x)
      moreover have "task_key ?t \<notin> set (map task_key ts)"
        using ts(6) fresh wf(3) by (fastforce simp: task_key_def)
      ultimately show ?thesis using True p ts fresh
        by (intro exI [of _ "?t # ts"] exI [of _ pools']) (auto simp: x add.assoc)
    qed
  qed
qed simp

text \<open>Over all runs. A task's job is then the one its key finds.\<close>

definition admitted :: "bool list \<Rightarrow> runs \<Rightarrow> admit_task \<Rightarrow> bool" where
  "admitted online rs t \<longleftrightarrow>
     get_job rs (at_run_id t) (ji_job_id (at_job_instance t)) = Some (at_job_instance t)
     \<and> ji_state (at_job_instance t) = Queued
     \<and> (\<exists>n a. at_placement t = [(n, a)] \<and> n < length online \<and> online ! n \<and> \<not> rejected_by (at_job_instance t) n)"

lemma admit_runs_result:
  assumes "accounts pools H" "length online = length pools"
    and "hm_wf rs" "\<forall>(k, run) \<in> set rs. wr_run_id run = k \<and> jobs_ok P (wr_jobs run)"
  shows "\<exists>ts pools'. admit_runs online rs pools = Some (ts, pools') \<and> length pools' = length pools
    \<and> accounts pools' (\<lambda>i. H i + tasks_held ts i) \<and> map total pools' = map total pools
    \<and> distinct (map task_key ts) \<and> (\<forall>t \<in> set ts. admitted online rs t)"
  using assms
proof (induction rs arbitrary: pools H)
  case (Cons x rs)
  obtain k run where x: "x = (k, run)" by (cases x)
  have wf: "hm_wf rs" "k \<notin> fst ` set rs" "wr_run_id run = k" "jobs_ok P (wr_jobs run)"
    using Cons.prems(3,4) by (auto simp: x hm_wf_def)
  have js: "hm_wf (wr_jobs run)" "\<forall>(k, job) \<in> set (wr_jobs run). ji_job_id job = k"
    using wf(4) jobs_ok_job [OF wf(4)] by (simp add: jobs_ok_def, blast)
  from admit_jobs_result [OF Cons.prems(1,2) js, of k] obtain ts1 pools1 where
    t1: "admit_jobs online k (wr_jobs run) pools = Some (ts1, pools1)" "length pools1 = length pools"
      "accounts pools1 (\<lambda>i. H i + tasks_held ts1 i)" "map total pools1 = map total pools" "distinct (map task_key ts1)"
      "\<forall>t \<in> set ts1. at_run_id t = k \<and> task_for online (wr_jobs run) t" by blast
  have "length online = length pools1" using Cons.prems(2) t1(2) by simp
  from Cons.IH [OF t1(3) this wf(1)] Cons.prems(4) obtain ts2 pools2 where
    t2: "admit_runs online rs pools1 = Some (ts2, pools2)" "length pools2 = length pools1"
      "accounts pools2 (\<lambda>i. H i + tasks_held ts1 i + tasks_held ts2 i)" "map total pools2 = map total pools1"
      "distinct (map task_key ts2)" "\<forall>t \<in> set ts2. admitted online rs t" by auto
  have here: "admitted online (x # rs) t" if "t \<in> set ts1" for t
    using t1(6) that jobs_ok_job [OF wf(4)] by (auto simp: admitted_def task_for_def get_job_def x)
  have there: "admitted online (x # rs) t \<and> at_run_id t \<noteq> k" if "t \<in> set ts2" for t
    using t2(6) that wf(2) by (force simp: admitted_def get_job_def x bind_eq_Some_conv dest: map_of_SomeD)
  have "set (map task_key ts1) \<inter> set (map task_key ts2) = {}"
    using t1(6) there by (fastforce simp: task_key_def)
  then show ?case using t1 t2 here there wf(3)
    by (intro exI [of _ "ts1 @ ts2"] exI [of _ pools2]) (auto simp: x add.assoc)
qed simp

text \<open>Launching keeps what was placed, as the executions of one outcome per task.\<close>

definition outcomes_held :: "launch_outcome list \<Rightarrow> nat \<Rightarrow> allocation multiset" where
  "outcomes_held os i = sum_list (map (\<lambda>out. exec_held (lo_executions out) i) os)"

definition outcome_key :: "launch_outcome \<Rightarrow> string \<times> string" where
  "outcome_key out = (lo_run_id out, lo_job_id out)"

lemma outcomes_held_simps [simp]:
  "outcomes_held [] i = {#}" "outcomes_held (out # os) i = exec_held (lo_executions out) i + outcomes_held os i"
  by (simp_all add: outcomes_held_def)

definition launched_ok :: "nat \<Rightarrow> launch_outcome \<Rightarrow> bool" where
  "launched_ok n out \<longleftrightarrow>
     (\<exists>e. lo_executions out = [e] \<and> ex_node e < n \<and> (lo_result out = Inr () \<longrightarrow> ex_handle e \<noteq> None))"

lemma launch_task_one:
  assumes "at_placement t = [(n, a)]"
  shows "lo_run_id (launch_task launch t) = at_run_id t"
    "lo_job_id (launch_task launch t) = ji_job_id (at_job_instance t)"
    "\<exists>h. lo_executions (launch_task launch t) = [\<lparr>ex_node = n, ex_allocation = a, ex_handle = h\<rparr>]
       \<and> (lo_result (launch_task launch t) = Inr () \<longrightarrow> h \<noteq> None)"
  by (cases "launch n (at_run_id t) (at_job_instance t) a"; simp add: launch_task_def assms)+

lemma launch_task_held:
  "at_placement t = [(n, a)] \<Longrightarrow> exec_held (lo_executions (launch_task launch t)) i = placed_held (at_placement t) i"
  using launch_task_one(3) [of t n a launch] by (auto simp: placed_held_def)

lemma launch_task_ok:
  "at_placement t = [(n, a)] \<Longrightarrow> n < m \<Longrightarrow> launched_ok m (launch_task launch t)"
  using launch_task_one(3) [of t n a launch] by (auto simp: launched_ok_def)

lemma outcome_key_launch: "outcome_key (launch_task launch t) = task_key t"
  by (simp add: outcome_key_def task_key_def launch_task_def case_prod_beta' Let_def)

end
