(* ===== verification/Gpu_Facts.thy ===== *)
theory Gpu_Facts
  imports Scheduler_Facts
begin

text \<open>
  What the check of the cards and their qualification do to the pools: which cards are blocked
  afterwards, and that every card a test holds is in the ledger of its node.
\<close>

definition pend_held :: "pending_qualification list \<Rightarrow> nat \<Rightarrow> allocation multiset" where
  "pend_held ps i = mset (map pq_allocation (filter (\<lambda>p. pq_node p = i) ps))"

definition quals_held :: "qualification list \<Rightarrow> nat \<Rightarrow> allocation multiset" where
  "quals_held qs i = mset (map qu_allocation (filter (\<lambda>q. qu_node q = i) qs))"

lemma test_held_simps [simp]:
  "pend_held [] i = {#}"
  "pend_held (p # ps) i = (if pq_node p = i then {#pq_allocation p#} else {#}) + pend_held ps i"
  "pend_held (ps @ ps') i = pend_held ps i + pend_held ps' i"
  "quals_held [] i = {#}"
  "quals_held (q # qs) i = (if qu_node q = i then {#qu_allocation q#} else {#}) + quals_held qs i"
  "quals_held (qs @ qs') i = quals_held qs i + quals_held qs' i"
  by (simp_all add: pend_held_def quals_held_def)

section \<open>One card\<close>

text \<open>What a reading says of a card with \<open>free\<close> MB not booked: whether it is kept from new jobs.\<close>

definition card_verdict :: "gpu_health list \<Rightarrow> gpu_info \<Rightarrow> u64 \<Rightarrow> bool" where
  "card_verdict reading gpu free \<longleftrightarrow>
     (case find (\<lambda>h. gh_index h = gi_index gpu) reading of
        None \<Rightarrow> False | Some h \<Rightarrow> health_blocked h (free = gi_vram_mb gpu) \<noteq> None)"

lemma reserve_card_other:
  assumes "reserve_card i p = Some (r, p')" "c \<noteq> unat i"
  shows "available_vram_mb p' ! c = available_vram_mb p ! c"
  using assms by (auto simp: reserve_card_def vec_set_def split: option.splits if_splits bind_splits)

lemma reserve_card_free:
  assumes "reserve_card i p = Some (Some a, p')"
  shows "\<exists>gpu. find (\<lambda>gpu. gi_index gpu = i) (gpus (total p)) = Some gpu \<and> gi_vram_mb gpu \<noteq> 0
    \<and> unat i < length (available_vram_mb p) \<and> available_vram_mb p ! unat i = gi_vram_mb gpu"
  using assms by (auto simp: reserve_card_def vec_get_def split: option.splits if_splits bind_splits)

text \<open>
  A test is due for a card that nothing runs on, on an online node: it is asked for or its last
  is a day old.
\<close>

definition pending_ok :: "nat \<Rightarrow> bool \<Rightarrow> gpu_health list \<Rightarrow> gpu_info list \<Rightarrow> pending_qualification \<Rightarrow> bool" where
  "pending_ok index online reading gs p \<longleftrightarrow>
     pq_node p = index \<and> online \<and> pq_gpu p \<in> set gs
     \<and> (\<exists>h \<in> set reading. gh_index h = gi_index (pq_gpu p) \<and> \<not> busy h \<and> throttled h = []
          \<and> pq_retest p = (quarantined h \<noteq> None))"

lemma find_Some_in: "find P xs = Some x \<Longrightarrow> x \<in> set xs \<and> P x"
  by (induction xs) (auto split: if_splits)

lemma check_card_result:
  assumes L: "ledger (cs_pool s) H" and g: "gpu \<in> set (gpus (total (cs_pool s)))"
  shows "\<exists>s' new. check_card now utc online index last_q reading gpu s = Some s'
    \<and> cs_to_qualify s' = cs_to_qualify s @ new \<and> ledger (cs_pool s') (H + pend_held new index)
    \<and> total (cs_pool s') = total (cs_pool s)
    \<and> blocked (cs_pool s') = (blocked (cs_pool s))[unat (gi_index gpu) :=
         card_verdict reading gpu (available_vram_mb (cs_pool s) ! unat (gi_index gpu))]
    \<and> (\<forall>c. c \<noteq> unat (gi_index gpu) \<longrightarrow> available_vram_mb (cs_pool s') ! c = available_vram_mb (cs_pool s) ! c)
    \<and> (\<forall>p \<in> set new. pending_ok index online reading (gpus (total (cs_pool s))) p)"
proof -
  let ?p = "cs_pool s" and ?i = "unat (gi_index gpu)" and ?key = "(index, gi_index gpu)"
  have i: "?i < length (gpus (total ?p))" "?i < length (available_vram_mb ?p)" "?i < length (blocked ?p)"
    using L dense_in_range [OF _ g] by (auto simp: ledger_def pool_shape_def)
  let ?h = "find (\<lambda>h. gh_index h = gi_index gpu) reading"
  let ?reason = "Option.bind ?h (\<lambda>h. health_blocked h (available_vram_mb ?p ! ?i = gi_vram_mb gpu))"
  have v: "(?reason \<noteq> None) = card_verdict reading gpu (available_vram_mb ?p ! ?i)"
    by (cases ?h) (auto simp: card_verdict_def)
  let ?p1 = "?p\<lparr>blocked := (blocked ?p)[?i := card_verdict reading gpu (available_vram_mb ?p ! ?i)]\<rparr>"
  let ?s1 = "s\<lparr>cs_pool := ?p1, cs_blocked_since := note_blocked now ?key ?reason (cs_blocked_since s)\<rparr>"
  have L1: "ledger ?p1 H" using L by (intro ledger_set_blocked) auto
  show ?thesis
  proof (cases "\<exists>h. ?h = Some h \<and> qualification_due now utc (cs_requalify s) last_q ?key h \<and> online")
    case False
    then have "check_card now utc online index last_q reading gpu s = Some ?s1"
      using i v by (auto simp: check_card_def Let_def split: option.splits)
    then show ?thesis using L1 by (intro exI [of _ ?s1] exI [of _ "[]"]) simp
  next
    case True
    then obtain h where h: "?h = Some h" "qualification_due now utc (cs_requalify s) last_q ?key h" "online" by blast
    from reserve_card_ledger [OF L1, of "gi_index gpu"] show ?thesis
    proof (elim disjE exE conjE)
      assume r: "reserve_card (gi_index gpu) ?p1 = Some (None, ?p1)"
      then have "check_card now utc online index last_q reading gpu s = Some ?s1"
        using i v h by (simp add: check_card_def Let_def)
      then show ?thesis using L1 by (intro exI [of _ ?s1] exI [of _ "[]"]) simp
    next
      fix a p'
      assume r: "reserve_card (gi_index gpu) ?p1 = Some (Some a, p')" "ledger p' (add_mset a H)"
        "total p' = total ?p1" "blocked p' = blocked ?p1"
      let ?new = "\<lparr>pq_node = index, pq_gpu = gpu, pq_retest = (quarantined h \<noteq> None), pq_allocation = a\<rparr>"
      let ?s2 = "?s1\<lparr>cs_pool := p', cs_requalify := removeAll ?key (cs_requalify s),
        cs_to_qualify := cs_to_qualify s @ [?new]\<rparr>"
      have "check_card now utc online index last_q reading gpu s = Some ?s2"
        using i v h r(1) by (simp add: check_card_def Let_def)
      moreover have "pending_ok index online reading (gpus (total ?p)) ?new"
        using find_Some_in [OF h(1)] h g by (auto simp: pending_ok_def qualification_due_def)
      ultimately show ?thesis using r reserve_card_other [OF r(1)]
        by (intro exI [of _ ?s2] exI [of _ "[?new]"]) simp
    qed
  qed
qed

section \<open>One node\<close>

lemma check_cards_result:
  assumes "ledger (cs_pool s) H" "set gs \<subseteq> set (gpus (total (cs_pool s)))" "distinct (map gi_index gs)"
  shows "\<exists>s' new. check_cards now utc online index last_q reading gs s = Some s'
    \<and> cs_to_qualify s' = cs_to_qualify s @ new \<and> ledger (cs_pool s') (H + pend_held new index)
    \<and> total (cs_pool s') = total (cs_pool s)
    \<and> (\<forall>gpu \<in> set gs. blocked (cs_pool s') ! unat (gi_index gpu) =
         card_verdict reading gpu (available_vram_mb (cs_pool s) ! unat (gi_index gpu)))
    \<and> (\<forall>c. c \<notin> (\<lambda>gpu. unat (gi_index gpu)) ` set gs \<longrightarrow> blocked (cs_pool s') ! c = blocked (cs_pool s) ! c)
    \<and> (\<forall>p \<in> set new. pending_ok index online reading (gpus (total (cs_pool s))) p)"
  using assms
proof (induction gs arbitrary: s H)
  case Nil
  then show ?case by (intro exI [of _ s] exI [of _ "[]"]) simp
next
  case (Cons gpu gs)
  let ?i = "unat (gi_index gpu)"
  have g: "gpu \<in> set (gpus (total (cs_pool s)))" using Cons.prems(2) by simp
  have len: "?i < length (blocked (cs_pool s))"
    using Cons.prems(1) dense_in_range [OF _ g] by (auto simp: ledger_def pool_shape_def)
  from check_card_result [OF Cons.prems(1) g] obtain s1 new1 where
    s1: "check_card now utc online index last_q reading gpu s = Some s1"
      "cs_to_qualify s1 = cs_to_qualify s @ new1" "ledger (cs_pool s1) (H + pend_held new1 index)"
      "total (cs_pool s1) = total (cs_pool s)"
      "blocked (cs_pool s1) = (blocked (cs_pool s))[?i := card_verdict reading gpu (available_vram_mb (cs_pool s) ! ?i)]"
      "\<forall>c. c \<noteq> ?i \<longrightarrow> available_vram_mb (cs_pool s1) ! c = available_vram_mb (cs_pool s) ! c"
      "\<forall>p \<in> set new1. pending_ok index online reading (gpus (total (cs_pool s))) p" by blast
  have "set gs \<subseteq> set (gpus (total (cs_pool s1)))" "distinct (map gi_index gs)"
    using Cons.prems(2,3) s1(4) by auto
  from Cons.IH [OF s1(3) this] obtain s2 new2 where
    s2: "check_cards now utc online index last_q reading gs s1 = Some s2"
      "cs_to_qualify s2 = cs_to_qualify s1 @ new2" "ledger (cs_pool s2) (H + pend_held new1 index + pend_held new2 index)"
      "total (cs_pool s2) = total (cs_pool s1)"
      "\<forall>gpu \<in> set gs. blocked (cs_pool s2) ! unat (gi_index gpu) =
         card_verdict reading gpu (available_vram_mb (cs_pool s1) ! unat (gi_index gpu))"
      "\<forall>c. c \<notin> (\<lambda>gpu. unat (gi_index gpu)) ` set gs \<longrightarrow> blocked (cs_pool s2) ! c = blocked (cs_pool s1) ! c"
      "\<forall>p \<in> set new2. pending_ok index online reading (gpus (total (cs_pool s1))) p" by blast
  have other: "unat (gi_index x) \<noteq> ?i" if "x \<in> set gs" for x
    using Cons.prems(3) image_eqI [OF refl that, of gi_index] by (auto simp: word_unat_eq_iff [symmetric])
  then have here: "?i \<notin> (\<lambda>gpu. unat (gi_index gpu)) ` set gs" by (force simp: image_iff)
  have flags: "blocked (cs_pool s2) ! unat (gi_index x) =
      card_verdict reading x (available_vram_mb (cs_pool s) ! unat (gi_index x))" if "x \<in> set (gpu # gs)" for x
  proof (cases "x = gpu")
    case True
    then show ?thesis using s2(6) here s1(5) len by simp
  next
    case False
    then have "x \<in> set gs" using that by simp
    then show ?thesis using s2(5) s1(6) other by simp
  qed
  have rest: "blocked (cs_pool s2) ! c = blocked (cs_pool s) ! c" if "c \<notin> (\<lambda>gpu. unat (gi_index gpu)) ` set (gpu # gs)" for c
    using that s2(6) s1(5) by simp
  have "check_cards now utc online index last_q reading (gpu # gs) s = Some s2"
    "cs_to_qualify s2 = cs_to_qualify s @ new1 @ new2" "ledger (cs_pool s2) (H + pend_held (new1 @ new2) index)"
    "total (cs_pool s2) = total (cs_pool s)"
    "\<forall>p \<in> set (new1 @ new2). pending_ok index online reading (gpus (total (cs_pool s))) p"
    using s1(1,2,4,7) s2(1-4,7) by (simp_all add: add.assoc ball_Un)
  with flags rest show ?case by blast
qed

text \<open>What blocks a card of a node at a check.\<close>

definition blocks :: "bool \<Rightarrow> gpu_health list option \<Rightarrow> resource_pool \<Rightarrow> gpu_info \<Rightarrow> bool" where
  "blocks online reading pool gpu \<longleftrightarrow>
     (case (if online then reading else None) of
        Some r \<Rightarrow> card_verdict r gpu (available_vram_mb pool ! unat (gi_index gpu))
      | None \<Rightarrow> True)"

lemma check_node_result:
  assumes L: "ledger (cs_pool s) H" and empty: "cs_to_qualify s = []"
  shows "\<exists>s'. check_node now utc online index last_q reading s = Some s'
    \<and> ledger (cs_pool s') (H + pend_held (cs_to_qualify s') index) \<and> total (cs_pool s') = total (cs_pool s)
    \<and> (\<forall>gpu \<in> set (gpus (total (cs_pool s))). blocked (cs_pool s') ! unat (gi_index gpu)
         = blocks online reading (cs_pool s) gpu)
    \<and> (\<forall>p \<in> set (cs_to_qualify s'). \<exists>r. reading = Some r \<and> pending_ok index online r (gpus (total (cs_pool s))) p)"
proof (cases "if online then reading else None")
  case None
  let ?s = "s\<lparr>cs_pool := (cs_pool s)\<lparr>blocked := map (\<lambda>_. True) (blocked (cs_pool s))\<rparr>\<rparr>"
  have "unat (gi_index g) < length (blocked (cs_pool s))" if "g \<in> set (gpus (total (cs_pool s)))" for g
    using L dense_in_range [OF _ that] by (auto simp: ledger_def pool_shape_def)
  then show ?thesis using None ledger_set_blocked [OF L, of "map (\<lambda>_. True) (blocked (cs_pool s))"] empty
    by (intro exI [of _ ?s]) (auto simp: check_node_def blocks_def split: if_splits)
next
  case (Some r)
  then have on: "online" "reading = Some r" by (auto split: if_splits)
  have "dense (gpus (total (cs_pool s)))" using L by (simp add: ledger_def pool_shape_def)
  then have "distinct (map gi_index (gpus (total (cs_pool s))))"
    using dense_ids_distinct by (auto simp: distinct_map inj_on_def)
  from check_cards_result [OF L subset_refl this] show ?thesis
    using on empty by (fastforce simp: check_node_def blocks_def)
qed

section \<open>All nodes\<close>

definition pending_at :: "nat \<Rightarrow> (bool \<times> gpu_health list option) list \<Rightarrow> resource_pool list \<Rightarrow> pending_qualification \<Rightarrow> bool" where
  "pending_at index nodes pools p \<longleftrightarrow>
     index \<le> pq_node p \<and> pq_node p < index + length nodes
     \<and> (\<exists>online r. nodes ! (pq_node p - index) = (online, Some r)
          \<and> pending_ok (pq_node p) online r (gpus (total (pools ! pq_node p))) p)"

lemma pending_at_Suc:
  assumes "pending_at (Suc index) nodes pools p" "total (pools ! pq_node p) = total (pools' ! pq_node p)"
  shows "pending_at index (x # nodes) pools' p"
proof -
  have "pq_node p - index = Suc (pq_node p - Suc index)" using assms(1) by (auto simp: pending_at_def)
  then show ?thesis using assms by (auto simp: pending_at_def)
qed

lemma check_nodes_result:
  assumes "accounts pools H" "index + length nodes \<le> length pools"
  shows "\<exists>pools' rq' since' pend. check_nodes now utc last_q index nodes (pools, rq, since) = Some (pools', rq', since', pend)
    \<and> length pools' = length pools \<and> accounts pools' (\<lambda>i. H i + pend_held pend i) \<and> map total pools' = map total pools
    \<and> (\<forall>i < length pools. i < index \<longrightarrow> pools' ! i = pools ! i)
    \<and> (\<forall>k < length nodes. \<forall>gpu \<in> set (gpus (total (pools ! (index + k)))).
         blocked (pools' ! (index + k)) ! unat (gi_index gpu)
         = blocks (fst (nodes ! k)) (snd (nodes ! k)) (pools ! (index + k)) gpu)
    \<and> (\<forall>p \<in> set pend. pending_at index nodes pools p)"
  using assms
proof (induction nodes arbitrary: index pools H rq since)
  case Nil
  then show ?case by simp
next
  case (Cons x nodes)
  obtain online reading where x: "x = (online, reading)" by (cases x)
  have i: "index < length pools" using Cons.prems(2) by simp
  let ?s = "\<lparr>cs_pool = pools ! index, cs_requalify = rq, cs_blocked_since = since, cs_to_qualify = []\<rparr>"
  have "ledger (cs_pool ?s) (H index)" using accounts_pool [OF Cons.prems(1) i] by simp
  from check_node_result [OF this] obtain s where
    s: "check_node now utc online index last_q reading ?s = Some s"
      "ledger (cs_pool s) (H index + pend_held (cs_to_qualify s) index)" "total (cs_pool s) = total (pools ! index)"
      "\<forall>gpu \<in> set (gpus (total (pools ! index))). blocked (cs_pool s) ! unat (gi_index gpu) = blocks online reading (pools ! index) gpu"
      "\<forall>p \<in> set (cs_to_qualify s). \<exists>r. reading = Some r \<and> pending_ok index online r (gpus (total (pools ! index))) p"
    by (simp, blast)
  let ?new = "cs_to_qualify s" and ?pools1 = "pools[index := cs_pool s]"
  have "pend_held ?new i = {#}" if "i \<noteq> index" for i
    using s(5) that by (auto simp: pend_held_def pending_ok_def filter_empty_conv)
  then have acc: "accounts ?pools1 (\<lambda>i. H i + pend_held ?new i)"
    unfolding accounts_def
  proof (intro allI impI)
    fix i assume "i < length ?pools1"
    then show "ledger (?pools1 ! i) (H i + pend_held ?new i)"
      using Cons.prems(1) s(2) \<open>\<And>i. i \<noteq> index \<Longrightarrow> pend_held ?new i = {#}\<close> by (cases "i = index") (auto simp: accounts_def)
  qed
  have totals: "map total ?pools1 = map total pools"
    using s(3) i by (intro nth_equalityI) (auto simp: nth_list_update)
  from Cons.IH [OF acc, of "Suc index" "cs_requalify s" "cs_blocked_since s"] Cons.prems(2)
  obtain pools' rq' since' pend where
    n: "check_nodes now utc last_q (Suc index) nodes (?pools1, cs_requalify s, cs_blocked_since s)
        = Some (pools', rq', since', pend)"
      "length pools' = length pools" "accounts pools' (\<lambda>i. H i + pend_held ?new i + pend_held pend i)"
      "map total pools' = map total ?pools1"
      "\<forall>i < length pools. i < Suc index \<longrightarrow> pools' ! i = ?pools1 ! i"
      "\<forall>k < length nodes. \<forall>gpu \<in> set (gpus (total (?pools1 ! (Suc index + k)))).
         blocked (pools' ! (Suc index + k)) ! unat (gi_index gpu)
         = blocks (fst (nodes ! k)) (snd (nodes ! k)) (?pools1 ! (Suc index + k)) gpu"
      "\<forall>p \<in> set pend. pending_at (Suc index) nodes ?pools1 p" by (simp, blast)
  have ret: "check_nodes now utc last_q index (x # nodes) (pools, rq, since) = Some (pools', rq', since', ?new @ pend)"
    using s(1) n(1) i by (simp add: x)
  have flags: "blocked (pools' ! (index + k)) ! unat (gi_index gpu)
      = blocks (fst ((x # nodes) ! k)) (snd ((x # nodes) ! k)) (pools ! (index + k)) gpu"
    if "k < length (x # nodes)" "gpu \<in> set (gpus (total (pools ! (index + k))))" for k gpu
  proof (cases k)
    case 0
    then show ?thesis using that n(5) s(4) i by (simp add: x)
  next
    case (Suc k')
    then show ?thesis using that n(6) by simp
  qed
  have total_at: "total (?pools1 ! m) = total (pools ! m)" if "m < length pools" for m
    using totals that by (metis length_list_update nth_map)
  have new_at: "pending_at index (x # nodes) pools p" if new: "p \<in> set ?new" for p
  proof -
    obtain r where r: "reading = Some r" "pending_ok index online r (gpus (total (pools ! index))) p"
      using bspec [OF s(5) new] by blast
    then have "pq_node p = index" by (simp add: pending_ok_def)
    with r show ?thesis by (simp add: pending_at_def x)
  qed
  have rest_at: "pending_at index (x # nodes) pools p" if "p \<in> set pend" for p
  proof (rule pending_at_Suc)
    show "pending_at (Suc index) nodes ?pools1 p" using n(7) that by blast
    then have "pq_node p < length pools" using Cons.prems(2) by (auto simp: pending_at_def)
    then show "total (?pools1 ! pq_node p) = total (pools ! pq_node p)" by (rule total_at)
  qed
  have acc': "accounts pools' (\<lambda>i. H i + pend_held (?new @ pend) i)" using n(3) by (simp add: add.assoc)
  have before: "\<forall>i < length pools. i < index \<longrightarrow> pools' ! i = pools ! i" using n(5) by simp
  have all_at: "\<forall>p \<in> set (?new @ pend). pending_at index (x # nodes) pools p"
    using new_at rest_at by (simp add: ball_Un)
  show ?case
    using ret n(2) acc' n(4) [unfolded totals] before flags all_at
    by (intro exI [of _ pools'] exI [of _ rq'] exI [of _ since'] exI [of _ "?new @ pend"] conjI) simp_all
qed

section \<open>Ending and starting tests\<close>

lemma release_qualifications_held:
  assumes "accounts pools (\<lambda>i. H i + quals_held qs i)" "\<forall>q \<in> set qs. qu_node q < length pools"
  shows "\<exists>pools'. release_qualifications qs pools = Some pools' \<and> accounts pools' H \<and> length pools' = length pools"
  using assms
proof (induction qs arbitrary: pools)
  case (Cons q qs)
  have "accounts pools (\<lambda>i. (H i + quals_held qs i) + (if i = qu_node q then {#qu_allocation q#} else {#}))"
    using Cons.prems(1) by (rule accounts_cong [THEN iffD1, rotated]) (auto simp: ac_simps)
  from release_at_held [OF this] Cons.prems(2) obtain pools' where
    p: "release_at (qu_node q) (qu_allocation q) pools = Some pools'" "accounts pools' (\<lambda>i. H i + quals_held qs i)"
    "length pools' = length pools" by auto
  from Cons.IH [OF p(2)] Cons.prems(2) p show ?case by auto
qed simp

lemma poll_qualifications_split:
  assumes "poll_qualifications now poll qs = (kept, ended, sent)"
  shows "quals_held qs i = quals_held kept i + quals_held ended i \<and> set kept \<union> set ended = set qs"
  using assms
proof (induction qs arbitrary: kept ended sent)
  case (Cons q qs)
  obtain k e s where r: "poll_qualifications now poll qs = (k, e, s)" by (metis prod_cases3)
  have IH: "quals_held qs i = quals_held k i + quals_held e i" "set k \<union> set e = set qs"
    using Cons.IH [OF r] by blast+
  have "kept = q # k \<and> ended = e \<or> kept = k \<and> ended = q # e"
    using Cons.prems r by (auto simp: Let_def split: sum.splits poll_result.splits executor_error.splits if_splits)
  then show ?case
    by (elim disjE) (simp_all add: IH(1) IH(2) [symmetric] add.left_commute add.assoc)
qed simp

lemma finish_qualifications_held:
  assumes "accounts pools (\<lambda>i. H i + quals_held (gc_qualifying checks) i)"
    "\<forall>q \<in> set (gc_qualifying checks). qu_node q < length pools"
  shows "\<exists>checks' pools' sent. finish_qualifications now poll checks pools = Some (checks', pools', sent)
    \<and> accounts pools' (\<lambda>i. H i + quals_held (gc_qualifying checks') i) \<and> length pools' = length pools
    \<and> set (gc_qualifying checks') \<subseteq> set (gc_qualifying checks)"
proof -
  obtain kept ended sent where r: "poll_qualifications now poll (gc_qualifying checks) = (kept, ended, sent)"
    by (metis prod_cases3)
  have "accounts pools (\<lambda>i. (H i + quals_held kept i) + quals_held ended i)"
    using assms(1) poll_qualifications_split [OF r] by (simp add: ac_simps)
  from release_qualifications_held [OF this] show ?thesis
    using assms(2) r poll_qualifications_split [OF r] by (fastforce simp: finish_qualifications_def)
qed

lemma begin_qualification_held:
  assumes "accounts pools (\<lambda>i. H i + pend_held [p] i + quals_held (gc_qualifying checks) i)" "pq_node p < length pools"
  shows "\<exists>checks' pools'. begin_qualification now launch run_id p (checks, pools) = Some (checks', pools')
    \<and> accounts pools' (\<lambda>i. H i + quals_held (gc_qualifying checks') i) \<and> length pools' = length pools
    \<and> (\<forall>q \<in> set (gc_qualifying checks'). q \<in> set (gc_qualifying checks) \<or> qu_node q = pq_node p)"
proof (cases "start_qualification launch run_id p")
  case None
  have "accounts pools (\<lambda>i. (H i + quals_held (gc_qualifying checks) i) + (if i = pq_node p then {#pq_allocation p#} else {#}))"
    using assms(1) by (rule accounts_cong [THEN iffD1, rotated]) (auto simp: ac_simps)
  from release_at_held [OF this assms(2)] None show ?thesis by (auto simp: begin_qualification_def Let_def)
next
  case (Some handle)
  have "accounts pools (\<lambda>i. H i + (quals_held (gc_qualifying checks) i
      + (if pq_node p = i then {#pq_allocation p#} else {#})))"
    using assms(1) by (rule accounts_cong [THEN iffD1, rotated]) (auto simp: ac_simps)
  then show ?thesis using Some by (auto simp: begin_qualification_def Let_def cong: if_cong)
qed

end
