(* ===== verification/Dag.thy ===== *)
theory Dag
  imports Workflow_Spec
begin

text \<open>
  Validation of a workflow (src/src/workflow/dag.rs): no empty workflow, no two jobs with the
  same id, no dependency on an unknown job, no cycle (Kahn's algorithm).

  The hash maps of \<open>topo_sort\<close> are partial functions; the order in which the map of in-degrees
  is iterated is the argument \<open>ids\<close>, any enumeration of its keys. In-degrees are \<open>usize\<close> values,
  whose decrement wraps at zero. The queue loop is a partial function: that it returns is a
  theorem, not part of the definition.
\<close>

datatype dag_error =
    EmptyWorkflow
  | DuplicateJobId string
  | UnknownDependency string string
  | Cycle string

definition dag_error_display :: "dag_error \<Rightarrow> string" where
  "dag_error_display e = (case e of
     EmptyWorkflow \<Rightarrow> ''workflow must have at least one job''
   | DuplicateJobId job_id \<Rightarrow> ''duplicate job id: '' @ job_id
   | UnknownDependency job_id dep_id \<Rightarrow>
       ''job '' @ [CHR 0x27] @ job_id @ [CHR 0x27] @ '' depends on unknown job '' @ [CHR 0x27] @ dep_id @ [CHR 0x27]
   | Cycle job_id \<Rightarrow> ''cycle detected involving job '' @ [CHR 0x27] @ job_id @ [CHR 0x27])"

fun check_duplicate_ids_from :: "string set \<Rightarrow> job_spec list \<Rightarrow> dag_error + unit" where
  "check_duplicate_ids_from seen [] = Inr ()"
| "check_duplicate_ids_from seen (job # jobs) =
     (if js_id job \<notin> seen then check_duplicate_ids_from (insert (js_id job) seen) jobs
      else Inl (DuplicateJobId (js_id job)))"

definition check_duplicate_ids :: "workflow_spec \<Rightarrow> dag_error + unit" where
  "check_duplicate_ids spec = check_duplicate_ids_from {} (ws_jobs spec)"

fun check_deps_of :: "string set \<Rightarrow> string \<Rightarrow> string list \<Rightarrow> dag_error + unit" where
  "check_deps_of known job_id [] = Inr ()"
| "check_deps_of known job_id (dep_id # deps) =
     (if dep_id \<notin> known then Inl (UnknownDependency job_id dep_id)
      else check_deps_of known job_id deps)"

fun check_deps_from :: "string set \<Rightarrow> job_spec list \<Rightarrow> dag_error + unit" where
  "check_deps_from known [] = Inr ()"
| "check_deps_from known (job # jobs) =
     (case check_deps_of known (js_id job) (js_depends_on job) of
        Inl e \<Rightarrow> Inl e
      | Inr _ \<Rightarrow> check_deps_from known jobs)"

definition check_unknown_deps :: "workflow_spec \<Rightarrow> dag_error + unit" where
  "check_unknown_deps spec =
     check_deps_from (set (map js_id (ws_jobs spec))) (ws_jobs spec)"

text \<open>Kahn's algorithm. Collecting pairs into a map keeps the last pair of a key.\<close>

definition usize_dec :: "nat \<Rightarrow> nat" where
  "usize_dec n = (if n = 0 then 2 ^ 64 - 1 else n - 1)"

definition in_degree_of :: "workflow_spec \<Rightarrow> string \<rightharpoonup> nat" where
  "in_degree_of spec =
     map_of (rev (map (\<lambda>job. (js_id job, length (js_depends_on job))) (ws_jobs spec)))"

definition dependents_empty :: "workflow_spec \<Rightarrow> string \<rightharpoonup> string list" where
  "dependents_empty spec = map_of (rev (map (\<lambda>job. (js_id job, [])) (ws_jobs spec)))"

definition add_dependent :: "string \<Rightarrow> string \<Rightarrow> (string \<rightharpoonup> string list) \<Rightarrow> (string \<rightharpoonup> string list)" where
  "add_dependent job_id dep_id m =
     m(dep_id \<mapsto> (case m dep_id of None \<Rightarrow> [] | Some l \<Rightarrow> l) @ [job_id])"

definition dependents_of :: "workflow_spec \<Rightarrow> string \<rightharpoonup> string list" where
  "dependents_of spec =
     fold (\<lambda>job. fold (add_dependent (js_id job)) (js_depends_on job)) (ws_jobs spec)
       (dependents_empty spec)"

fun relax :: "string list \<Rightarrow> (string \<rightharpoonup> nat) \<Rightarrow> string list \<Rightarrow> (string \<rightharpoonup> nat) \<times> string list" where
  "relax [] deg queue = (deg, queue)"
| "relax (dependent # rest) deg queue =
     (let degree = usize_dec (case deg dependent of None \<Rightarrow> 0 | Some d \<Rightarrow> d) in
      relax rest (deg(dependent \<mapsto> degree)) (if degree = 0 then queue @ [dependent] else queue))"

partial_function (option) kahn ::
  "(string \<rightharpoonup> string list) \<Rightarrow> (string \<rightharpoonup> nat) \<Rightarrow> string list \<Rightarrow> string list
     \<Rightarrow> ((string \<rightharpoonup> nat) \<times> string list) option" where
  "kahn dependents deg queue order =
     (case queue of
        [] \<Rightarrow> Some (deg, order)
      | job_id # rest \<Rightarrow>
          (case relax (case dependents job_id of None \<Rightarrow> [] | Some l \<Rightarrow> l) deg rest of
             (deg', queue') \<Rightarrow> kahn dependents deg' queue' (order @ [job_id])))"

definition cycled :: "(string \<rightharpoonup> nat) \<Rightarrow> string list \<Rightarrow> string" where
  "cycled deg ids =
     (case find (\<lambda>job_id. case deg job_id of Some d \<Rightarrow> d > 0 | None \<Rightarrow> False) ids of
        Some job_id \<Rightarrow> job_id | None \<Rightarrow> ''unknown'')"

definition topo_sort :: "string list \<Rightarrow> workflow_spec \<Rightarrow> (dag_error + string list) option" where
  "topo_sort ids spec =
     (let in_degree = in_degree_of spec;
          queue = filter (\<lambda>job_id. in_degree job_id = Some 0) ids in
      do { (deg, order) \<leftarrow> kahn (dependents_of spec) in_degree queue [];
           Some (if length order \<noteq> length (ws_jobs spec)
                 then Inl (Cycle (cycled deg ids)) else Inr order) })"

definition validate :: "string list \<Rightarrow> workflow_spec \<Rightarrow> (dag_error + unit) option" where
  "validate ids spec =
     (if ws_jobs spec = [] then Some (Inl EmptyWorkflow)
      else case check_duplicate_ids spec of
        Inl e \<Rightarrow> Some (Inl e)
      | Inr _ \<Rightarrow> (case check_unknown_deps spec of
          Inl e \<Rightarrow> Some (Inl e)
        | Inr _ \<Rightarrow> do { r \<leftarrow> topo_sort ids spec;
                       Some (case r of Inl e \<Rightarrow> Inl e | Inr _ \<Rightarrow> Inr ()) }))"

section \<open>What the checks decide\<close>

abbreviation job_ids :: "workflow_spec \<Rightarrow> string list" where
  "job_ids spec \<equiv> map js_id (ws_jobs spec)"

definition ids_enum :: "string list \<Rightarrow> workflow_spec \<Rightarrow> bool" where
  "ids_enum ids spec \<longleftrightarrow> distinct ids \<and> set ids = set (job_ids spec)"

definition deps_known :: "workflow_spec \<Rightarrow> bool" where
  "deps_known spec \<longleftrightarrow> list_all (\<lambda>job. set (js_depends_on job) \<subseteq> set (job_ids spec)) (ws_jobs spec)"

definition depends :: "workflow_spec \<Rightarrow> (string \<times> string) set" where
  "depends spec = {(d, j). \<exists>job \<in> set (ws_jobs spec). j = js_id job \<and> d \<in> set (js_depends_on job)}"

lemma check_duplicate_ids_from_ok:
  "check_duplicate_ids_from seen jobs = Inr () \<longleftrightarrow>
   distinct (map js_id jobs) \<and> seen \<inter> set (map js_id jobs) = {}"
  by (induction jobs arbitrary: seen) auto

lemma check_duplicate_ids_ok: "check_duplicate_ids spec = Inr () \<longleftrightarrow> distinct (job_ids spec)"
  by (simp add: check_duplicate_ids_def check_duplicate_ids_from_ok)

lemma check_duplicate_ids_from_err:
  "check_duplicate_ids_from seen jobs = Inl e \<Longrightarrow>
   \<exists>pre job post. jobs = pre @ job # post \<and> e = DuplicateJobId (js_id job)
     \<and> js_id job \<in> seen \<union> set (map js_id pre) \<and> distinct (map js_id pre) \<and> seen \<inter> set (map js_id pre) = {}"
proof (induction jobs arbitrary: seen)
  case Nil
  then show ?case by simp
next
  case (Cons job jobs)
  show ?case
  proof (cases "js_id job \<in> seen")
    case True
    with Cons.prems have "e = DuplicateJobId (js_id job)" by simp
    with True show ?thesis by (intro exI [of _ "[]"]) auto
  next
    case False
    with Cons.prems have "check_duplicate_ids_from (insert (js_id job) seen) jobs = Inl e" by simp
    from Cons.IH [OF this] obtain pre j post where
      "jobs = pre @ j # post" "e = DuplicateJobId (js_id j)"
      "js_id j \<in> insert (js_id job) seen \<union> set (map js_id pre)" "distinct (map js_id pre)"
      "insert (js_id job) seen \<inter> set (map js_id pre) = {}" by blast
    with False show ?thesis
      by (intro exI [of _ "job # pre"] exI [of _ j] exI [of _ post]) auto
  qed
qed

lemma check_deps_of_ok: "check_deps_of known i deps = Inr () \<longleftrightarrow> set deps \<subseteq> known"
  by (induction deps) auto

lemma check_deps_of_err:
  "check_deps_of known i deps = Inl e \<Longrightarrow> \<exists>d \<in> set deps. d \<notin> known \<and> e = UnknownDependency i d"
  by (induction deps) (auto split: if_splits)

lemma check_deps_from_ok:
  "check_deps_from known jobs = Inr () \<longleftrightarrow> list_all (\<lambda>job. set (js_depends_on job) \<subseteq> known) jobs"
proof (induction jobs)
  case (Cons job jobs)
  then show ?case
    using check_deps_of_ok [of known "js_id job" "js_depends_on job"]
    by (auto split: sum.splits)
qed simp

lemma check_unknown_deps_ok: "check_unknown_deps spec = Inr () \<longleftrightarrow> deps_known spec"
  by (simp add: check_unknown_deps_def deps_known_def check_deps_from_ok)

lemma check_deps_from_err:
  "check_deps_from known jobs = Inl e \<Longrightarrow>
   \<exists>job \<in> set jobs. \<exists>d \<in> set (js_depends_on job). d \<notin> known \<and> e = UnknownDependency (js_id job) d"
  by (induction jobs) (auto split: sum.splits dest!: check_deps_of_err)

section \<open>Kahn's algorithm\<close>

definition deps_of :: "workflow_spec \<Rightarrow> string \<Rightarrow> string list" where
  "deps_of spec v = (case find (\<lambda>job. js_id job = v) (ws_jobs spec) of
     Some job \<Rightarrow> js_depends_on job | None \<Rightarrow> [])"

definition degree :: "(string \<rightharpoonup> nat) \<Rightarrow> string \<Rightarrow> nat" where
  "degree deg v = (case deg v of None \<Rightarrow> 0 | Some d \<Rightarrow> d)"

definition listed :: "(string \<rightharpoonup> string list) \<Rightarrow> string \<Rightarrow> string list" where
  "listed m d = (case m d of None \<Rightarrow> [] | Some l \<Rightarrow> l)"

fun topo_from :: "(string \<Rightarrow> string list) \<Rightarrow> string set \<Rightarrow> string list \<Rightarrow> bool" where
  "topo_from deps before [] = True"
| "topo_from deps before (v # vs) =
     (set (deps v) \<subseteq> before \<and> topo_from deps (insert v before) vs)"

lemma topo_from_append:
  "topo_from deps S (xs @ ys) \<longleftrightarrow> topo_from deps S xs \<and> topo_from deps (S \<union> set xs) ys"
  by (induction xs arbitrary: S) auto

lemma deps_of_job:
  assumes "distinct (job_ids spec)" and "job \<in> set (ws_jobs spec)"
  shows "deps_of spec (js_id job) = js_depends_on job"
  using find_key [OF assms] by (simp add: deps_of_def)

lemma deps_of_unknown: "v \<notin> set (job_ids spec) \<Longrightarrow> deps_of spec v = []"
  by (auto simp: deps_of_def split: option.splits dest!: find_Some_imp)

lemma in_degree_of_eq:
  assumes "distinct (job_ids spec)"
  shows "in_degree_of spec v =
    (if v \<in> set (job_ids spec) then Some (length (deps_of spec v)) else None)"
proof -
  have d: "distinct (map fst (map (\<lambda>job. (js_id job, length (js_depends_on job))) (ws_jobs spec)))"
    using assms by (simp add: comp_def)
  then have eq: "in_degree_of spec = map_of (map (\<lambda>job. (js_id job, length (js_depends_on job))) (ws_jobs spec))"
    unfolding in_degree_of_def by (rule map_of_rev_distinct)
  show ?thesis
  proof (cases "v \<in> set (job_ids spec)")
    case True
    then obtain job where job: "job \<in> set (ws_jobs spec)" "v = js_id job" by auto
    then have "(v, length (js_depends_on job)) \<in>
        set (map (\<lambda>job. (js_id job, length (js_depends_on job))) (ws_jobs spec))" by auto
    with d have "in_degree_of spec v = Some (length (js_depends_on job))"
      unfolding eq by (rule map_of_is_SomeI)
    with True job show ?thesis using deps_of_job [OF assms] by simp
  next
    case False
    then show ?thesis unfolding eq by (auto simp: map_of_eq_None_iff)
  qed
qed

lemma listed_add_dependent:
  "listed (add_dependent j d' m) d = (if d = d' then listed m d @ [j] else listed m d)"
  by (simp add: listed_def add_dependent_def)

lemma listed_add_dependents:
  "listed (fold (add_dependent j) deps m) d = listed m d @ replicate (count_list deps d) j"
  by (induction deps arbitrary: m)
     (simp_all add: listed_add_dependent replicate_append_same [symmetric])

lemma listed_dependents_from:
  "listed (fold (\<lambda>job. fold (add_dependent (js_id job)) (js_depends_on job)) jobs m) d =
   listed m d @ concat (map (\<lambda>job. replicate (count_list (js_depends_on job) d) (js_id job)) jobs)"
  by (induction jobs arbitrary: m) (simp_all add: listed_add_dependents)

lemma listed_dependents_of:
  "listed (dependents_of spec) d =
   concat (map (\<lambda>job. replicate (count_list (js_depends_on job) d) (js_id job)) (ws_jobs spec))"
proof -
  have "listed (dependents_empty spec) d = []"
    by (auto simp: listed_def dependents_empty_def split: option.splits dest!: map_of_SomeD)
  then show ?thesis by (simp add: dependents_of_def listed_dependents_from)
qed

lemma count_listed:
  assumes "distinct (map js_id jobs)" and "job \<in> set jobs"
  shows "count_list (concat (map (\<lambda>job. replicate (count_list (js_depends_on job) d) (js_id job)) jobs))
           (js_id job) = count_list (js_depends_on job) d"
  using assms
proof (induction jobs)
  case (Cons j jobs)
  have zero: "count_list (concat (map (\<lambda>job. replicate (count_list (js_depends_on job) d) (js_id job)) js)) v = 0"
    if "v \<notin> set (map js_id js)" for v js
    using that by (induction js) (auto simp: count_list_replicate count_list_append)
  show ?case
  proof (cases "job = j")
    case True
    with Cons.prems have "js_id j \<notin> set (map js_id jobs)" by simp
    with True show ?thesis by (simp add: count_list_append count_list_replicate zero)
  next
    case False
    with Cons.prems have "job \<in> set jobs" by simp
    then have "js_id job \<in> set (map js_id jobs)" by simp
    with Cons.prems have "js_id job \<noteq> js_id j" by auto
    with False Cons show ?thesis by (simp add: count_list_append count_list_replicate)
  qed
qed simp

lemma count_dependents:
  assumes "distinct (job_ids spec)" and "v \<in> set (job_ids spec)"
  shows "count_list (listed (dependents_of spec) d) v = count_list (deps_of spec v) d"
  using assms count_listed [of "ws_jobs spec" _ d]
  by (auto simp: listed_dependents_of deps_of_job)

lemma set_dependents: "set (listed (dependents_of spec) d) \<subseteq> set (job_ids spec)"
  by (auto simp: listed_dependents_of)

text \<open>
  One pass over the dependents of a finished job lowers each one's in-degree by the number of
  times the job occurs among its dependencies, and queues exactly those that reach zero, once.
\<close>

lemma relax_spec:
  assumes "\<And>v. count_list ds v \<le> degree deg v"
  shows "\<exists>deg' new. relax ds deg q = (deg', q @ new)
    \<and> (\<forall>v. degree deg' v = degree deg v - count_list ds v) \<and> dom deg' = dom deg \<union> set ds
    \<and> distinct new \<and> set new = {v \<in> set ds. degree deg v = count_list ds v}"
  using assms
proof (induction ds arbitrary: deg q)
  case Nil
  then show ?case by auto
next
  case (Cons x rest)
  let ?n = "degree deg x - Suc 0"
  let ?deg = "deg(x \<mapsto> ?n)"
  have pos: "0 < degree deg x" using Cons.prems [of x] by simp
  have step: "relax (x # rest) deg q = relax rest ?deg (if ?n = 0 then q @ [x] else q)"
    using pos by (simp add: usize_dec_def degree_def Let_def)
  have deg: "degree ?deg v = (if v = x then ?n else degree deg v)" for v
    by (simp add: degree_def)
  have "count_list rest v \<le> degree ?deg v" for v
    using Cons.prems [of v] by (simp add: deg split: if_splits)
  from Cons.IH [OF this, of "if ?n = 0 then q @ [x] else q"] obtain deg' new where IH:
    "relax rest ?deg (if ?n = 0 then q @ [x] else q) = (deg', (if ?n = 0 then q @ [x] else q) @ new)"
    "\<forall>v. degree deg' v = degree ?deg v - count_list rest v" "dom deg' = dom ?deg \<union> set rest"
    "distinct new" "set new = {v \<in> set rest. degree ?deg v = count_list rest v}" by blast
  let ?new = "if ?n = 0 then x # new else new"
  have fresh: "?n = 0 \<Longrightarrow> x \<notin> set rest"
    using Cons.prems [of x] by (auto simp: count_list_0_iff [symmetric])
  have new: "v \<in> set new \<longleftrightarrow> v \<in> set rest \<and> (if v = x then ?n else degree deg v) = count_list rest v" for v
    using IH(5) by (simp add: deg)
  have "set ?new = {v \<in> set (x # rest). degree deg v = count_list (x # rest) v}"
  proof (cases "?n = 0")
    case True
    then have x: "x \<notin> set rest" by (rule fresh)
    then have "count_list rest x = 0" by (simp add: count_list_0_iff)
    moreover have "degree deg x = Suc 0" using True pos by simp
    ultimately have "v \<in> set ?new \<longleftrightarrow> v \<in> set (x # rest) \<and> degree deg v = count_list (x # rest) v" for v
      using x new [of v] by auto
    then show ?thesis by blast
  next
    case False
    have x: "x \<in> set rest" if "degree deg x = Suc (count_list rest x)"
    proof (rule ccontr)
      assume "x \<notin> set rest"
      then have "count_list rest x = 0" by (simp add: count_list_0_iff)
      with that False show False by simp
    qed
    have iff: "?n = count_list rest x \<longleftrightarrow> degree deg x = Suc (count_list rest x)" using pos by arith
    have "x \<in> set new \<longleftrightarrow> degree deg x = Suc (count_list rest x)" using x iff new [of x] by (simp only: if_True refl) blast
    moreover have "v \<in> set new \<longleftrightarrow> v \<in> set rest \<and> degree deg v = count_list rest v" if "v \<noteq> x" for v
      using new [of v] that by simp
    ultimately have "v \<in> set new \<longleftrightarrow> v \<in> set (x # rest) \<and> degree deg v = count_list (x # rest) v" for v
      by (cases "v = x") simp_all
    then show ?thesis unfolding if_not_P [OF False] by blast
  qed
  moreover have "distinct ?new" using IH(4) new [of x] fresh by (cases "?n = 0") simp_all
  moreover have "degree deg' v = degree deg v - count_list (x # rest) v" for v
    using IH(2) deg [of v] by simp
  moreover have "dom deg' = dom deg \<union> set (x # rest)" using IH(3) by auto
  moreover have "relax (x # rest) deg q = (deg', q @ ?new)"
    using step IH(1) by (cases "?n = 0") simp_all
  ultimately show ?case by blast
qed

definition kahn_inv :: "workflow_spec \<Rightarrow> (string \<rightharpoonup> nat) \<Rightarrow> string list \<Rightarrow> string list \<Rightarrow> bool" where
  "kahn_inv spec deg queue order \<longleftrightarrow>
     distinct (order @ queue) \<and> set (order @ queue) \<subseteq> set (job_ids spec) \<and> dom deg = set (job_ids spec)
     \<and> (\<forall>v \<in> set (job_ids spec).
          degree deg v = length (filter (\<lambda>d. d \<notin> set order) (deps_of spec v))
          \<and> (degree deg v = 0 \<longleftrightarrow> v \<in> set (order @ queue)))
     \<and> topo_from (deps_of spec) {} order"

lemma kahn_inv_init:
  assumes "distinct (job_ids spec)" and "ids_enum ids spec"
  shows "kahn_inv spec (in_degree_of spec) (filter (\<lambda>j. in_degree_of spec j = Some 0) ids) []"
  using assms
  by (auto simp: kahn_inv_def ids_enum_def in_degree_of_eq degree_def dom_def)

lemma kahn_inv_step:
  assumes ids: "distinct (job_ids spec)" and inv: "kahn_inv spec deg (job # rest) order"
    and relaxed: "relax (listed (dependents_of spec) job) deg rest = (deg', queue')"
  shows "kahn_inv spec deg' queue' (order @ [job])"
proof -
  let ?V = "set (job_ids spec)" and ?ds = "listed (dependents_of spec) job"
  have job: "job \<in> ?V" "job \<notin> set order" using inv by (auto simp: kahn_inv_def)
  have deg: "degree deg v = length (filter (\<lambda>d. d \<notin> set order) (deps_of spec v))" if "v \<in> ?V" for v
    using inv that by (auto simp: kahn_inv_def)
  have zero: "degree deg v = 0 \<longleftrightarrow> v \<in> set (order @ job # rest)" if "v \<in> ?V" for v
    using inv that unfolding kahn_inv_def by blast
  have cnt: "count_list ?ds v = count_list (deps_of spec v) job" if "v \<in> ?V" for v
    by (rule count_dependents [OF ids that])
  have out: "count_list ?ds v = 0" if "v \<notin> ?V" for v
    using that set_dependents [of spec job] by (auto simp: count_list_0_iff)
  have "count_list ?ds v \<le> degree deg v" for v
    using out cnt deg count_list_le_length_filter [of "\<lambda>d. d \<notin> set order" job "deps_of spec v"] job(2)
    by (cases "v \<in> ?V") auto
  from relax_spec [OF this, of rest] relaxed obtain new where
    queue: "queue' = rest @ new" and deg': "\<And>v. degree deg' v = degree deg v - count_list ?ds v"
    and dom: "dom deg' = dom deg \<union> set ?ds" and new: "distinct new"
      "set new = {v \<in> set ?ds. degree deg v = count_list ?ds v}" by auto
  have newV: "set new \<subseteq> ?V" using new(2) set_dependents [of spec job] by auto
  have fresh: "set new \<inter> set (order @ job # rest) = {}"
  proof -
    have False if "v \<in> set new" "v \<in> set (order @ job # rest)" for v
    proof -
      have "v \<in> ?V" using that(1) newV by blast
      then have "degree deg v = 0" using zero that(2) by blast
      with that(1) new(2) have "v \<in> set ?ds" "count_list ?ds v = 0" by auto
      then show False by (simp add: count_list_0_iff)
    qed
    then show ?thesis by blast
  qed
  have degree': "degree deg' v = length (filter (\<lambda>d. d \<notin> set (order @ [job])) (deps_of spec v))"
    if "v \<in> ?V" for v
    using deg [OF that] cnt [OF that] length_filter_remove [OF job(2), of "deps_of spec v"]
    by (simp add: deg')
  have zero': "degree deg' v = 0 \<longleftrightarrow> v \<in> set ((order @ [job]) @ queue')" if v: "v \<in> ?V" for v
  proof (cases "v \<in> set (order @ job # rest)")
    case True
    then have "degree deg v = 0" using zero v by blast
    with True show ?thesis by (auto simp: queue deg')
  next
    case False
    then have pos: "0 < degree deg v" using zero v by blast
    have le: "count_list ?ds v \<le> degree deg v" by fact
    have "degree deg' v = 0 \<longleftrightarrow> degree deg v = count_list ?ds v" using le by (auto simp: deg')
    also have "\<dots> \<longleftrightarrow> v \<in> set new"
      using pos new(2) by (auto simp: count_list_0_iff [symmetric])
    finally show ?thesis using False by (auto simp: queue)
  qed
  have "set (deps_of spec job) \<subseteq> set order"
  proof -
    have "degree deg job = 0" using zero job by simp
    then have "filter (\<lambda>d. d \<notin> set order) (deps_of spec job) = []" using deg job by simp
    then show ?thesis by (auto simp: filter_empty_conv)
  qed
  then have topo: "topo_from (deps_of spec) {} (order @ [job])"
    using inv by (simp add: kahn_inv_def topo_from_append)
  have "dom deg' = ?V" using dom inv set_dependents [of spec job] by (auto simp: kahn_inv_def)
  moreover have "distinct ((order @ [job]) @ queue')"
    using inv new(1) fresh by (auto simp: kahn_inv_def queue)
  moreover have "set ((order @ [job]) @ queue') \<subseteq> ?V"
    using inv newV by (auto simp: kahn_inv_def queue)
  ultimately show ?thesis
    using degree' zero' topo by (simp add: kahn_inv_def del: set_append append_assoc)
qed

text \<open>The queue loop returns: every round moves one more job into the order.\<close>

lemma kahn_returns:
  assumes ids: "distinct (job_ids spec)" and inv: "kahn_inv spec deg queue order"
  shows "\<exists>deg' order'. kahn (dependents_of spec) deg queue order = Some (deg', order')
           \<and> kahn_inv spec deg' [] order'"
  using inv
proof (induction "length (ws_jobs spec) - length order" arbitrary: deg queue order rule: less_induct)
  case less
  show ?case
  proof (cases queue)
    case Nil
    with less.prems show ?thesis by (simp add: kahn.simps)
  next
    case (Cons job rest)
    obtain deg' queue' where r: "relax (listed (dependents_of spec) job) deg rest = (deg', queue')"
      by (cases "relax (listed (dependents_of spec) job) deg rest")
    have inv': "kahn_inv spec deg' queue' (order @ [job])"
      using kahn_inv_step [OF ids _ r] less.prems Cons by simp
    have "length (order @ queue) = card (set (order @ queue))"
      using less.prems by (simp only: kahn_inv_def distinct_card)
    also have "\<dots> \<le> card (set (job_ids spec))"
      using less.prems by (intro card_mono) (auto simp: kahn_inv_def)
    also have "\<dots> = length (ws_jobs spec)" using distinct_card [OF ids] by simp
    finally have "length (ws_jobs spec) - length (order @ [job]) < length (ws_jobs spec) - length order"
      using Cons by simp
    from less.hyps [OF this inv'] r Cons show ?thesis
      by (simp add: kahn.simps [of _ deg "job # rest" order] listed_def)
  qed
qed

lemma topo_sort_cases:
  assumes ids: "distinct (job_ids spec)" and enum: "ids_enum ids spec"
  obtains deg order where "kahn_inv spec deg [] order"
    and "topo_sort ids spec = Some (if length order \<noteq> length (ws_jobs spec)
      then Inl (Cycle (cycled deg ids)) else Inr order)"
  using kahn_returns [OF ids kahn_inv_init [OF ids enum]]
  by (auto simp: topo_sort_def Let_def)

lemma finite_depends [simp]: "finite (depends spec)"
proof -
  have "depends spec \<subseteq> (\<Union>job \<in> set (ws_jobs spec). set (js_depends_on job) \<times> {js_id job})"
    by (auto simp: depends_def)
  then show ?thesis by (rule finite_subset) auto
qed

lemma depends_iff:
  assumes "distinct (job_ids spec)"
  shows "(d, j) \<in> depends spec \<longleftrightarrow> d \<in> set (deps_of spec j)"
  using assms deps_of_job deps_of_unknown [of j spec]
  by (cases "j \<in> set (job_ids spec)") (fastforce simp: depends_def)+

text \<open>An order in which every job follows its dependencies shows that there is no cycle.\<close>

lemma topo_from_before:
  "topo_from deps S xs \<Longrightarrow> j \<in> set xs \<Longrightarrow> d \<in> set (deps j) \<Longrightarrow> d \<notin> S \<Longrightarrow>
   \<exists>pre post. xs = pre @ j # post \<and> d \<in> set pre"
proof (induction xs arbitrary: S)
  case (Cons x xs)
  show ?case
  proof (cases "x = j")
    case True
    with Cons.prems show ?thesis by auto
  next
    case False
    show ?thesis
    proof (cases "d = x")
      case True
      from False Cons.prems(2) obtain pre post where "xs = pre @ j # post" by (auto dest: split_list)
      with True show ?thesis by (intro exI [of _ "x # pre"] exI [of _ post]) auto
    next
      case False
      with Cons.IH [of "insert x S"] Cons.prems \<open>x \<noteq> j\<close> obtain pre post where
        "xs = pre @ j # post \<and> d \<in> set pre" by auto
      then show ?thesis by (intro exI [of _ "x # pre"] exI [of _ post]) auto
    qed
  qed
qed simp

lemma acyclic_if_topo:
  assumes ids: "distinct (job_ids spec)" and order: "distinct order" "topo_from (deps_of spec) {} order"
    and all: "set order = set (job_ids spec)"
  shows "acyclic (depends spec)"
proof -
  let ?idx = "\<lambda>v. length (takeWhile (\<lambda>u. u \<noteq> v) order)"
  have "depends spec \<subseteq> measure ?idx"
  proof
    fix e
    assume "e \<in> depends spec"
    then obtain d j where e: "e = (d, j)" and dj: "(d, j) \<in> depends spec" by (cases e) auto
    then have "j \<in> set order" using all by (auto simp: depends_def)
    moreover have "d \<in> set (deps_of spec j)" using dj depends_iff [OF ids] by blast
    ultimately obtain pre post where o: "order = pre @ j # post" and d: "d \<in> set pre"
      using topo_from_before [OF order(2)] by blast
    have "j \<notin> set pre" using order(1) o by simp
    then have "?idx j = length pre" using o by (auto simp: takeWhile_append)
    moreover obtain xs ys where "pre = xs @ d # ys" "d \<notin> set xs" using split_list_first [OF d] by blast
    then have "?idx d < length pre" using o by (auto simp: takeWhile_append)
    ultimately show "e \<in> measure ?idx" by (simp add: e)
  qed
  then have "wf (depends spec)" by (rule wf_subset [OF wf_measure])
  then show ?thesis by (rule wf_acyclic)
qed

text \<open>
  When the queue runs dry early, the jobs left over each depend on another one left over; so
  each of them depends, directly or not, on a job of a cycle.
\<close>

definition left_over :: "workflow_spec \<Rightarrow> string list \<Rightarrow> string set" where
  "left_over spec order = set (job_ids spec) - set order"

lemma left_over_dep:
  assumes "kahn_inv spec deg [] order" and "deps_known spec" and ids: "distinct (job_ids spec)"
    and v: "v \<in> left_over spec order"
  shows "\<exists>d \<in> left_over spec order. (d, v) \<in> depends spec"
proof -
  have vV: "v \<in> set (job_ids spec)" and "v \<notin> set order" using v by (auto simp: left_over_def)
  then have "degree deg v \<noteq> 0" and
    "degree deg v = length (filter (\<lambda>d. d \<notin> set order) (deps_of spec v))"
    using assms(1) by (auto simp: kahn_inv_def)
  then obtain d where d: "d \<in> set (deps_of spec v)" "d \<notin> set order"
    by (auto simp: filter_empty_conv)
  then have e: "(d, v) \<in> depends spec" using depends_iff [OF ids] by blast
  then have "d \<in> set (job_ids spec)"
    using assms(2) unfolding depends_def deps_known_def list_all_iff by blast
  with d e show ?thesis by (auto simp: left_over_def)
qed

lemma upstream_cycle:
  assumes fin: "finite r" and pred: "\<And>u. u \<in> L \<Longrightarrow> \<exists>d \<in> L. (d, u) \<in> r" and v: "v \<in> L"
  shows "\<exists>c. (c, c) \<in> r\<^sup>+ \<and> (c, v) \<in> r\<^sup>*"
proof (rule ccontr)
  assume none: "\<not> ?thesis"
  let ?A = "{u \<in> L. (u, v) \<in> r\<^sup>*}"
  let ?R = "{(d, u) \<in> r. u \<in> ?A \<and> d \<in> ?A}"
  have sub: "?R \<subseteq> r" by auto
  have inA: "c \<in> ?A" if "(c, x) \<in> ?R\<^sup>+" for c x using that by (induction rule: trancl_induct) auto
  have "acyclic ?R"
  proof (rule acyclicI, intro allI notI)
    fix c assume c: "(c, c) \<in> ?R\<^sup>+"
    then have "(c, c) \<in> r\<^sup>+" using trancl_mono [OF _ sub] by blast
    moreover have "(c, v) \<in> r\<^sup>*" using inA [OF c] by simp
    ultimately show False using none by blast
  qed
  moreover have "finite ?R" by (rule finite_subset [OF sub fin])
  ultimately have wf: "wf ?R" by (rule finite_acyclic_wf [rotated])
  have "v \<in> ?A" using v by simp
  from wfE_min [OF wf this] obtain m where m: "m \<in> ?A" and min: "\<And>y. (y, m) \<in> ?R \<Longrightarrow> y \<notin> ?A"
    by blast
  from m pred obtain d where d: "d \<in> L" "(d, m) \<in> r" by blast
  from m d(2) have "(d, v) \<in> r\<^sup>*" by (auto intro: converse_rtrancl_into_rtrancl)
  with d have dA: "d \<in> ?A" by simp
  with m d have "(d, m) \<in> ?R" by simp
  from min [OF this] dA show False ..
qed

lemma kahn_complete_iff:
  assumes inv: "kahn_inv spec deg [] order" and ids: "distinct (job_ids spec)" and known: "deps_known spec"
  shows "length order = length (ws_jobs spec) \<longleftrightarrow> acyclic (depends spec)"
proof
  have sub: "set order \<subseteq> set (job_ids spec)" and dist: "distinct order"
    and topo: "topo_from (deps_of spec) {} order"
    using inv by (auto simp: kahn_inv_def)
  have cards: "card (set order) = length order" "card (set (job_ids spec)) = length (ws_jobs spec)"
    using distinct_card [OF dist] distinct_card [OF ids] by simp_all
  show "acyclic (depends spec)" if "length order = length (ws_jobs spec)"
  proof -
    have "set order = set (job_ids spec)" using that cards by (intro card_subset_eq sub) auto
    then show ?thesis by (rule acyclic_if_topo [OF ids dist topo])
  qed
  show "length order = length (ws_jobs spec)" if "acyclic (depends spec)"
  proof -
    have "left_over spec order = {}"
    proof (rule ccontr)
      assume "left_over spec order \<noteq> {}"
      then obtain v where v: "v \<in> left_over spec order" by blast
      have "\<exists>c. (c, c) \<in> (depends spec)\<^sup>+ \<and> (c, v) \<in> (depends spec)\<^sup>*"
        by (rule upstream_cycle [OF finite_depends left_over_dep [OF inv known ids] v])
      with that show False by (auto simp: acyclic_def)
    qed
    then have "set order = set (job_ids spec)" using sub by (auto simp: left_over_def)
    then show ?thesis using cards by simp
  qed
qed

lemma cycled_left_over:
  assumes inv: "kahn_inv spec deg [] order" and ids: "distinct (job_ids spec)"
    and enum: "ids_enum ids spec" and short: "length order \<noteq> length (ws_jobs spec)"
  shows "cycled deg ids \<in> left_over spec order"
proof -
  let ?P = "\<lambda>j. case deg j of Some d \<Rightarrow> d > 0 | None \<Rightarrow> False"
  have sub: "set order \<subseteq> set (job_ids spec)" and dist: "distinct order"
    using inv by (auto simp: kahn_inv_def)
  have pos: "?P j \<longleftrightarrow> j \<in> left_over spec order" if "j \<in> set ids" for j
    using inv that enum
    by (auto simp: kahn_inv_def left_over_def degree_def ids_enum_def split: option.splits)
  have "left_over spec order \<noteq> {}"
  proof
    assume "left_over spec order = {}"
    then have "set order = set (job_ids spec)" using sub by (auto simp: left_over_def)
    then show False using short distinct_card [OF dist] distinct_card [OF ids] by simp
  qed
  then obtain u where u: "u \<in> left_over spec order" "u \<in> set ids"
    using enum by (auto simp: left_over_def ids_enum_def)
  then obtain v where f: "find ?P ids = Some v"
    using pos by (cases "find ?P ids") (auto simp: find_None_iff)
  then have "v \<in> set ids" "?P v" using find_Some_imp [OF f] by blast+
  with f pos show ?thesis by (simp add: cycled_def)
qed

definition well_formed :: "workflow_spec \<Rightarrow> bool" where
  "well_formed spec \<longleftrightarrow> ws_jobs spec \<noteq> [] \<and> distinct (job_ids spec) \<and> deps_known spec
     \<and> acyclic (depends spec)"

text \<open>The two outcomes of the sort on a workflow that passed the first checks.\<close>

lemma topo_sort_acyclic:
  assumes "distinct (job_ids spec)" "deps_known spec" "ids_enum ids spec" "acyclic (depends spec)"
  shows "\<exists>order. topo_sort ids spec = Some (Inr order) \<and> mset order = mset (job_ids spec)
           \<and> topo_from (deps_of spec) {} order"
proof -
  obtain deg order where inv: "kahn_inv spec deg [] order"
    and eq: "topo_sort ids spec = Some (if length order \<noteq> length (ws_jobs spec)
      then Inl (Cycle (cycled deg ids)) else Inr order)"
    by (rule topo_sort_cases [OF assms(1,3)])
  have len: "length order = length (ws_jobs spec)"
    using kahn_complete_iff [OF inv assms(1,2)] assms(4) by simp
  have o: "distinct order" "set order \<subseteq> set (job_ids spec)" "topo_from (deps_of spec) {} order"
    using inv by (auto simp: kahn_inv_def)
  have "set order = set (job_ids spec)"
    using o len distinct_card [OF o(1)] distinct_card [OF assms(1)] by (intro card_subset_eq) auto
  then have "mset order = mset (job_ids spec)"
    by (rule iffD1 [OF set_eq_iff_mset_eq_distinct [OF o(1) assms(1)]])
  with eq len o(3) show ?thesis by auto
qed

lemma topo_sort_cyclic:
  assumes "distinct (job_ids spec)" "deps_known spec" "ids_enum ids spec" "\<not> acyclic (depends spec)"
  shows "\<exists>v \<in> set (job_ids spec). topo_sort ids spec = Some (Inl (Cycle v))
           \<and> (\<exists>c. (c, c) \<in> (depends spec)\<^sup>+ \<and> (c, v) \<in> (depends spec)\<^sup>*)"
proof -
  obtain deg order where inv: "kahn_inv spec deg [] order"
    and eq: "topo_sort ids spec = Some (if length order \<noteq> length (ws_jobs spec)
      then Inl (Cycle (cycled deg ids)) else Inr order)"
    by (rule topo_sort_cases [OF assms(1,3)])
  have short: "length order \<noteq> length (ws_jobs spec)"
    using kahn_complete_iff [OF inv assms(1,2)] assms(4) by simp
  have v: "cycled deg ids \<in> left_over spec order"
    by (rule cycled_left_over [OF inv assms(1,3) short])
  have "\<exists>c. (c, c) \<in> (depends spec)\<^sup>+ \<and> (c, cycled deg ids) \<in> (depends spec)\<^sup>*"
    by (rule upstream_cycle [OF finite_depends left_over_dep [OF inv assms(2,1)] v])
  with v eq short show ?thesis by (auto simp: left_over_def)
qed

lemma validate_checked:
  assumes "ws_jobs spec \<noteq> []" and ids: "distinct (job_ids spec)" and known: "deps_known spec"
  shows "validate ids spec =
    do { r \<leftarrow> topo_sort ids spec; Some (case r of Inl e \<Rightarrow> Inl e | Inr _ \<Rightarrow> Inr ()) }"
proof -
  have "check_duplicate_ids spec = Inr ()" using ids by (simp add: check_duplicate_ids_ok)
  moreover have "check_unknown_deps spec = Inr ()" using known by (simp add: check_unknown_deps_ok)
  ultimately show ?thesis using assms(1) by (simp add: validate_def)
qed

lemma validate_well_formed:
  assumes "well_formed spec" and "ids_enum ids spec"
  shows "validate ids spec = Some (Inr ())"
  using topo_sort_acyclic [OF _ _ assms(2)] assms(1) by (auto simp: well_formed_def validate_checked)

text \<open>What each error says of the workflow.\<close>

fun error_holds :: "workflow_spec \<Rightarrow> dag_error \<Rightarrow> bool" where
  "error_holds spec EmptyWorkflow \<longleftrightarrow> ws_jobs spec = []"
| "error_holds spec (DuplicateJobId i) \<longleftrightarrow> 2 \<le> count_list (job_ids spec) i"
| "error_holds spec (UnknownDependency i d) \<longleftrightarrow> (d, i) \<in> depends spec \<and> d \<notin> set (job_ids spec)"
| "error_holds spec (Cycle v) \<longleftrightarrow> v \<in> set (job_ids spec)
     \<and> (\<exists>c. (c, c) \<in> (depends spec)\<^sup>+ \<and> (c, v) \<in> (depends spec)\<^sup>*)"

lemma check_duplicate_ids_err:
  assumes "check_duplicate_ids spec = Inl e"
  shows "error_holds spec e"
proof -
  from check_duplicate_ids_from_err [OF assms [unfolded check_duplicate_ids_def]]
  obtain pre job post where j: "ws_jobs spec = pre @ job # post" "e = DuplicateJobId (js_id job)"
    "js_id job \<in> set (map js_id pre)" by auto
  then have "0 < count_list (map js_id pre) (js_id job)"
    by (metis count_list_0_iff neq0_conv)
  with j show ?thesis by (simp add: count_list_append)
qed

lemma check_unknown_deps_err:
  "check_unknown_deps spec = Inl e \<Longrightarrow> error_holds spec e"
  by (auto simp: check_unknown_deps_def depends_def dest!: check_deps_from_err)

lemma validate_ill_formed:
  assumes "\<not> well_formed spec" and "ids_enum ids spec"
  shows "\<exists>e. validate ids spec = Some (Inl e) \<and> error_holds spec e"
proof (cases "ws_jobs spec \<noteq> [] \<and> distinct (job_ids spec) \<and> deps_known spec")
  case True
  then have "\<not> acyclic (depends spec)" using assms(1) by (simp add: well_formed_def)
  with topo_sort_cyclic [OF _ _ assms(2)] True show ?thesis by (auto simp: validate_checked)
next
  case False
  show ?thesis
  proof (cases "ws_jobs spec = []")
    case True
    then show ?thesis by (simp add: validate_def)
  next
    case nonempty: False
    show ?thesis
    proof (cases "check_duplicate_ids spec")
      case (Inl e)
      with nonempty show ?thesis by (simp add: validate_def check_duplicate_ids_err)
    next
      case dup: (Inr u)
      then have "check_unknown_deps spec \<noteq> Inr ()"
        using False nonempty check_duplicate_ids_ok check_unknown_deps_ok by auto
      then obtain e where "check_unknown_deps spec = Inl e"
        by (cases "check_unknown_deps spec") auto
      with nonempty dup show ?thesis by (simp add: validate_def check_unknown_deps_err)
    qed
  qed
qed

section \<open>Properties\<close>

definition mk_job :: "string \<Rightarrow> string list \<Rightarrow> job_spec" where
  "mk_job i deps = job_spec_default\<lparr>js_id := i, js_depends_on := deps\<rparr>"

definition diamond :: workflow_spec where
  "diamond = \<lparr>ws_name = ''diamond'', ws_jobs =
     [mk_job ''root'' [], mk_job ''left'' [''root''], mk_job ''right'' [''root''],
      mk_job ''merge'' [''left'', ''right'']]\<rparr>"

definition behind_cycle :: workflow_spec where
  "behind_cycle = \<lparr>ws_name = ''cyclic'', ws_jobs = [mk_job ''a'' [''a''], mk_job ''b'' [''a'']]\<rparr>"

lemmas dag_eval = validate_def check_duplicate_ids_def check_unknown_deps_def topo_sort_def
  in_degree_of_def dependents_of_def dependents_empty_def add_dependent_def kahn.simps
  usize_dec_def mk_job_def diamond_def behind_cycle_def ids_enum_def cycled_def

text \<open>
  C30: Validation returns for every workflow, whatever order the map of in-degrees is iterated
  in, and accepts exactly the non-empty workflows with distinct job ids, known dependencies and
  no dependency cycle.
\<close>

theorem validate_decides:
  assumes "ids_enum ids spec"
  shows "\<exists>r. validate ids spec = Some r \<and> (r = Inr () \<longleftrightarrow> well_formed spec)"
  using validate_well_formed [OF _ assms] validate_ill_formed [OF _ assms]
  by (cases "well_formed spec") auto

theorem validate_decides_witness:
  "validate [''merge'', ''left'', ''root'', ''right''] diamond = Some (Inr ()) \<and> well_formed diamond"
proof -
  have e: "ids_enum [''merge'', ''left'', ''root'', ''right''] diamond"
    by (auto simp: dag_eval)
  have "validate [''merge'', ''left'', ''root'', ''right''] diamond = Some (Inr ())"
    by (simp add: dag_eval)
  with validate_decides [OF e] show ?thesis by simp
qed

text \<open>
  On a well-formed workflow \<open>topo_sort\<close> returns every job id exactly once, in an order in
  which each job follows all its dependencies.
\<close>

theorem topo_sort_orders:
  assumes "well_formed spec" and "ids_enum ids spec"
  shows "\<exists>order. topo_sort ids spec = Some (Inr order) \<and> mset order = mset (job_ids spec)
           \<and> topo_from (deps_of spec) {} order"
  using assms topo_sort_acyclic by (auto simp: well_formed_def)

theorem topo_sort_orders_witness:
  "topo_sort [''right'', ''merge'', ''left'', ''root''] diamond
     = Some (Inr [''root'', ''left'', ''right'', ''merge''])
   \<and> topo_from (deps_of diamond) {} [''root'', ''left'', ''right'', ''merge'']"
proof -
  have e: "ids_enum [''right'', ''merge'', ''left'', ''root''] diamond" by (auto simp: dag_eval)
  have t: "topo_sort [''right'', ''merge'', ''left'', ''root''] diamond
      = Some (Inr [''root'', ''left'', ''right'', ''merge''])" by (simp add: dag_eval)
  have v: "validate [''right'', ''merge'', ''left'', ''root''] diamond = Some (Inr ())"
    by (simp add: dag_eval)
  then have "well_formed diamond" using validate_ill_formed [OF _ e] by force
  from topo_sort_orders [OF this e] t show ?thesis by auto
qed



text \<open>
  The job a cycle error names need not be on a cycle: with \<open>a\<close> depending on itself and \<open>b\<close>
  on \<open>a\<close>, an iteration order that meets \<open>b\<close> first makes validation report "cycle detected
  involving job 'b'", and \<open>b\<close> is on no cycle.
\<close>

theorem cycle_error_blames_dependent:
  "validate [''b'', ''a''] behind_cycle = Some (Inl (Cycle ''b''))
   \<and> (''b'', ''b'') \<notin> (depends behind_cycle)\<^sup>+"
proof -
  have "depends behind_cycle = {(''a'', ''a''), (''a'', ''b'')}"
    by (auto simp: depends_def dag_eval)
  then have "fst ` depends behind_cycle = {''a''}" by simp
  then have "c = ''a''" if "(c, v) \<in> (depends behind_cycle)\<^sup>+" for c v
    using tranclD [OF that] by force
  then show ?thesis by (auto simp: dag_eval)
qed

end
