(* ===== verification/Server.thy ===== *)
theory Server
  imports Dag Scheduler
begin

text \<open>
  The request handlers that work on the daemon's state (src/src/ipc/server.rs): submitting,
  cancelling, reporting nodes and this machine. YAML parsing, fresh ids, clocks and what
  executors answer are arguments; \<open>None\<close> is a panic.
\<close>

definition resource_spec_debug :: "resource_spec \<Rightarrow> string" where
  "resource_spec_debug s =
     ''ResourceSpec { cpu: '' @ dec (unat (rs_cpu s)) @ '', memory_mb: '' @ dec (unat (rs_memory_mb s))
     @ '', gpu: '' @ dec (unat (rs_gpu s)) @ '', vram_mb: '' @ dec (unat (rs_vram_mb s)) @ '' }''"

definition fits_some_node :: "resource_pool list \<Rightarrow> resource_spec \<Rightarrow> bool" where
  "fits_some_node pools spec = list_ex (\<lambda>pool. list_ex (could_fit pool) (gpu_options spec)) pools"

text \<open>The first job that could never fit on any node.\<close>

definition misfit :: "resource_pool list \<Rightarrow> workflow_spec \<Rightarrow> job_spec option" where
  "misfit pools spec = find (\<lambda>job. \<not> fits_some_node pools (js_resources job)) (ws_jobs spec)"

text \<open>
  Creating the run: its number and its jobs' numbers are taken from the counters, its rows are
  written, and it enters the map.
\<close>

definition start_run :: "string \<Rightarrow> datetime \<Rightarrow> workflow_spec \<Rightarrow> daemon \<Rightarrow> daemon" where
  "start_run run_id now spec d =
     (let run = workflow_run_new now run_id (dm_run_counter d) spec (dm_job_counter d) in
      d\<lparr>dm_run_counter := dm_run_counter d + 1,
        dm_job_counter := dm_job_counter d + of_nat (length (ws_jobs spec)),
        dm_store := dm_store d @ UpsertRun run # map (\<lambda>(_, job). UpsertJob run_id job None) (wr_jobs run),
        dm_runs := hm_insert run_id run (dm_runs d)\<rparr>)"

definition handle_submit :: "(string \<Rightarrow> string + workflow_spec) \<Rightarrow> (workflow_spec \<Rightarrow> string list) \<Rightarrow> string \<Rightarrow> datetime
    \<Rightarrow> string \<Rightarrow> daemon \<Rightarrow> (response \<times> daemon) option" where
  "handle_submit parse ids run_id now spec_yaml d =
     (case parse spec_yaml of
        Inl error \<Rightarrow> Some (ErrorReply (''yaml parse error: '' @ error), d)
      | Inr spec \<Rightarrow> do {
          v \<leftarrow> validate (ids spec) spec;
          case v of
            Inl error \<Rightarrow> Some (ErrorReply (''dag validate error: '' @ dag_error_display error), d)
          | Inr _ \<Rightarrow> (case misfit (dm_pools d) spec of
              Some job \<Rightarrow>
                Some (ErrorReply (''job '' @ quoted (js_id job) @ '' does not fit on any node: ''
                                  @ resource_spec_debug (js_resources job)), d)
            | None \<Rightarrow> Some (Submitted run_id, start_run run_id now spec d)) })"

text \<open>Cancelling marks the running jobs of the run and returns the handles to stop.\<close>

definition mark_cancelling :: "job_instance \<Rightarrow> job_instance" where
  "mark_cancelling job = (if ji_state job = Running then job\<lparr>ji_cancelling := True\<rparr> else job)"

definition cancel_run :: "string \<Rightarrow> runs \<Rightarrow> runs" where
  "cancel_run run_id rs =
     hm_modify run_id (\<lambda>run. run\<lparr>wr_jobs := map (\<lambda>(k, job). (k, mark_cancelling job)) (wr_jobs run)\<rparr>) rs"

definition cancel_handles :: "workflow_run \<Rightarrow> (nat \<times> job_handle) list" where
  "cancel_handles run =
     concat (map (\<lambda>(_, job). List.map_filter (\<lambda>e. map_option (\<lambda>h. (ex_node e, h)) (ex_handle e)) (ji_executions job))
       (filter (\<lambda>(_, job). ji_state job = Running) (wr_jobs run)))"

definition handle_cancel :: "string \<Rightarrow> daemon \<Rightarrow> response \<times> (nat \<times> job_handle) list \<times> daemon" where
  "handle_cancel run_id d =
     (case hm_get (dm_runs d) run_id of
        None \<Rightarrow> (ErrorReply (''run '' @ quoted run_id @ '' not found or not active''), [], d)
      | Some run \<Rightarrow> (CancelledReply run_id, cancel_handles run, d\<lparr>dm_runs := cancel_run run_id (dm_runs d)\<rparr>))"

definition running_count :: "(job_instance \<Rightarrow> bool) \<Rightarrow> runs \<Rightarrow> nat" where
  "running_count p rs =
     length (filter (\<lambda>job. ji_state job = Running \<and> p job) (concat (map (\<lambda>(_, run). map snd (wr_jobs run)) rs)))"

text \<open>\<open>worker_running\<close>, \<open>scopes\<close> and \<open>gpu_health\<close> are what the worker, systemd and NVML answer.\<close>

definition handle_info :: "string \<Rightarrow> u32 \<Rightarrow> string \<Rightarrow> nat \<Rightarrow> bool \<Rightarrow> gpu_health list \<Rightarrow> daemon \<Rightarrow> response" where
  "handle_info version pid socket worker_running scopes readings d =
     InfoReply \<lparr>ni_version = version, ni_pid = pid, ni_socket = socket,
       ni_running_jobs = running_count (\<lambda>_. True) (dm_runs d) + worker_running,
       ni_jobs_survive_restart = scopes, ni_resources = dm_resources d, ni_gpu_health = readings\<rparr>"

definition node_gpu_health :: "gpu_health list \<Rightarrow> node \<Rightarrow> gpu_health list" where
  "node_gpu_health local n =
     (case nd_ssh n of
        None \<Rightarrow> local
      | Some _ \<Rightarrow> (case hl_info (nd_health n) of Some info \<Rightarrow> ni_gpu_health info | None \<Rightarrow> []))"

definition node_status_of :: "gpu_health list \<Rightarrow> daemon \<Rightarrow> nat \<Rightarrow> node \<Rightarrow> node_status option" where
  "node_status_of local d index n = do {
     pool \<leftarrow> vec_get (dm_pools d) index;
     Some \<lparr>ns_name = nd_name n, ns_ssh = nd_ssh n, ns_online = state_is_online (hl_state (nd_health n)),
           ns_state = node_state_display (hl_state (nd_health n)), ns_since = hl_since (nd_health n),
           ns_running_jobs = running_count (\<lambda>job. list_ex (\<lambda>e. ex_node e = index) (ji_executions job)) (dm_runs d),
           ns_total = total pool, ns_free_cpu = available_cpu pool, ns_free_memory_mb = available_memory_mb pool,
           ns_free_vram_mb = available_vram_mb pool, ns_gpu_health = node_gpu_health local n\<rparr> }"

fun all_some :: "'a option list \<Rightarrow> 'a list option" where
  "all_some [] = Some []"
| "all_some (x # xs) = do { y \<leftarrow> x; ys \<leftarrow> all_some xs; Some (y # ys) }"

definition handle_nodes :: "gpu_health list \<Rightarrow> daemon \<Rightarrow> response option" where
  "handle_nodes local d =
     map_option NodesReply (all_some (map (\<lambda>(index, n). node_status_of local d index n) (enumerate 0 (dm_nodes d))))"

text \<open>
  Clearing a card: passed on to the named node when it has a tunnel, else done here. The left of
  the result is the node to ask, the right the reply and the card to clear on this machine.
\<close>

definition handle_clear_gpu :: "daemon \<Rightarrow> string option \<Rightarrow> u32 \<Rightarrow> node + response \<times> gpu_info option" where
  "handle_clear_gpu d name gpu =
     (let here = (case find (\<lambda>c. gi_index c = gpu) (gpus (dm_resources d)) of
                    Some c \<Rightarrow> Inr (GpuCleared, Some c)
                  | None \<Rightarrow> Inr (ErrorReply (''no GPU '' @ dec (unat gpu) @ '' on this machine''), None)) in
      case name of
        None \<Rightarrow> here
      | Some nm \<Rightarrow> (case find (\<lambda>n. nd_name n = nm) (dm_nodes d) of
          None \<Rightarrow> Inr (ErrorReply (''no node '' @ quoted nm @ '', see `roster node ls`''), None)
        | Some target \<Rightarrow> if nd_socket target \<noteq> None then Inl target else here))"

definition handle_gpu_qualified :: "(card_map \<Rightarrow> 't) \<Rightarrow> 't save_outcome \<Rightarrow> datetime \<Rightarrow> daemon \<Rightarrow> u32 \<Rightarrow> bool \<Rightarrow> string
    \<Rightarrow> 't quarantines \<Rightarrow> response \<times> 't quarantines" where
  "handle_gpu_qualified to_json out now d index passed reason q =
     (case find (\<lambda>c. gi_index c = index) (gpus (dm_resources d)) of
        Some c \<Rightarrow> (Recorded, record_test to_json out now c passed reason q)
      | None \<Rightarrow> (ErrorReply (''no GPU '' @ dec (unat index) @ '' on this machine''), q))"

section \<open>Facts\<close>

lemma find_none_all: "find P xs = None \<longleftrightarrow> (\<forall>x \<in> set xs. \<not> P x)"
  by (auto simp: find_None_iff)

lemma misfit_none: "misfit pools spec = None \<longleftrightarrow> (\<forall>job \<in> set (ws_jobs spec). fits_some_node pools (js_resources job))"
  by (simp add: misfit_def find_none_all)

text \<open>What an accepted workflow is: well formed, with every job fitting some node.\<close>

lemma handle_submit_cases:
  assumes "\<And>spec. parse y = Inr spec \<Longrightarrow> ids_enum (ids spec) spec"
  obtains (refused) e where "handle_submit parse ids run_id now y d = Some (ErrorReply e, d)"
      "\<nexists>spec. parse y = Inr spec \<and> well_formed spec \<and> misfit (dm_pools d) spec = None"
  | (accepted) spec where "parse y = Inr spec" "well_formed spec" "misfit (dm_pools d) spec = None"
      "handle_submit parse ids run_id now y d = Some (Submitted run_id, start_run run_id now spec d)"
proof (cases "parse y")
  case (Inl e)
  then show thesis by (intro refused) (auto simp: handle_submit_def)
next
  case (Inr spec)
  from assms [OF Inr] have enum: "ids_enum (ids spec) spec" .
  show thesis
  proof (cases "well_formed spec")
    case True
    then have "validate (ids spec) spec = Some (Inr ())" using validate_well_formed enum by blast
    then show thesis using Inr True
      by (cases "misfit (dm_pools d) spec") (auto intro: refused accepted simp: handle_submit_def)
  next
    case False
    then obtain e where "validate (ids spec) spec = Some (Inl e)" using validate_ill_formed [OF _ enum] by blast
    then show thesis using Inr False by (intro refused) (auto simp: handle_submit_def)
  qed
qed

end
