(* ===== verification/Scheduler_System.thy ===== *)
theory Scheduler_System
  imports Gpu_Facts Server
begin

text \<open>
  The daemon in motion: the scheduler's critical sections in the order its loop runs them, with
  requests, node states and card readings changing in between. A step is one critical section, so
  the relation allows every interleaving at the points where the code gives up its locks.
\<close>

section \<open>States and steps\<close>

text \<open>Where the scheduler's loop stands, with what it carries from one critical section to the next.\<close>

datatype phase =
    PhIdle
  | PhAdmitted "admit_task list"
  | PhLaunched "launch_outcome list"
  | PhRunning "running_job list"
  | PhPolled "poll_entry list"
  | PhStarting "pending_qualification list"

record system =
  sy_daemon :: daemon
  sy_checks :: gpu_checks
  sy_phase :: phase

definition set_runs :: "runs \<Rightarrow> daemon \<Rightarrow> daemon" where
  "set_runs rs d = d\<lparr>dm_runs := rs\<rparr>"

text \<open>
  \<open>env\<close> is the environment of the daemon. A submitted run has a new id. The scheduler's own steps
  are possible only in their phase; a panic is the absence of a step, and is excluded below.
\<close>

inductive step :: "environment \<Rightarrow> system \<Rightarrow> system \<Rightarrow> bool" for env where
  st_submit: "hm_get (dm_runs d) run_id = None \<Longrightarrow> well_formed spec \<Longrightarrow> misfit (dm_pools d) spec = None \<Longrightarrow>
     step env \<lparr>sy_daemon = d, sy_checks = c, sy_phase = ph\<rparr>
              \<lparr>sy_daemon = start_run run_id now spec d, sy_checks = c, sy_phase = ph\<rparr>"
| st_cancel: "handle_cancel run_id d = (reply, handles, d') \<Longrightarrow>
     step env \<lparr>sy_daemon = d, sy_checks = c, sy_phase = ph\<rparr> \<lparr>sy_daemon = d', sy_checks = c, sy_phase = ph\<rparr>"
| st_nodes: "map nd_name ns = map nd_name (dm_nodes d) \<Longrightarrow> map nd_ssh ns = map nd_ssh (dm_nodes d) \<Longrightarrow>
     step env \<lparr>sy_daemon = d, sy_checks = c, sy_phase = ph\<rparr>
              \<lparr>sy_daemon = d\<lparr>dm_nodes := ns\<rparr>, sy_checks = c, sy_phase = ph\<rparr>"
| st_flush: "flush_transitions at ws d = Some d' \<Longrightarrow>
     step env \<lparr>sy_daemon = d, sy_checks = c, sy_phase = ph\<rparr> \<lparr>sy_daemon = d', sy_checks = c, sy_phase = ph\<rparr>"
| st_pending: "advance_pending d = (d', ws) \<Longrightarrow>
     step env \<lparr>sy_daemon = d, sy_checks = c, sy_phase = PhIdle\<rparr> \<lparr>sy_daemon = d', sy_checks = c, sy_phase = PhIdle\<rparr>"
| st_skip: "cascade_skipped now d = (d', ws) \<Longrightarrow>
     step env \<lparr>sy_daemon = d, sy_checks = c, sy_phase = PhIdle\<rparr> \<lparr>sy_daemon = d', sy_checks = c, sy_phase = PhIdle\<rparr>"
| st_admit: "admit d = Some (tasks, d') \<Longrightarrow>
     step env \<lparr>sy_daemon = d, sy_checks = c, sy_phase = PhIdle\<rparr>
              \<lparr>sy_daemon = d', sy_checks = c, sy_phase = PhAdmitted tasks\<rparr>"
| st_launch:
     "step env \<lparr>sy_daemon = d, sy_checks = c, sy_phase = PhAdmitted tasks\<rparr>
              \<lparr>sy_daemon = d, sy_checks = c, sy_phase = PhLaunched (map (launch_task launch) tasks)\<rparr>"
| st_launched: "apply_outcomes env now outcomes d = Some (d', ws) \<Longrightarrow>
     step env \<lparr>sy_daemon = d, sy_checks = c, sy_phase = PhLaunched outcomes\<rparr>
              \<lparr>sy_daemon = d', sy_checks = c, sy_phase = PhIdle\<rparr>"
| st_snapshot:
     "step env \<lparr>sy_daemon = d, sy_checks = c, sy_phase = PhIdle\<rparr>
              \<lparr>sy_daemon = d, sy_checks = c, sy_phase = PhRunning (snapshot (dm_runs d))\<rparr>"
| st_poll:
     "step env \<lparr>sy_daemon = d, sy_checks = c, sy_phase = PhRunning js\<rparr>
              \<lparr>sy_daemon = d, sy_checks = c, sy_phase = PhPolled (map (poll_job poll tail) js)\<rparr>"
| st_polled: "apply_entries now entries d = Some (d', ws) \<Longrightarrow>
     step env \<lparr>sy_daemon = d, sy_checks = c, sy_phase = PhPolled entries\<rparr>
              \<lparr>sy_daemon = d', sy_checks = c, sy_phase = PhIdle\<rparr>"
| st_finish: "finish_qualifications now poll c (dm_pools d) = Some (c', pools, sent) \<Longrightarrow>
     step env \<lparr>sy_daemon = d, sy_checks = c, sy_phase = PhIdle\<rparr>
              \<lparr>sy_daemon = d\<lparr>dm_pools := pools\<rparr>, sy_checks = c', sy_phase = PhIdle\<rparr>"
| st_check: "length readings = length (dm_nodes d) \<Longrightarrow>
     check_nodes now utc (gc_last_qualified c) 0 (zip (map nd_online (dm_nodes d)) readings)
       (dm_pools d, dm_requalify d, gc_blocked_since c) = Some (pools, requalify, since, pend) \<Longrightarrow>
     step env \<lparr>sy_daemon = d, sy_checks = c, sy_phase = PhIdle\<rparr>
              \<lparr>sy_daemon = d\<lparr>dm_pools := pools, dm_requalify := requalify\<rparr>,
               sy_checks = c\<lparr>gc_blocked_since := since\<rparr>, sy_phase = PhStarting pend\<rparr>"
| st_start: "begin_qualification now launch run_id p (c, dm_pools d) = Some (c', pools) \<Longrightarrow>
     step env \<lparr>sy_daemon = d, sy_checks = c, sy_phase = PhStarting (p # pend)\<rparr>
              \<lparr>sy_daemon = d\<lparr>dm_pools := pools\<rparr>, sy_checks = c', sy_phase = PhStarting pend\<rparr>"
| st_started:
     "step env \<lparr>sy_daemon = d, sy_checks = c, sy_phase = PhStarting []\<rparr>
              \<lparr>sy_daemon = d, sy_checks = c, sy_phase = PhIdle\<rparr>"

text \<open>At the start HOME is set: the daemon has opened its database and log under it.\<close>

definition initial :: "environment \<Rightarrow> system \<Rightarrow> bool" where
  "initial env s \<longleftrightarrow> env_home env \<noteq> None \<and> (\<exists>r ns ps. length ps = length ns \<and> (\<forall>p \<in> set ps. ledger p {#})
     \<and> s = \<lparr>sy_daemon = daemon_new r ns ps, sy_checks = gpu_checks_default, sy_phase = PhIdle\<rparr>)"

section \<open>The invariant\<close>

definition phase_held :: "phase \<Rightarrow> nat \<Rightarrow> allocation multiset" where
  "phase_held ph i =
     (case ph of PhAdmitted ts \<Rightarrow> tasks_held ts i | PhLaunched os \<Rightarrow> outcomes_held os i
      | PhStarting ps \<Rightarrow> pend_held ps i | _ \<Rightarrow> {#})"

text \<open>A running job has one execution, with a handle, on a node there is; any other job has none.\<close>

definition job_ok :: "nat \<Rightarrow> job_instance \<Rightarrow> bool" where
  "job_ok n job \<longleftrightarrow>
     (if ji_state job = Running
      then (\<exists>e. ji_executions job = [e] \<and> ex_handle e \<noteq> None \<and> ex_node e < n)
      else ji_executions job = [])
     \<and> (\<forall>x \<in> set (ji_rejected job). fst x < n)"

definition in_state :: "runs \<Rightarrow> job_state \<Rightarrow> string \<times> string \<Rightarrow> bool" where
  "in_state rs st k \<longleftrightarrow> (\<exists>job. get_job rs (fst k) (snd k) = Some job \<and> ji_state job = st)"

definition running_key :: "running_job \<Rightarrow> string \<times> string" where
  "running_key j = (rj_run_id j, rj_job_id j)"

definition entry_key :: "poll_entry \<Rightarrow> string \<times> string" where
  "entry_key e = (pe_run_id e, pe_job_id e)"

definition phase_ok :: "nat \<Rightarrow> runs \<Rightarrow> phase \<Rightarrow> bool" where
  "phase_ok n rs ph =
     (case ph of
        PhIdle \<Rightarrow> True
      | PhAdmitted ts \<Rightarrow> distinct (map task_key ts)
          \<and> (\<forall>t \<in> set ts. in_state rs Queued (task_key t) \<and> (\<exists>m a. at_placement t = [(m, a)] \<and> m < n))
      | PhLaunched os \<Rightarrow> distinct (map outcome_key os)
          \<and> (\<forall>out \<in> set os. in_state rs Queued (outcome_key out) \<and> launched_ok n out)
      | PhRunning js \<Rightarrow> distinct (map running_key js) \<and> (\<forall>j \<in> set js. in_state rs Running (running_key j))
      | PhPolled es \<Rightarrow> distinct (map entry_key es) \<and> (\<forall>e \<in> set es. in_state rs Running (entry_key e))
      | PhStarting ps \<Rightarrow> (\<forall>p \<in> set ps. pq_node p < n))"

text \<open>The part of the daemon the invariant speaks of: \<open>R\<close> is held elsewhere.\<close>

definition daemon_ok :: "(nat \<Rightarrow> allocation multiset) \<Rightarrow> daemon \<Rightarrow> bool" where
  "daemon_ok R d \<longleftrightarrow> length (dm_pools d) = length (dm_nodes d)
     \<and> accounts (dm_pools d) (\<lambda>i. runs_held (dm_runs d) i + R i) \<and> runs_ok (job_ok (length (dm_nodes d))) (dm_runs d)"

text \<open>What the scheduler has in hand and what is under test.\<close>

definition in_hand :: "system \<Rightarrow> nat \<Rightarrow> allocation multiset" where
  "in_hand s i = phase_held (sy_phase s) i + quals_held (gc_qualifying (sy_checks s)) i"

definition sys_inv :: "environment \<Rightarrow> system \<Rightarrow> bool" where
  "sys_inv env s \<longleftrightarrow> env_home env \<noteq> None \<and> daemon_ok (in_hand s) (sy_daemon s)
     \<and> phase_ok (length (dm_nodes (sy_daemon s))) (dm_runs (sy_daemon s)) (sy_phase s)
     \<and> (\<forall>q \<in> set (gc_qualifying (sy_checks s)). qu_node q < length (dm_nodes (sy_daemon s)))"

lemma in_state_modify:
  "in_state (modify_job r j f rs) st k \<longleftrightarrow>
     (if k = (r, j) then (\<exists>job. get_job rs r j = Some job \<and> ji_state (f job) = st) else in_state rs st k)"
  by (cases k) (auto simp: in_state_def get_job_modify)

text \<open>When all jobs stay, in the states they were in, so does what the scheduler has in hand.\<close>

lemma phase_ok_states:
  assumes "phase_ok n rs ph" "\<And>st k. in_state rs st k \<Longrightarrow> st \<in> {Queued, Running} \<Longrightarrow> in_state rs' st k"
  shows "phase_ok n rs' ph"
  using assms by (cases ph) (auto simp: phase_ok_def)

section \<open>Requests keep the invariant\<close>

lemma get_job_start_run:
  assumes "hm_get (dm_runs d) r = None"
  shows "get_job (dm_runs (start_run r now spec d)) r' j =
    (if r' = r then hm_get (collect_jobs (dm_job_counter d) (ws_jobs spec) []) j else get_job (dm_runs d) r' j)"
  using assms by (simp add: start_run_def Let_def get_job_def hm_get_insert workflow_run_new_def)

lemma new_jobs_ok: "jobs_ok (job_ok n) (collect_jobs m specs [])"
proof -
  have "\<forall>(k, job) \<in> set (collect_jobs m specs []). ji_job_id job = k \<and> job_ok n job"
    by (rule collect_jobs_all) (simp_all add: job_ok_def job_instance_new_def)
  then show ?thesis
    using collect_jobs_wf [of "[]" m specs] by (auto simp: jobs_ok_def dest: map_of_SomeD)
qed

lemma new_jobs_held: "jobs_held (collect_jobs m specs []) i = {#}"
proof -
  have "\<forall>(k, job) \<in> set (collect_jobs m specs []). ji_executions job = []"
    by (rule collect_jobs_all) simp_all
  then have "jobs_held js i = {#}" if "set js \<subseteq> set (collect_jobs m specs [])" for js
    using that by (induction js) (auto simp: jobs_held_def)
  then show ?thesis by simp
qed

lemma hm_insert_absent: "hm_get m k = None \<Longrightarrow> hm_insert k v m = m @ [(k, v)]"
  by (induction m) auto

lemma start_run_keeps:
  assumes "runs_ok (job_ok n) (dm_runs d)" "hm_get (dm_runs d) r = None"
  shows "runs_ok (job_ok n) (dm_runs (start_run r now spec d))"
    "runs_held (dm_runs (start_run r now spec d)) i = runs_held (dm_runs d) i"
    "in_state (dm_runs d) st k \<Longrightarrow> in_state (dm_runs (start_run r now spec d)) st k"
proof -
  show "runs_ok (job_ok n) (dm_runs (start_run r now spec d))"
    using assms new_jobs_ok [of n "dm_job_counter d" "ws_jobs spec"]
    by (auto simp: runs_ok_def start_run_def Let_def hm_get_insert workflow_run_new_def hm_wf_insert)
  show "runs_held (dm_runs (start_run r now spec d)) i = runs_held (dm_runs d) i"
    using assms(2) by (simp add: start_run_def Let_def hm_insert_absent runs_held_def workflow_run_new_def new_jobs_held)
  assume "in_state (dm_runs d) st k"
  then obtain job where job: "get_job (dm_runs d) (fst k) (snd k) = Some job" "ji_state job = st"
    by (auto simp: in_state_def)
  then have "fst k \<noteq> r" using assms(2) by (auto simp: get_job_def)
  then show "in_state (dm_runs (start_run r now spec d)) st k"
    using job by (simp add: in_state_def get_job_start_run [OF assms(2)])
qed

lemma get_job_cancel:
  "get_job (cancel_run r rs) r' j = (if r' = r then map_option mark_cancelling (get_job rs r' j) else get_job rs r' j)"
  by (auto simp: get_job_def cancel_run_def hm_get_map_values map_option_bind split: bind_splits)

lemma mark_cancelling_simps [simp]:
  "ji_state (mark_cancelling job) = ji_state job" "ji_executions (mark_cancelling job) = ji_executions job"
  "ji_job_id (mark_cancelling job) = ji_job_id job" "ji_rejected (mark_cancelling job) = ji_rejected job"
  "ji_spec (mark_cancelling job) = ji_spec job" "ji_job_seq (mark_cancelling job) = ji_job_seq job"
  by (simp_all add: mark_cancelling_def)

lemma cancel_run_keeps:
  assumes "runs_ok (job_ok n) rs"
  shows "runs_ok (job_ok n) (cancel_run r rs)" "runs_held (cancel_run r rs) i = runs_held rs i"
    "in_state (cancel_run r rs) st k = in_state rs st k"
proof -
  have same: "job_ok n (mark_cancelling job) = job_ok n job" for job by (simp add: job_ok_def)
  have wf: "hm_wf (map (\<lambda>(k, job). (k, mark_cancelling job)) js) = hm_wf js" for js
    by (simp add: hm_wf_def comp_def case_prod_beta')
  show "runs_ok (job_ok n) (cancel_run r rs)"
    using assms by (auto simp: runs_ok_def cancel_run_def jobs_ok_def hm_get_map_values same wf)
  have j: "jobs_held (map (\<lambda>(k, job). (k, mark_cancelling job)) js) i = jobs_held js i" for js
    by (simp add: jobs_held_def comp_def case_prod_beta')
  show "runs_held (cancel_run r rs) i = runs_held rs i"
  proof (cases "hm_get rs r")
    case (Some run)
    from sum_hm_modify [OF this, of "\<lambda>run. jobs_held (wr_jobs run) i"
        "\<lambda>run. run\<lparr>wr_jobs := map (\<lambda>(k, job). (k, mark_cancelling job)) (wr_jobs run)\<rparr>"]
    show ?thesis by (simp add: runs_held_def cancel_run_def j)
  qed (simp add: cancel_run_def hm_modify_absent)
  show "in_state (cancel_run r rs) st k = in_state rs st k"
    by (cases k) (auto simp: in_state_def get_job_cancel)
qed

lemma flush_keeps:
  "flush_transitions at ws d = Some d' \<Longrightarrow>
     dm_runs d' = dm_runs d \<and> dm_nodes d' = dm_nodes d \<and> dm_pools d' = dm_pools d"
proof (induction ws arbitrary: d)
  case (Cons w ws)
  obtain r j where w: "w = (r, j)" by (cases w)
  show ?case
  proof (cases "get_job (dm_runs d) r j")
    case None
    then show ?thesis using Cons by (auto simp: w get_job_def split: option.splits)
  next
    case (Some job)
    then obtain run where run: "hm_get (dm_runs d) r = Some run" "hm_get (wr_jobs run) j = Some job"
      by (auto simp: get_job_def bind_eq_Some_conv)
    from Cons.prems run obtain name where "flush_transitions at ws
      (d\<lparr>dm_store := dm_store d @ [UpsertJob r job name],
         dm_events := dm_events d @ [job_event_new (wr_run_seq run) (ji_job_seq job) (ji_state job) at]\<rparr>) = Some d'"
      by (auto simp: w bind_eq_Some_conv)
    from Cons.IH [OF this] show ?thesis by simp
  qed
qed simp

lemma flush_returns:
  assumes "runs_ok (job_ok (length (dm_nodes d))) (dm_runs d)"
  shows "flush_transitions at ws d \<noteq> None"
  using assms
proof (induction ws arbitrary: d)
  case (Cons w ws)
  obtain r j where w: "w = (r, j)" by (cases w)
  show ?case
  proof (cases "get_job (dm_runs d) r j")
    case None
    then show ?thesis using Cons by (auto simp: w get_job_def split: option.splits)
  next
    case (Some job)
    then obtain run where run: "hm_get (dm_runs d) r = Some run" "hm_get (wr_jobs run) j = Some job"
      by (auto simp: get_job_def bind_eq_Some_conv)
    have "job_ok (length (dm_nodes d)) job" by (rule runs_ok_get(2) [OF Cons.prems Some])
    then obtain name where "(case ji_executions job of [] \<Rightarrow> Some None
        | e # _ \<Rightarrow> map_option (\<lambda>n. Some (nd_name n)) (vec_get (dm_nodes d) (ex_node e))) = Some name"
      by (auto simp: job_ok_def split: if_splits)
    then show ?thesis using Cons run by (simp add: w)
  qed
qed simp

section \<open>How jobs change\<close>

text \<open>
  From \<open>rs\<close> to \<open>rs'\<close> no job comes or goes; the jobs of \<open>K\<close> keep their spec and number and change
  their state as \<open>M\<close> allows; the others stay as they are.
\<close>

definition evolves :: "(job_state \<times> job_state) set \<Rightarrow> (string \<times> string) set \<Rightarrow> runs \<Rightarrow> runs \<Rightarrow> bool" where
  "evolves M K rs rs' \<longleftrightarrow>
     (\<forall>k. case get_job rs (fst k) (snd k) of
            None \<Rightarrow> get_job rs' (fst k) (snd k) = None
          | Some job \<Rightarrow> (\<exists>job'. get_job rs' (fst k) (snd k) = Some job' \<and> ji_spec job' = ji_spec job
              \<and> ji_job_seq job' = ji_job_seq job
              \<and> (if k \<in> K then (ji_state job, ji_state job') \<in> M else job' = job)))"

lemma evolves_refl: "evolves M {} rs rs"
  by (auto simp: evolves_def split: option.split)

lemma evolves_stay:
  assumes "in_state rs st k" "(st, st) \<in> M"
  shows "evolves M {k} rs rs"
  using assms by (auto simp: evolves_def in_state_def split: option.split)

lemma evolves_modify:
  assumes "get_job rs r j = Some job" "(ji_state job, ji_state job') \<in> M" "ji_spec job' = ji_spec job"
    "ji_job_seq job' = ji_job_seq job"
  shows "evolves M {(r, j)} rs (modify_job r j (\<lambda>_. job') rs)"
  using assms by (auto simp: evolves_def get_job_modify split: option.split)

lemma evolves_trans:
  assumes "evolves M K rs rs'" "evolves M K' rs' rs''" "K \<inter> K' = {}"
  shows "evolves M (K \<union> K') rs rs''"
  unfolding evolves_def
proof
  fix k
  show "case get_job rs (fst k) (snd k) of None \<Rightarrow> get_job rs'' (fst k) (snd k) = None
    | Some job \<Rightarrow> (\<exists>job'. get_job rs'' (fst k) (snd k) = Some job' \<and> ji_spec job' = ji_spec job
        \<and> ji_job_seq job' = ji_job_seq job
        \<and> (if k \<in> K \<union> K' then (ji_state job, ji_state job') \<in> M else job' = job))"
    using assms(1) [unfolded evolves_def, rule_format, of k] assms(2) [unfolded evolves_def, rule_format, of k] assms(3)
    by (auto split: option.splits if_splits)
qed

lemma evolves_in_state: "evolves M K rs rs' \<Longrightarrow> k \<notin> K \<Longrightarrow> in_state rs st k \<Longrightarrow> in_state rs' st k"
  unfolding evolves_def in_state_def by (drule spec [of _ k]) (auto split: option.splits)

section \<open>Launching keeps the invariant\<close>

abbreviation launch_moves :: "(job_state \<times> job_state) set" where
  "launch_moves \<equiv> {(Queued, Queued), (Queued, Running), (Queued, Failed)}"

lemma release_held_elsewhere:
  assumes "daemon_ok (\<lambda>i. exec_held es i + R i) d" "\<forall>e \<in> set es. ex_node e < length (dm_nodes d)"
  shows "\<exists>pools. release_executions es (dm_pools d) = Some pools \<and> daemon_ok R (d\<lparr>dm_pools := pools\<rparr>)"
proof -
  have "accounts (dm_pools d) (\<lambda>i. (runs_held (dm_runs d) i + R i) + exec_held es i)"
    using assms(1) by (simp add: daemon_ok_def ac_simps)
  from release_executions_held [OF this] assms show ?thesis by (auto simp: daemon_ok_def)
qed

text \<open>Writing back a job that holds what it held.\<close>

lemma daemon_ok_set:
  assumes "daemon_ok R d" "get_job (dm_runs d) r j = Some job" "ji_job_id job' = ji_job_id job"
    "job_ok (length (dm_nodes d)) job'" "ji_executions job' = ji_executions job"
  shows "daemon_ok R (d\<lparr>dm_runs := modify_job r j (\<lambda>_. job') (dm_runs d)\<rparr>)"
  using assms runs_ok_modify [of "job_ok (length (dm_nodes d))" "dm_runs d" r j "\<lambda>_. job'"]
    runs_held_same [OF assms(2), of "\<lambda>_. job'"]
  by (simp add: daemon_ok_def)

lemma job_ok_queued: "job_ok n job \<Longrightarrow> ji_state job = Queued \<Longrightarrow> ji_executions job = []"
  by (simp add: job_ok_def)

lemma fail_job_simps [simp]:
  "ji_state (fail_job now job) = Failed" "ji_executions (fail_job now job) = ji_executions job"
  "ji_job_id (fail_job now job) = ji_job_id job" "ji_spec (fail_job now job) = ji_spec job"
  "ji_job_seq (fail_job now job) = ji_job_seq job" "ji_rejected (fail_job now job) = ji_rejected job"
  by (simp_all add: fail_job_def)

lemma add_reason_simps [simp]:
  "ji_state (add_reason r job) = ji_state job" "ji_executions (add_reason r job) = ji_executions job"
  "ji_job_id (add_reason r job) = ji_job_id job" "ji_spec (add_reason r job) = ji_spec job"
  "ji_job_seq (add_reason r job) = ji_job_seq job" "ji_rejected (add_reason r job) = ji_rejected job"
  by (simp_all add: add_reason_def)

lemma reject_job_result:
  assumes "job_ok (length ns) job" "ji_state job = Queued" "m < length ns"
  shows "\<exists>job'. reject_job now ns pools m reason job = Some job' \<and> job_ok (length ns) job'
    \<and> ji_job_id job' = ji_job_id job \<and> ji_spec job' = ji_spec job \<and> ji_job_seq job' = ji_job_seq job
    \<and> ji_executions job' = [] \<and> ji_state job' \<in> {Queued, Failed} \<and> rejected_by job' m"
proof -
  have "list_all (\<lambda>(node, _). node < length ns) (ji_rejected job @ [(m, reason)])"
    using assms by (auto simp: job_ok_def list_all_iff)
  then show ?thesis using assms
    by (auto simp: reject_job_def Let_def rejection_text_def job_ok_def rejected_by_def)
qed

lemma apply_outcome_result:
  assumes ok: "daemon_ok (\<lambda>i. exec_held (lo_executions out) i + R i) d"
    and queued: "in_state (dm_runs d) Queued (outcome_key out)" and lok: "launched_ok (length (dm_nodes d)) out"
    and home: "env_home env \<noteq> None"
  shows "\<exists>d' ws. apply_outcome env now out d = Some (d', ws) \<and> daemon_ok R d' \<and> dm_nodes d' = dm_nodes d
    \<and> evolves launch_moves {outcome_key out} (dm_runs d) (dm_runs d')"
proof -
  let ?r = "lo_run_id out" and ?j = "lo_job_id out" and ?n = "length (dm_nodes d)"
  obtain job where job: "get_job (dm_runs d) ?r ?j = Some job" "ji_state job = Queued"
    using queued by (auto simp: in_state_def outcome_key_def)
  obtain e where e: "lo_executions out = [e]" "ex_node e < ?n" "lo_result out = Inr () \<longrightarrow> ex_handle e \<noteq> None"
    using lok by (auto simp: launched_ok_def)
  have jok: "job_ok ?n job" using ok runs_ok_get(2) job(1) by (auto simp: daemon_ok_def)
  then have none: "ji_executions job = []" using job(2) by (rule job_ok_queued)
  obtain pools where p: "release_executions [e] (dm_pools d) = Some pools" "daemon_ok R (d\<lparr>dm_pools := pools\<rparr>)"
    using release_held_elsewhere [OF ok] e by auto
  have stay: "evolves launch_moves {outcome_key out} (dm_runs d) (dm_runs d)"
    using queued by (rule evolves_stay) simp
  have move: "evolves launch_moves {outcome_key out} (dm_runs d) (modify_job ?r ?j (\<lambda>_. job') (dm_runs d))"
    if "ji_state job' \<in> {Queued, Running, Failed}" "ji_spec job' = ji_spec job" "ji_job_seq job' = ji_job_seq job" for job'
    using evolves_modify [OF job(1)] job(2) that by (auto simp: outcome_key_def)
  have set_ok: "daemon_ok R (d\<lparr>dm_pools := pools, dm_runs := modify_job ?r ?j (\<lambda>_. job') (dm_runs d)\<rparr>)"
    if "ji_job_id job' = ji_job_id job" "job_ok ?n job'" "ji_executions job' = []" for job'
    using daemon_ok_set [OF p(2), of ?r ?j job job'] job(1) that none by simp
  have failed: "job_ok ?n (add_reason why (fail_job now job))" for why
    using jok none job(2) by (simp add: job_ok_def)
  show ?thesis
  proof (cases "lo_result out")
    case (Inr u)
    obtain log where log: "log_path env (dm_nodes d ! ex_node e) ?r ?j = Some log"
      using home by (cases "nd_ssh (dm_nodes d ! ex_node e)") (auto simp: log_path_def job_log_path_def in_home_def)
    let ?job' = "start_job now log [e] job"
    have "job_ok ?n ?job'" using jok e Inr by (simp add: job_ok_def start_job_def)
    then have "runs_ok (job_ok ?n) (modify_job ?r ?j (\<lambda>_. ?job') (dm_runs d))"
      using ok job(1) by (intro runs_ok_modify) (auto simp: daemon_ok_def start_job_def)
    moreover have "runs_held (modify_job ?r ?j (\<lambda>_. ?job') (dm_runs d)) i = runs_held (dm_runs d) i + exec_held [e] i" for i
      using runs_held_start [OF job(1) none, of "\<lambda>_. ?job'"] by (simp add: start_job_def)
    ultimately have "daemon_ok R (d\<lparr>dm_runs := modify_job ?r ?j (\<lambda>_. ?job') (dm_runs d)\<rparr>)"
      using ok e(1) by (simp add: daemon_ok_def add.assoc)
    then show ?thesis using Inr job(1) e log move [of ?job']
      by (simp add: apply_outcome_def Let_def start_job_def)
  next
    case (Inl error)
    show ?thesis
    proof (cases error)
      case (Unreachable reason)
      then show ?thesis using Inl job(1) e(1) p stay by (simp add: apply_outcome_def Let_def)
    next
      case (Rejected reason)
      obtain job' where job': "reject_job now (dm_nodes d) pools (ex_node e) reason job = Some job'" "job_ok ?n job'"
        "ji_job_id job' = ji_job_id job" "ji_spec job' = ji_spec job" "ji_job_seq job' = ji_job_seq job"
        "ji_executions job' = []" "ji_state job' \<in> {Queued, Failed}"
        using reject_job_result [OF jok job(2) e(2)] by blast
      then show ?thesis using Inl Rejected job(1) e p set_ok [OF job'(3,2,6)] move [OF _ job'(4,5)]
        by (auto simp: apply_outcome_def Let_def)
    qed (use Inl job(1) e(1) p none set_ok failed move in \<open>auto simp: apply_outcome_def Let_def simp del: release_executions.simps\<close>)
  qed
qed

lemma apply_outcomes_result:
  assumes "daemon_ok (\<lambda>i. outcomes_held outs i + R i) d" "distinct (map outcome_key outs)"
    "\<forall>out \<in> set outs. in_state (dm_runs d) Queued (outcome_key out) \<and> launched_ok (length (dm_nodes d)) out"
    "env_home env \<noteq> None"
  shows "\<exists>d' ws. apply_outcomes env now outs d = Some (d', ws) \<and> daemon_ok R d' \<and> dm_nodes d' = dm_nodes d
    \<and> evolves launch_moves (outcome_key ` set outs) (dm_runs d) (dm_runs d')"
  using assms(1-3)
proof (induction outs arbitrary: d)
  case Nil
  then show ?case by (simp add: evolves_refl)
next
  case (Cons out outs)
  have "daemon_ok (\<lambda>i. exec_held (lo_executions out) i + (outcomes_held outs i + R i)) d"
    using Cons.prems(1) by (simp add: add.assoc)
  from apply_outcome_result [OF this _ _ assms(4), of now] Cons.prems(3) obtain d1 ws1 where
    d1: "apply_outcome env now out d = Some (d1, ws1)" "daemon_ok (\<lambda>i. outcomes_held outs i + R i) d1"
      "dm_nodes d1 = dm_nodes d" "evolves launch_moves {outcome_key out} (dm_runs d) (dm_runs d1)" by auto
  have "in_state (dm_runs d1) Queued (outcome_key o') \<and> launched_ok (length (dm_nodes d1)) o'" if "o' \<in> set outs" for o'
  proof -
    have "outcome_key o' \<notin> {outcome_key out}" using Cons.prems(2) image_eqI [OF refl that, of outcome_key] by auto
    then show ?thesis using evolves_in_state [OF d1(4)] Cons.prems(3) that d1(3) by simp
  qed
  with Cons.IH [OF d1(2)] Cons.prems(2) obtain d2 ws2 where
    d2: "apply_outcomes env now outs d1 = Some (d2, ws2)" "daemon_ok R d2" "dm_nodes d2 = dm_nodes d1"
      "evolves launch_moves (outcome_key ` set outs) (dm_runs d1) (dm_runs d2)" by auto
  have "evolves launch_moves ({outcome_key out} \<union> outcome_key ` set outs) (dm_runs d) (dm_runs d2)"
    using d1(4) d2(4) Cons.prems(2) by (intro evolves_trans) auto
  then show ?case using d1 d2 by simp
qed

section \<open>Ending keeps the invariant\<close>

abbreviation end_moves :: "(job_state \<times> job_state) set" where
  "end_moves \<equiv> {(Running, Running), (Running, Succeeded), (Running, Failed), (Running, Cancelled)}"

lemma end_job_simps [simp]:
  "ji_executions (end_job now c code tail job) = []" "ji_job_id (end_job now c code tail job) = ji_job_id job"
  "ji_spec (end_job now c code tail job) = ji_spec job" "ji_job_seq (end_job now c code tail job) = ji_job_seq job"
  "ji_rejected (end_job now c code tail job) = ji_rejected job"
  "ji_state (end_job now c code tail job) = (if c then Cancelled else if code = 0 then Succeeded else Failed)"
  by (simp_all add: end_job_def Let_def)

text \<open>A job that ends gives back what it holds.\<close>

lemma daemon_ok_end:
  assumes ok: "daemon_ok R d" and job: "get_job (dm_runs d) r j = Some job" "ji_state job = Running"
  obtains pools where "release_executions (ji_executions job) (dm_pools d) = Some pools"
    "\<And>job' q. ji_job_id job' = ji_job_id job \<Longrightarrow> ji_rejected job' = ji_rejected job \<Longrightarrow> ji_executions job' = []
       \<Longrightarrow> ji_state job' \<noteq> Running
       \<Longrightarrow> daemon_ok R (d\<lparr>dm_pools := pools, dm_requalify := q, dm_runs := modify_job r j (\<lambda>_. job') (dm_runs d)\<rparr>)"
proof -
  let ?n = "length (dm_nodes d)"
  have jok: "job_ok ?n job" using ok runs_ok_get(2) job(1) by (auto simp: daemon_ok_def)
  let ?rs = "\<lambda>job'. modify_job r j (\<lambda>_. job') (dm_runs d)"
  have split: "runs_held (dm_runs d) i = runs_held (?rs job') i + exec_held (ji_executions job) i"
    if "ji_executions job' = []" for job' i
    using runs_held_end [OF job(1), of "\<lambda>_. job'"] that by simp
  have same: "runs_held (?rs job') i = runs_held (?rs (job\<lparr>ji_executions := []\<rparr>)) i" if "ji_executions job' = []" for job' i
    using split [OF that, of i] split [of "job\<lparr>ji_executions := []\<rparr>" i] by simp
  have "accounts (dm_pools d) (\<lambda>i. runs_held (?rs (job\<lparr>ji_executions := []\<rparr>)) i + R i + exec_held (ji_executions job) i)"
    using ok split [of "job\<lparr>ji_executions := []\<rparr>"] by (simp add: daemon_ok_def ac_simps)
  from release_executions_held [OF this] jok job(2) ok obtain pools where
    p: "release_executions (ji_executions job) (dm_pools d) = Some pools"
      "accounts pools (\<lambda>i. runs_held (?rs (job\<lparr>ji_executions := []\<rparr>)) i + R i)" "length pools = length (dm_pools d)"
    by (auto simp: job_ok_def daemon_ok_def)
  show thesis
  proof (rule that [OF p(1)])
    fix job' :: job_instance and q
    assume j': "ji_job_id job' = ji_job_id job" "ji_rejected job' = ji_rejected job" "ji_executions job' = []"
      "ji_state job' \<noteq> Running"
    have "job_ok ?n job'" using j' jok by (simp add: job_ok_def)
    then have "runs_ok (job_ok ?n) (?rs job')"
      using ok job(1) j'(1) by (intro runs_ok_modify) (auto simp: daemon_ok_def)
    then show "daemon_ok R (d\<lparr>dm_pools := pools, dm_requalify := q, dm_runs := ?rs job'\<rparr>)"
      using p ok same [OF j'(3)] by (simp add: daemon_ok_def)
  qed
qed

lemma apply_entry_result:
  assumes ok: "daemon_ok R d" and running: "in_state (dm_runs d) Running (entry_key e)"
  shows "\<exists>d' ws. apply_entry now e d = Some (d', ws) \<and> daemon_ok R d' \<and> dm_nodes d' = dm_nodes d
    \<and> evolves end_moves {entry_key e} (dm_runs d) (dm_runs d')"
proof -
  let ?r = "pe_run_id e" and ?j = "pe_job_id e"
  obtain job where job: "get_job (dm_runs d) ?r ?j = Some job" "ji_state job = Running"
    using running by (auto simp: in_state_def entry_key_def)
  have stay: "evolves end_moves {entry_key e} (dm_runs d) (dm_runs d)"
    using running by (rule evolves_stay) simp
  have move: "evolves end_moves {entry_key e} (dm_runs d) (modify_job ?r ?j (\<lambda>_. job') (dm_runs d))"
    if "ji_state job' \<in> {Succeeded, Failed, Cancelled}" "ji_spec job' = ji_spec job" "ji_job_seq job' = ji_job_seq job" for job'
    using evolves_modify [OF job(1)] job(2) that by (auto simp: entry_key_def)
  obtain pools where p: "release_executions (ji_executions job) (dm_pools d) = Some pools"
    "\<And>job' q. ji_job_id job' = ji_job_id job \<Longrightarrow> ji_rejected job' = ji_rejected job \<Longrightarrow> ji_executions job' = []
       \<Longrightarrow> ji_state job' \<noteq> Running
       \<Longrightarrow> daemon_ok R (d\<lparr>dm_pools := pools, dm_requalify := q, dm_runs := modify_job ?r ?j (\<lambda>_. job') (dm_runs d)\<rparr>)"
    using daemon_ok_end [OF ok job] by blast
  have failed: "daemon_ok R (d\<lparr>dm_pools := pools, dm_runs := modify_job ?r ?j (\<lambda>_. job') (dm_runs d)\<rparr>)"
    if "ji_job_id job' = ji_job_id job" "ji_rejected job' = ji_rejected job" "ji_executions job' = []" "ji_state job' = Failed" for job'
    using p(2) [of job' "dm_requalify d"] that by simp
  show ?thesis
  proof (cases "pe_result e")
    case (Inl error)
    have "?thesis" if "\<nexists>x. error = Unreachable x"
      using Inl job p(1) failed move that
      by (cases error) (auto simp: apply_entry_def Let_def)
    then show ?thesis using Inl job stay ok by (cases "\<exists>x. error = Unreachable x") (auto simp: apply_entry_def Let_def)
  next
    case (Inr result)
    show ?thesis
    proof (cases result)
      case (Exited code)
      then show ?thesis using Inr job p move
        by (auto simp: apply_entry_def Let_def)
    qed (use Inr job stay ok in \<open>auto simp: apply_entry_def Let_def\<close>)
  qed
qed

lemma apply_entries_result:
  assumes "daemon_ok R d" "distinct (map entry_key es)" "\<forall>e \<in> set es. in_state (dm_runs d) Running (entry_key e)"
  shows "\<exists>d' ws. apply_entries now es d = Some (d', ws) \<and> daemon_ok R d' \<and> dm_nodes d' = dm_nodes d
    \<and> evolves end_moves (entry_key ` set es) (dm_runs d) (dm_runs d')"
  using assms
proof (induction es arbitrary: d)
  case Nil
  then show ?case by (simp add: evolves_refl)
next
  case (Cons e es)
  from apply_entry_result [OF Cons.prems(1), of e now] Cons.prems(3) obtain d1 ws1 where
    d1: "apply_entry now e d = Some (d1, ws1)" "daemon_ok R d1" "dm_nodes d1 = dm_nodes d"
      "evolves end_moves {entry_key e} (dm_runs d) (dm_runs d1)" by auto
  have "in_state (dm_runs d1) Running (entry_key e')" if "e' \<in> set es" for e'
  proof -
    have "entry_key e' \<notin> {entry_key e}" using Cons.prems(2) image_eqI [OF refl that, of entry_key] by auto
    then show ?thesis using evolves_in_state [OF d1(4)] Cons.prems(3) that by simp
  qed
  with Cons.IH [OF d1(2)] Cons.prems(2) obtain d2 ws2 where
    d2: "apply_entries now es d1 = Some (d2, ws2)" "daemon_ok R d2" "dm_nodes d2 = dm_nodes d1"
      "evolves end_moves (entry_key ` set es) (dm_runs d1) (dm_runs d2)" by auto
  have "evolves end_moves ({entry_key e} \<union> entry_key ` set es) (dm_runs d) (dm_runs d2)"
    using d1(4) d2(4) Cons.prems(2) by (intro evolves_trans) auto
  then show ?case using d1 d2 by simp
qed

section \<open>The scheduler's sweeps and snapshot\<close>

lemma picked_iff:
  assumes "jobs_ok P js"
  shows "j \<in> set (map ji_job_id (filter Q (map snd js))) \<longleftrightarrow> (\<exists>job. hm_get js j = Some job \<and> Q job)"
proof
  assume "j \<in> set (map ji_job_id (filter Q (map snd js)))"
  then obtain k job where job: "(k, job) \<in> set js" "Q job" "j = ji_job_id job" by auto
  then show "\<exists>job. hm_get js j = Some job \<and> Q job" using jobs_ok_job [OF assms job(1)] by auto
next
  assume "\<exists>job. hm_get js j = Some job \<and> Q job"
  then obtain job where job: "hm_get js j = Some job" "Q job" by blast
  then have "(j, job) \<in> set js" "ji_job_id job = j"
    using assms hm_get_in [of js j job] by (auto simp: jobs_ok_def)
  then show "j \<in> set (map ji_job_id (filter Q (map snd js)))" using job(2) by (force simp: image_iff)
qed

lemma to_queue_iff: "jobs_ok P js \<Longrightarrow> j \<in> set (to_queue js) \<longleftrightarrow>
    (\<exists>job. hm_get js j = Some job \<and> ji_state job = Pending \<and> deps_succeeded js job)"
  unfolding to_queue_def by (simp only: picked_iff)

lemma to_skip_iff: "jobs_ok P js \<Longrightarrow> j \<in> set (to_skip js) \<longleftrightarrow>
    (\<exists>job. hm_get js j = Some job \<and> ji_state job \<in> {Pending, Queued} \<and> dep_ended_badly js job)"
  unfolding to_skip_def by (simp only: picked_iff)

text \<open>What a sweep does to one job.\<close>

lemma sweep_evolves:
  assumes "runs_ok P rs" "\<And>job. f (f job) = f job" "\<And>job. ji_spec (f job) = ji_spec job \<and> ji_job_seq (f job) = ji_job_seq job"
    and pick: "\<And>js j. jobs_ok P js \<Longrightarrow> j \<in> set (pick js) \<longleftrightarrow> (\<exists>job. hm_get js j = Some job \<and> Q js job)"
    and moves: "\<And>js job. Q js job \<Longrightarrow> (ji_state job, ji_state (f job)) \<in> M"
  shows "evolves M {k. \<exists>run job. hm_get rs (fst k) = Some run \<and> hm_get (wr_jobs run) (snd k) = Some job \<and> Q (wr_jobs run) job}
    rs (fst (sweep pick f rs))"
  unfolding evolves_def
proof (intro allI)
  fix k
  let ?K = "{k. \<exists>run job. hm_get rs (fst k) = Some run \<and> hm_get (wr_jobs run) (snd k) = Some job \<and> Q (wr_jobs run) job}"
  show "case get_job rs (fst k) (snd k) of None \<Rightarrow> get_job (fst (sweep pick f rs)) (fst k) (snd k) = None
    | Some job \<Rightarrow> (\<exists>job'. get_job (fst (sweep pick f rs)) (fst k) (snd k) = Some job' \<and> ji_spec job' = ji_spec job
        \<and> ji_job_seq job' = ji_job_seq job \<and> (if k \<in> ?K then (ji_state job, ji_state job') \<in> M else job' = job))"
  proof (cases "hm_get rs (fst k)")
    case None
    then have "get_job rs (fst k) (snd k) = None" "get_job (fst (sweep pick f rs)) (fst k) (snd k) = None"
      by (simp add: get_job_def, simp add: sweep_get [OF assms(2)])
    then show ?thesis by simp
  next
    case (Some run)
    have js: "jobs_ok P (wr_jobs run)" using assms(1) Some by (auto simp: runs_ok_def)
    have g: "get_job rs (fst k) (snd k) = hm_get (wr_jobs run) (snd k)" using Some by (simp add: get_job_def)
    have g': "get_job (fst (sweep pick f rs)) (fst k) (snd k) =
        (if snd k \<in> set (pick (wr_jobs run)) then map_option f (hm_get (wr_jobs run) (snd k)) else hm_get (wr_jobs run) (snd k))"
      using Some by (simp add: sweep_get [OF assms(2)])
    show ?thesis
      using pick [OF js, of "snd k"] assms(3) moves Some by (auto simp: g g' split: option.split)
  qed
qed

lemma sweep_daemon_ok:
  assumes "daemon_ok R d" "\<And>job. f (f job) = f job" "\<And>job. ji_job_id (f job) = ji_job_id job"
    "\<And>job. ji_executions (f job) = ji_executions job"
    and "\<And>js j job. j \<in> set (pick js) \<Longrightarrow> jobs_ok (job_ok (length (dm_nodes d))) js \<Longrightarrow> hm_get js j = Some job
      \<Longrightarrow> job_ok (length (dm_nodes d)) (f job)"
  shows "daemon_ok R (d\<lparr>dm_runs := fst (sweep pick f (dm_runs d))\<rparr>)"
proof -
  have "runs_ok (job_ok (length (dm_nodes d))) (fst (sweep pick f (dm_runs d)))"
    using assms by (intro sweep_ok) (auto simp: daemon_ok_def)
  then show ?thesis using assms(1) by (simp add: daemon_ok_def sweep_held [OF assms(4)])
qed

abbreviation queue_job :: "job_instance \<Rightarrow> job_instance" where
  "queue_job job \<equiv> job\<lparr>ji_state := Queued\<rparr>"

abbreviation skip_job :: "datetime \<Rightarrow> job_instance \<Rightarrow> job_instance" where
  "skip_job now job \<equiv> job\<lparr>ji_state := Skipped, ji_ended_at := Some now\<rparr>"

lemma advance_pending_fst: "fst (advance_pending d) = d\<lparr>dm_runs := fst (sweep to_queue queue_job (dm_runs d))\<rparr>"
  and advance_pending_runs: "dm_runs (fst (advance_pending d)) = fst (sweep to_queue queue_job (dm_runs d))"
  by (simp_all add: advance_pending_def case_prod_beta' Let_def)

lemma cascade_skipped_fst: "fst (cascade_skipped now d) = d\<lparr>dm_runs := fst (sweep to_skip (skip_job now) (dm_runs d))\<rparr>"
  and cascade_skipped_runs: "dm_runs (fst (cascade_skipped now d)) = fst (sweep to_skip (skip_job now) (dm_runs d))"
  by (simp_all add: cascade_skipped_def case_prod_beta' Let_def)

lemma to_queue_job: "jobs_ok P js \<Longrightarrow> j \<in> set (to_queue js) \<Longrightarrow> hm_get js j = Some job \<Longrightarrow> ji_state job = Pending \<and> P job"
  using to_queue_iff [of P js j] by (auto simp: jobs_ok_def)

lemma to_skip_job: "jobs_ok P js \<Longrightarrow> j \<in> set (to_skip js) \<Longrightarrow> hm_get js j = Some job
    \<Longrightarrow> ji_state job \<in> {Pending, Queued} \<and> P job"
  using to_skip_iff [of P js j] by (auto simp: jobs_ok_def)

lemma job_ok_state: "job_ok n job \<Longrightarrow> ji_state job \<noteq> Running \<Longrightarrow> st \<noteq> Running \<Longrightarrow> job_ok n (job\<lparr>ji_state := st\<rparr>)"
  by (simp add: job_ok_def)

lemma advance_pending_ok: "daemon_ok R d \<Longrightarrow> daemon_ok R (fst (advance_pending d))"
  unfolding advance_pending_fst
proof (rule sweep_daemon_ok)
  fix js j job
  assume "j \<in> set (to_queue js)" "jobs_ok (job_ok (length (dm_nodes d))) js" "hm_get js j = Some job"
  then show "job_ok (length (dm_nodes d)) (queue_job job)"
    using to_queue_job by (metis job_ok_state job_state.distinct)
qed simp_all

lemma cascade_skipped_ok: "daemon_ok R d \<Longrightarrow> daemon_ok R (fst (cascade_skipped now d))"
  unfolding cascade_skipped_fst
proof (rule sweep_daemon_ok)
  fix js j job
  assume "j \<in> set (to_skip js)" "jobs_ok (job_ok (length (dm_nodes d))) js" "hm_get js j = Some job"
  then have "ji_state job \<in> {Pending, Queued}" "job_ok (length (dm_nodes d)) job" using to_skip_job by blast+
  then show "job_ok (length (dm_nodes d)) (skip_job now job)" by (auto simp: job_ok_def)
qed simp_all

lemma advance_pending_evolves:
  assumes "runs_ok P (dm_runs d)"
  shows "evolves {(Pending, Queued)} {k. \<exists>run job. hm_get (dm_runs d) (fst k) = Some run
      \<and> hm_get (wr_jobs run) (snd k) = Some job \<and> ji_state job = Pending \<and> deps_succeeded (wr_jobs run) job}
    (dm_runs d) (dm_runs (fst (advance_pending d)))"
  unfolding advance_pending_runs
  by (rule sweep_evolves [OF assms]) (simp_all add: to_queue_iff)

lemma cascade_skipped_evolves:
  assumes "runs_ok P (dm_runs d)"
  shows "evolves {(Pending, Skipped), (Queued, Skipped)} {k. \<exists>run job. hm_get (dm_runs d) (fst k) = Some run
      \<and> hm_get (wr_jobs run) (snd k) = Some job \<and> ji_state job \<in> {Pending, Queued} \<and> dep_ended_badly (wr_jobs run) job}
    (dm_runs d) (dm_runs (fst (cascade_skipped now d)))"
  unfolding cascade_skipped_runs
proof (rule sweep_evolves [OF assms])
  fix js j
  assume "jobs_ok P js"
  then show "j \<in> set (to_skip js) \<longleftrightarrow>
      (\<exists>job. hm_get js j = Some job \<and> ji_state job \<in> {Pending, Queued} \<and> dep_ended_badly js job)" by (rule to_skip_iff)
qed auto

text \<open>The snapshot names running jobs, each once.\<close>

lemma snapshot_ok:
  assumes "runs_ok P rs"
  shows "distinct (map running_key (snapshot rs)) \<and> (\<forall>j \<in> set (snapshot rs). in_state rs Running (running_key j))"
proof -
  have of_job: "running_key j = (r, ji_job_id job) \<and> ji_state job = Running" if "running_of r job = Some j" for r job j
    using that by (auto simp: running_of_def running_key_def split: if_splits list.splits)
  have set_map_filter: "set (List.map_filter f xs) = {y. \<exists>x \<in> set xs. f x = Some y}" for f :: "job_instance \<Rightarrow> running_job option" and xs
    by (induction xs) (auto split: option.splits)
  have one: "map running_key (List.map_filter (running_of r) jobs) =
      map (\<lambda>job. (r, ji_job_id job)) (filter (\<lambda>job. running_of r job \<noteq> None) jobs)" for r jobs
    by (induction jobs) (auto simp: map_filter_simps of_job split: option.splits)
  have wf: "hm_wf rs" "\<And>k run. (k, run) \<in> set rs \<Longrightarrow> wr_run_id run = k \<and> jobs_ok P (wr_jobs run)"
    using assms runs_ok_run [OF assms] by (auto simp: runs_ok_def)
  have source: "\<exists>k run k' job. (k, run) \<in> set rs \<and> (k', job) \<in> set (wr_jobs run) \<and> running_of (wr_run_id run) job = Some j"
    if "j \<in> set (snapshot rs)" for j rs
    using that by (auto simp: snapshot_def set_map_filter) blast
  have ids: "distinct (map ji_job_id (map snd js))" if "jobs_ok P js" for js
  proof -
    have "map ji_job_id (map snd js) = map fst js" using jobs_ok_job [OF that] by auto
    then show ?thesis using that by (simp only: jobs_ok_def hm_wf_def)
  qed
  have d1: "distinct (map running_key (List.map_filter (running_of r) (map snd js)))" if "jobs_ok P js" for r js
    using ids [OF that] by (simp only: one) (auto simp: distinct_map inj_on_def)
  have "distinct (map running_key (snapshot rs))"
    using wf
  proof (induction rs)
    case (Cons x rs)
    obtain k run where x: "x = (k, run)" by (cases x)
    have rest: "fst (running_key j) \<in> fst ` set rs" if "j \<in> set (snapshot rs)" for j
    proof -
      obtain k run k' job where "(k, run) \<in> set rs" "running_of (wr_run_id run) job = Some j"
        using source [OF \<open>j \<in> set (snapshot rs)\<close>] by blast
      then show ?thesis using of_job Cons.prems(2) [of k run] by (force simp: image_iff)
    qed
    have here: "fst (running_key j) = k" if "j \<in> set (List.map_filter (running_of (wr_run_id run)) (map snd (wr_jobs run)))" for j
      using that Cons.prems(2) [of k run] by (auto simp: x set_map_filter dest!: of_job)
    have "hm_wf rs" "k \<notin> fst ` set rs" using Cons.prems(1) by (auto simp: x hm_wf_def)
    moreover have "snapshot (x # rs) = List.map_filter (running_of (wr_run_id run)) (map snd (wr_jobs run)) @ snapshot rs"
      by (simp add: snapshot_def x)
    moreover have "distinct (map running_key (snapshot rs))"
      using Cons.IH [OF \<open>hm_wf rs\<close>] Cons.prems(2) by (meson list.set_intros(2))
    moreover have "set (map running_key (List.map_filter (running_of (wr_run_id run)) (map snd (wr_jobs run))))
        \<inter> set (map running_key (snapshot rs)) = {}"
    proof (rule equals0I, elim IntE)
      fix y
      assume "y \<in> set (map running_key (List.map_filter (running_of (wr_run_id run)) (map snd (wr_jobs run))))"
        "y \<in> set (map running_key (snapshot rs))"
      then obtain j j' where j: "j \<in> set (List.map_filter (running_of (wr_run_id run)) (map snd (wr_jobs run)))" "y = running_key j"
        and j': "j' \<in> set (snapshot rs)" "y = running_key j'" unfolding set_map by blast
      show False using here [OF j(1)] rest [OF j'(1)] j(2) j'(2) \<open>k \<notin> fst ` set rs\<close> by simp
    qed
    moreover have "distinct (map running_key (List.map_filter (running_of (wr_run_id run)) (map snd (wr_jobs run))))"
      using Cons.prems(2) [of k run] by (intro d1) (simp add: x)
    ultimately show ?case by (simp only: map_append distinct_append)
  qed (simp add: snapshot_def)
  moreover have "in_state rs Running (running_key j)" if "j \<in> set (snapshot rs)" for j
  proof -
    obtain k run k' job where "(k, run) \<in> set rs" "(k', job) \<in> set (wr_jobs run)" "running_of (wr_run_id run) job = Some j"
      using source [OF \<open>j \<in> set (snapshot rs)\<close>] by blast
    with of_job [OF this(3)] runs_ok_run [OF assms this(1)] jobs_ok_job [of P "wr_jobs run" k' job] show ?thesis
      by (auto simp: in_state_def get_job_def)
  qed
  ultimately show ?thesis by blast
qed

section \<open>Every step keeps the invariant\<close>

lemma daemon_ok_cong: "daemon_ok R d \<Longrightarrow> (\<And>i. R i = R' i) \<Longrightarrow> daemon_ok R' d"
  by (simp add: daemon_ok_def)

lemma daemon_ok_pools:
  "daemon_ok R d \<Longrightarrow> accounts pools (\<lambda>i. runs_held (dm_runs d) i + R' i) \<Longrightarrow> length pools = length (dm_pools d)
     \<Longrightarrow> daemon_ok R' (d\<lparr>dm_pools := pools\<rparr>)"
  by (simp add: daemon_ok_def)

lemma admit_result:
  assumes "daemon_ok R d"
  shows "\<exists>tasks d'. admit d = Some (tasks, d') \<and> daemon_ok (\<lambda>i. tasks_held tasks i + R i) d'
    \<and> dm_runs d' = dm_runs d \<and> dm_nodes d' = dm_nodes d \<and> map total (dm_pools d') = map total (dm_pools d)
    \<and> phase_ok (length (dm_nodes d)) (dm_runs d) (PhAdmitted tasks)
    \<and> (\<forall>t \<in> set tasks. admitted (map nd_online (dm_nodes d)) (dm_runs d) t)"
proof -
  have acc: "accounts (dm_pools d) (\<lambda>i. runs_held (dm_runs d) i + R i)" "length (map nd_online (dm_nodes d)) = length (dm_pools d)"
    using assms by (simp_all add: daemon_ok_def)
  have ok: "runs_ok (job_ok (length (dm_nodes d))) (dm_runs d)" using assms by (simp add: daemon_ok_def)
  have runs: "hm_wf (dm_runs d)"
    "\<forall>(k, run) \<in> set (dm_runs d). wr_run_id run = k \<and> jobs_ok (job_ok (length (dm_nodes d))) (wr_jobs run)"
    using ok runs_ok_run [OF ok] by (simp add: runs_ok_def, blast)
  from admit_runs_result [OF acc runs] obtain tasks pools where
    t: "admit_runs (map nd_online (dm_nodes d)) (dm_runs d) (dm_pools d) = Some (tasks, pools)"
      "length pools = length (dm_pools d)" "accounts pools (\<lambda>i. runs_held (dm_runs d) i + R i + tasks_held tasks i)"
      "map total pools = map total (dm_pools d)" "distinct (map task_key tasks)"
      "\<forall>t \<in> set tasks. admitted (map nd_online (dm_nodes d)) (dm_runs d) t" by blast
  have "accounts pools (\<lambda>i. runs_held (dm_runs d) i + (tasks_held tasks i + R i))"
    using t(3) by (simp add: ac_simps)
  then have "daemon_ok (\<lambda>i. tasks_held tasks i + R i) (d\<lparr>dm_pools := pools\<rparr>)"
    by (rule daemon_ok_pools [OF assms _ t(2)])
  moreover have "phase_ok (length (dm_nodes d)) (dm_runs d) (PhAdmitted tasks)"
    using t(5,6) by (auto simp: phase_ok_def admitted_def in_state_def task_key_def)
  ultimately show ?thesis using t by (simp add: admit_def)
qed

lemma launch_keeps:
  assumes "phase_ok n rs (PhAdmitted tasks)"
  shows "phase_ok n rs (PhLaunched (map (launch_task launch) tasks))"
    "outcomes_held (map (launch_task launch) tasks) i = tasks_held tasks i"
proof -
  have at: "\<exists>m a. at_placement t = [(m, a)] \<and> m < n" if "t \<in> set tasks" for t
    using assms that by (auto simp: phase_ok_def)
  have "map outcome_key (map (launch_task launch) tasks) = map task_key tasks"
    by (simp add: outcome_key_launch)
  moreover have "launched_ok n (launch_task launch t)" if "t \<in> set tasks" for t
    using at [OF that] launch_task_ok by blast
  ultimately show "phase_ok n rs (PhLaunched (map (launch_task launch) tasks))"
    using assms by (simp add: phase_ok_def outcome_key_launch comp_def)
  show "outcomes_held (map (launch_task launch) tasks) i = tasks_held tasks i"
    using at
  proof (induction tasks)
    case (Cons t tasks)
    then show ?case using launch_task_held by (metis (no_types, lifting) list.set_intros list.simps(9) outcomes_held_simps(2) tasks_held_simps(2))
  qed simp
qed

lemma poll_keeps:
  assumes "phase_ok n rs (PhRunning js)"
  shows "phase_ok n rs (PhPolled (map (poll_job poll tail) js))"
proof -
  have "entry_key (poll_job poll tail j) = running_key j" for j
    by (simp add: entry_key_def running_key_def poll_job_def Let_def)
  then show ?thesis using assms by (simp add: phase_ok_def comp_def)
qed

lemma check_keeps:
  assumes "daemon_ok R d" "length readings = length (dm_nodes d)"
  shows "\<exists>pools requalify since' pend. check_nodes now utc last_q 0 (zip (map nd_online (dm_nodes d)) readings)
      (dm_pools d, rq, since) = Some (pools, requalify, since', pend)
    \<and> daemon_ok (\<lambda>i. pend_held pend i + R i) (d\<lparr>dm_pools := pools, dm_requalify := requalify\<rparr>)
    \<and> (\<forall>p \<in> set pend. pq_node p < length (dm_nodes d))"
proof -
  let ?nodes = "zip (map nd_online (dm_nodes d)) readings"
  have "accounts (dm_pools d) (\<lambda>i. runs_held (dm_runs d) i + R i)" "0 + length ?nodes \<le> length (dm_pools d)"
    using assms by (simp_all add: daemon_ok_def)
  from check_nodes_result [OF this] obtain pools requalify since' pend where
    c: "check_nodes now utc last_q 0 ?nodes (dm_pools d, rq, since) = Some (pools, requalify, since', pend)"
      "length pools = length (dm_pools d)" "accounts pools (\<lambda>i. runs_held (dm_runs d) i + R i + pend_held pend i)"
      "\<forall>p \<in> set pend. pending_at 0 ?nodes (dm_pools d) p" by blast
  have "accounts pools (\<lambda>i. runs_held (dm_runs d) i + (pend_held pend i + R i))" using c(3) by (simp add: ac_simps)
  with daemon_ok_pools [OF assms(1) this c(2)] have
    "daemon_ok (\<lambda>i. pend_held pend i + R i) (d\<lparr>dm_pools := pools, dm_requalify := requalify\<rparr>)"
    by (simp add: daemon_ok_def)
  then show ?thesis using c(1,4) assms(2) by (auto simp: pending_at_def)
qed

lemma sys_inv_simps:
  "sys_inv env \<lparr>sy_daemon = d, sy_checks = c, sy_phase = ph\<rparr> \<longleftrightarrow>
     env_home env \<noteq> None \<and> daemon_ok (\<lambda>i. phase_held ph i + quals_held (gc_qualifying c) i) d
     \<and> phase_ok (length (dm_nodes d)) (dm_runs d) ph \<and> (\<forall>q \<in> set (gc_qualifying c). qu_node q < length (dm_nodes d))"
  by (simp add: sys_inv_def in_hand_def [abs_def])

lemma phase_held_simps [simp]:
  "phase_held PhIdle i = {#}" "phase_held (PhAdmitted ts) i = tasks_held ts i"
  "phase_held (PhLaunched outs) i = outcomes_held outs i" "phase_held (PhRunning js) i = {#}"
  "phase_held (PhPolled es) i = {#}" "phase_held (PhStarting ps) i = pend_held ps i"
  by (simp_all add: phase_held_def)

lemma phase_ok_simps [simp]:
  "phase_ok n rs PhIdle" "phase_ok n rs (PhStarting ps) \<longleftrightarrow> (\<forall>p \<in> set ps. pq_node p < n)"
  by (simp_all add: phase_ok_def)

lemma start_run_nodes [simp]: "dm_nodes (start_run r now spec d) = dm_nodes d" "dm_pools (start_run r now spec d) = dm_pools d"
  by (simp_all add: start_run_def Let_def)

lemma handle_cancel_daemon:
  "handle_cancel r d = (reply, handles, d') \<Longrightarrow> d' = d \<or> d' = d\<lparr>dm_runs := cancel_run r (dm_runs d)\<rparr>"
  by (auto simp: handle_cancel_def split: option.splits)

lemma step_keeps_request:
  assumes "sys_inv env \<lparr>sy_daemon = d, sy_checks = c, sy_phase = ph\<rparr>"
  shows "hm_get (dm_runs d) r = None \<Longrightarrow> sys_inv env \<lparr>sy_daemon = start_run r now spec d, sy_checks = c, sy_phase = ph\<rparr>"
    "sys_inv env \<lparr>sy_daemon = d\<lparr>dm_runs := cancel_run r (dm_runs d)\<rparr>, sy_checks = c, sy_phase = ph\<rparr>"
    "length ns = length (dm_nodes d) \<Longrightarrow> sys_inv env \<lparr>sy_daemon = d\<lparr>dm_nodes := ns\<rparr>, sy_checks = c, sy_phase = ph\<rparr>"
    "flush_transitions at ws d = Some d' \<Longrightarrow> sys_inv env \<lparr>sy_daemon = d', sy_checks = c, sy_phase = ph\<rparr>"
proof -
  note inv = assms [unfolded sys_inv_simps]
  have ok: "runs_ok (job_ok (length (dm_nodes d))) (dm_runs d)" and
    ph: "phase_ok (length (dm_nodes d)) (dm_runs d) ph" using inv by (simp_all add: daemon_ok_def)
  show "sys_inv env \<lparr>sy_daemon = start_run r now spec d, sy_checks = c, sy_phase = ph\<rparr>" if "hm_get (dm_runs d) r = None"
    using inv start_run_keeps [OF ok that] phase_ok_states [OF ph] by (simp add: sys_inv_simps daemon_ok_def)
  show "sys_inv env \<lparr>sy_daemon = d\<lparr>dm_runs := cancel_run r (dm_runs d)\<rparr>, sy_checks = c, sy_phase = ph\<rparr>"
    using inv cancel_run_keeps [OF ok] phase_ok_states [OF ph] by (simp add: sys_inv_simps daemon_ok_def)
  show "sys_inv env \<lparr>sy_daemon = d\<lparr>dm_nodes := ns\<rparr>, sy_checks = c, sy_phase = ph\<rparr>" if "length ns = length (dm_nodes d)"
    using inv that by (simp add: sys_inv_simps daemon_ok_def)
  show "sys_inv env \<lparr>sy_daemon = d', sy_checks = c, sy_phase = ph\<rparr>" if "flush_transitions at ws d = Some d'"
    using inv flush_keeps [OF that] by (simp add: sys_inv_simps daemon_ok_def)
qed

lemma step_keeps_sweeps:
  assumes "sys_inv env \<lparr>sy_daemon = d, sy_checks = c, sy_phase = PhIdle\<rparr>"
  shows "sys_inv env \<lparr>sy_daemon = fst (advance_pending d), sy_checks = c, sy_phase = PhIdle\<rparr>"
    "sys_inv env \<lparr>sy_daemon = fst (cascade_skipped now d), sy_checks = c, sy_phase = PhIdle\<rparr>"
proof -
  have n: "dm_nodes (fst (advance_pending d)) = dm_nodes d" "dm_nodes (fst (cascade_skipped now d)) = dm_nodes d"
    by (simp_all add: advance_pending_fst cascade_skipped_fst)
  show "sys_inv env \<lparr>sy_daemon = fst (advance_pending d), sy_checks = c, sy_phase = PhIdle\<rparr>"
    "sys_inv env \<lparr>sy_daemon = fst (cascade_skipped now d), sy_checks = c, sy_phase = PhIdle\<rparr>"
    using assms advance_pending_ok cascade_skipped_ok by (simp_all add: sys_inv_simps n)
qed

lemma step_keeps_launch:
  assumes "sys_inv env \<lparr>sy_daemon = d, sy_checks = c, sy_phase = ph\<rparr>"
  shows "ph = PhIdle \<Longrightarrow> \<exists>tasks d'. admit d = Some (tasks, d')
      \<and> sys_inv env \<lparr>sy_daemon = d', sy_checks = c, sy_phase = PhAdmitted tasks\<rparr>"
    "ph = PhAdmitted tasks \<Longrightarrow> sys_inv env \<lparr>sy_daemon = d, sy_checks = c, sy_phase = PhLaunched (map (launch_task launch) tasks)\<rparr>"
    "ph = PhLaunched outcomes \<Longrightarrow> \<exists>d' ws. apply_outcomes env now outcomes d = Some (d', ws)
      \<and> sys_inv env \<lparr>sy_daemon = d', sy_checks = c, sy_phase = PhIdle\<rparr>"
proof -
  note inv = assms [unfolded sys_inv_simps]
  show "\<exists>tasks d'. admit d = Some (tasks, d') \<and> sys_inv env \<lparr>sy_daemon = d', sy_checks = c, sy_phase = PhAdmitted tasks\<rparr>"
    if "ph = PhIdle"
    using admit_result [of "\<lambda>i. quals_held (gc_qualifying c) i" d] inv that by (auto simp: sys_inv_simps)
  show "sys_inv env \<lparr>sy_daemon = d, sy_checks = c, sy_phase = PhLaunched (map (launch_task launch) tasks)\<rparr>"
    if "ph = PhAdmitted tasks"
    using inv launch_keeps [of "length (dm_nodes d)" "dm_runs d" tasks launch] that by (simp add: sys_inv_simps)
  show "\<exists>d' ws. apply_outcomes env now outcomes d = Some (d', ws) \<and> sys_inv env \<lparr>sy_daemon = d', sy_checks = c, sy_phase = PhIdle\<rparr>"
    if "ph = PhLaunched outcomes"
    using inv that apply_outcomes_result [of outcomes "\<lambda>i. quals_held (gc_qualifying c) i" d env now]
    by (auto simp: sys_inv_simps phase_ok_def)
qed

lemma step_keeps_poll:
  assumes "sys_inv env \<lparr>sy_daemon = d, sy_checks = c, sy_phase = ph\<rparr>"
  shows "ph = PhIdle \<Longrightarrow> sys_inv env \<lparr>sy_daemon = d, sy_checks = c, sy_phase = PhRunning (snapshot (dm_runs d))\<rparr>"
    "ph = PhRunning js \<Longrightarrow> sys_inv env \<lparr>sy_daemon = d, sy_checks = c, sy_phase = PhPolled (map (poll_job poll tail) js)\<rparr>"
    "ph = PhPolled entries \<Longrightarrow> \<exists>d' ws. apply_entries now entries d = Some (d', ws)
      \<and> sys_inv env \<lparr>sy_daemon = d', sy_checks = c, sy_phase = PhIdle\<rparr>"
proof -
  note inv = assms [unfolded sys_inv_simps]
  show "sys_inv env \<lparr>sy_daemon = d, sy_checks = c, sy_phase = PhRunning (snapshot (dm_runs d))\<rparr>" if "ph = PhIdle"
    using inv snapshot_ok [of "job_ok (length (dm_nodes d))" "dm_runs d"] that
    by (simp add: sys_inv_simps phase_ok_def daemon_ok_def)
  show "sys_inv env \<lparr>sy_daemon = d, sy_checks = c, sy_phase = PhPolled (map (poll_job poll tail) js)\<rparr>" if "ph = PhRunning js"
    using inv poll_keeps [of "length (dm_nodes d)" "dm_runs d" js poll tail] that by (simp add: sys_inv_simps)
  show "\<exists>d' ws. apply_entries now entries d = Some (d', ws) \<and> sys_inv env \<lparr>sy_daemon = d', sy_checks = c, sy_phase = PhIdle\<rparr>"
    if "ph = PhPolled entries"
    using inv that apply_entries_result [of "\<lambda>i. quals_held (gc_qualifying c) i" d entries now]
    by (auto simp: sys_inv_simps phase_ok_def)
qed

lemma step_keeps_checks:
  assumes "sys_inv env \<lparr>sy_daemon = d, sy_checks = c, sy_phase = ph\<rparr>"
  shows "ph = PhIdle \<Longrightarrow> \<exists>c' pools sent. finish_qualifications now poll c (dm_pools d) = Some (c', pools, sent)
      \<and> sys_inv env \<lparr>sy_daemon = d\<lparr>dm_pools := pools\<rparr>, sy_checks = c', sy_phase = PhIdle\<rparr>"
    "ph = PhIdle \<Longrightarrow> length readings = length (dm_nodes d) \<Longrightarrow>
      \<exists>pools requalify since pend. check_nodes now utc (gc_last_qualified c) 0 (zip (map nd_online (dm_nodes d)) readings)
          (dm_pools d, dm_requalify d, gc_blocked_since c) = Some (pools, requalify, since, pend)
        \<and> sys_inv env \<lparr>sy_daemon = d\<lparr>dm_pools := pools, dm_requalify := requalify\<rparr>,
            sy_checks = c\<lparr>gc_blocked_since := since\<rparr>, sy_phase = PhStarting pend\<rparr>"
    "ph = PhStarting (p # pend) \<Longrightarrow> \<exists>c' pools. begin_qualification now launch run_id p (c, dm_pools d) = Some (c', pools)
      \<and> sys_inv env \<lparr>sy_daemon = d\<lparr>dm_pools := pools\<rparr>, sy_checks = c', sy_phase = PhStarting pend\<rparr>"
proof -
  note inv = assms [unfolded sys_inv_simps]
  have len: "length (dm_pools d) = length (dm_nodes d)" using inv by (simp add: daemon_ok_def)
  show "\<exists>c' pools sent. finish_qualifications now poll c (dm_pools d) = Some (c', pools, sent)
      \<and> sys_inv env \<lparr>sy_daemon = d\<lparr>dm_pools := pools\<rparr>, sy_checks = c', sy_phase = PhIdle\<rparr>" if "ph = PhIdle"
  proof -
    have "accounts (dm_pools d) (\<lambda>i. runs_held (dm_runs d) i + quals_held (gc_qualifying c) i)"
      using inv that by (simp add: daemon_ok_def)
    from finish_qualifications_held [OF this, of now poll] inv len obtain c' pools sent where
      f: "finish_qualifications now poll c (dm_pools d) = Some (c', pools, sent)"
        "accounts pools (\<lambda>i. runs_held (dm_runs d) i + quals_held (gc_qualifying c') i)" "length pools = length (dm_pools d)"
        "set (gc_qualifying c') \<subseteq> set (gc_qualifying c)" by auto
    then show ?thesis using inv daemon_ok_pools [OF _ f(2,3)] by (auto simp: sys_inv_simps)
  qed
  show "\<exists>pools requalify since pend. check_nodes now utc (gc_last_qualified c) 0 (zip (map nd_online (dm_nodes d)) readings)
          (dm_pools d, dm_requalify d, gc_blocked_since c) = Some (pools, requalify, since, pend)
        \<and> sys_inv env \<lparr>sy_daemon = d\<lparr>dm_pools := pools, dm_requalify := requalify\<rparr>,
            sy_checks = c\<lparr>gc_blocked_since := since\<rparr>, sy_phase = PhStarting pend\<rparr>"
    if "ph = PhIdle" "length readings = length (dm_nodes d)"
    using inv that check_keeps [of "\<lambda>i. quals_held (gc_qualifying c) i" d readings now utc "gc_last_qualified c" "dm_requalify d"
        "gc_blocked_since c"]
    by (fastforce simp: sys_inv_simps)
  show "\<exists>c' pools. begin_qualification now launch run_id p (c, dm_pools d) = Some (c', pools)
      \<and> sys_inv env \<lparr>sy_daemon = d\<lparr>dm_pools := pools\<rparr>, sy_checks = c', sy_phase = PhStarting pend\<rparr>"
    if "ph = PhStarting (p # pend)"
  proof -
    have "accounts (dm_pools d) (\<lambda>i. (runs_held (dm_runs d) i + pend_held pend i) + pend_held [p] i + quals_held (gc_qualifying c) i)"
      using inv that by (simp add: daemon_ok_def ac_simps)
    from begin_qualification_held [OF this, of now launch run_id] inv that len obtain c' pools where
      b: "begin_qualification now launch run_id p (c, dm_pools d) = Some (c', pools)"
        "accounts pools (\<lambda>i. (runs_held (dm_runs d) i + pend_held pend i) + quals_held (gc_qualifying c') i)"
        "length pools = length (dm_pools d)"
        "\<forall>q \<in> set (gc_qualifying c'). q \<in> set (gc_qualifying c) \<or> qu_node q = pq_node p" by auto
    have "accounts pools (\<lambda>i. runs_held (dm_runs d) i + (pend_held pend i + quals_held (gc_qualifying c') i))"
      using b(2) by (simp add: ac_simps)
    from daemon_ok_pools [OF _ this b(3)] inv have
      "daemon_ok (\<lambda>i. pend_held pend i + quals_held (gc_qualifying c') i) (d\<lparr>dm_pools := pools\<rparr>)" by blast
    then show ?thesis using b(1,4) inv that by (auto simp: sys_inv_simps)
  qed
qed

lemma step_keeps:
  assumes "sys_inv env s" "step env s s'"
  shows "sys_inv env s'"
  using assms(2)
proof cases
  case (st_submit d run_id spec c ph now)
  then show ?thesis using assms(1) step_keeps_request(1) by simp
next
  case (st_cancel run_id d reply handles d' c ph)
  then show ?thesis using assms(1) step_keeps_request(2) handle_cancel_daemon by (metis (no_types))
next
  case (st_nodes ns d c ph)
  then have "length ns = length (dm_nodes d)" by (metis length_map)
  then show ?thesis using st_nodes assms(1) step_keeps_request(3) by simp
next
  case (st_flush at ws d d' c ph)
  then show ?thesis using assms(1) step_keeps_request(4) by simp
next
  case (st_pending d d' ws c)
  then show ?thesis using assms(1) step_keeps_sweeps(1) [of env d c] by simp
next
  case (st_skip now d d' ws c)
  then show ?thesis using assms(1) step_keeps_sweeps(2) [of env d c now] by simp
next
  case (st_admit d tasks d' c)
  then show ?thesis using assms(1) step_keeps_launch(1) [of env d c PhIdle] by simp
next
  case (st_launch d c tasks launch)
  then show ?thesis using assms(1) step_keeps_launch(2) by simp
next
  case (st_launched now outcomes d d' ws c)
  then show ?thesis using assms(1) step_keeps_launch(3) [of env d c _ outcomes now] by simp
next
  case (st_snapshot d c)
  then show ?thesis using assms(1) step_keeps_poll(1) by simp
next
  case (st_poll d c js poll tail)
  then show ?thesis using assms(1) step_keeps_poll(2) by simp
next
  case (st_polled now entries d d' ws c)
  then show ?thesis using assms(1) step_keeps_poll(3) [of env d c _ entries now] by simp
next
  case (st_finish now poll c d c' pools sent)
  then show ?thesis using assms(1) step_keeps_checks(1) [of env d c _ now poll] by simp
next
  case (st_check readings d now utc c pools requalify since pend)
  then show ?thesis using assms(1) step_keeps_checks(2) [of env d c _ readings now utc] by simp
next
  case (st_start now launch run_id p c d c' pools pend)
  then show ?thesis using assms(1) step_keeps_checks(3) [of env d c _ p pend now launch run_id] by simp
next
  case (st_started d c)
  then show ?thesis using assms(1) by (simp add: sys_inv_simps)
qed

lemma initial_inv: "initial env s \<Longrightarrow> sys_inv env s"
  by (auto simp: initial_def sys_inv_simps daemon_ok_def daemon_new_def accounts_def runs_held_def runs_ok_def hm_wf_def
    gpu_checks_default_def)

interpretation scheduler: invariant_system "initial env" "step env" "sys_inv env" for env
  by unfold_locales (auto intro: initial_inv step_keeps)

end
