(* ===== verification/Scheduler_Safety.thy ===== *)
theory Scheduler_Safety
  imports Scheduler_System
begin

text \<open>
  What the scheduler never does, whatever requests, nodes and cards do in between: hand out more
  than a node has, panic, move a job along any but the documented transitions, or run a job
  before its dependencies have succeeded.
\<close>

section \<open>How a step changes the jobs\<close>

text \<open>The transitions of a job. The states without a successor are the terminal ones.\<close>

definition job_moves :: "(job_state \<times> job_state) set" where
  "job_moves = {(Pending, Queued), (Pending, Skipped), (Queued, Skipped), (Queued, Running), (Queued, Failed),
     (Running, Succeeded), (Running, Failed), (Running, Cancelled)}"

abbreviation ended_badly :: "job_state set" where
  "ended_badly \<equiv> {Failed, Skipped, Cancelled, TimedOut, Interrupted}"

definition deps_done :: "runs \<Rightarrow> string \<Rightarrow> job_instance \<Rightarrow> bool" where
  "deps_done rs r job \<longleftrightarrow> (\<forall>dep \<in> set (js_depends_on (ji_spec job)). in_state rs Succeeded (r, dep))"

definition dep_failed :: "runs \<Rightarrow> string \<Rightarrow> job_instance \<Rightarrow> bool" where
  "dep_failed rs r job \<longleftrightarrow> (\<exists>dep \<in> set (js_depends_on (ji_spec job)). \<exists>st \<in> ended_badly. in_state rs st (r, dep))"

lemma deps_done_run: "hm_get rs r = Some run \<Longrightarrow> deps_succeeded (wr_jobs run) job = deps_done rs r job"
  by (auto simp: deps_succeeded_def deps_done_def list_all_iff in_state_def get_job_def)

lemma dep_failed_run: "hm_get rs r = Some run \<Longrightarrow> dep_ended_badly (wr_jobs run) job = dep_failed rs r job"
  by (fastforce simp: dep_ended_badly_def dep_failed_def list_ex_iff in_state_def get_job_def)

text \<open>
  No job is lost or loses its spec or number; a job moves at most one transition, is queued only
  once its dependencies are done and skipped only after one has ended badly; a new job is pending.
\<close>

definition job_follows :: "runs \<Rightarrow> string \<Rightarrow> job_instance \<Rightarrow> job_instance \<Rightarrow> bool" where
  "job_follows rs r job job' \<longleftrightarrow> ji_spec job' = ji_spec job \<and> ji_job_seq job' = ji_job_seq job
     \<and> (ji_state job' = ji_state job \<or> (ji_state job, ji_state job') \<in> job_moves)
     \<and> (ji_state job = Pending \<and> ji_state job' = Queued \<longrightarrow> deps_done rs r job)
     \<and> (ji_state job \<noteq> Skipped \<and> ji_state job' = Skipped \<longrightarrow> dep_failed rs r job)"

definition run_deps :: "runs \<Rightarrow> string \<Rightarrow> (string \<times> string) set" where
  "run_deps rs r = {(dep, j). \<exists>job. get_job rs r j = Some job \<and> dep \<in> set (js_depends_on (ji_spec job))}"

definition dag_ok :: "runs \<Rightarrow> string \<Rightarrow> bool" where
  "dag_ok rs r \<longleftrightarrow> acyclic (run_deps rs r) \<and> (\<forall>(dep, j) \<in> run_deps rs r. get_job rs r dep \<noteq> None)"

definition jobs_follow :: "runs \<Rightarrow> runs \<Rightarrow> bool" where
  "jobs_follow rs rs' \<longleftrightarrow>
     (\<forall>r j job. get_job rs r j = Some job \<longrightarrow> (\<exists>job'. get_job rs' r j = Some job' \<and> job_follows rs r job job'))
     \<and> (\<forall>r j job'. get_job rs' r j = Some job' \<longrightarrow> get_job rs r j \<noteq> None \<or> ji_state job' = Pending)
     \<and> (\<forall>r. dag_ok rs r \<longrightarrow> dag_ok rs' r)"

text \<open>The dependencies of a run depend on the specs of its jobs only.\<close>

lemma dag_ok_specs:
  assumes "\<And>j. map_option ji_spec (get_job rs' r j) = map_option ji_spec (get_job rs r j)"
  shows "dag_ok rs' r = dag_ok rs r"
proof -
  have "(get_job rs' r j = None) = (get_job rs r j = None)" for j using assms [of j] by (metis map_option_is_None)
  moreover have "(\<exists>job. get_job rs' r j = Some job \<and> dep \<in> set (js_depends_on (ji_spec job)))
      = (\<exists>job. get_job rs r j = Some job \<and> dep \<in> set (js_depends_on (ji_spec job)))" for dep j
    using assms [of j] by (cases "get_job rs r j"; cases "get_job rs' r j") auto
  ultimately show ?thesis by (simp add: dag_ok_def run_deps_def)
qed

lemma job_follows_refl: "job_follows rs r job job"
  by (auto simp add: job_follows_def)

lemma jobs_follow_refl: "jobs_follow rs rs"
  by (auto simp: jobs_follow_def intro: job_follows_refl)

lemma evolves_follow:
  assumes "evolves M K rs rs'"
    and "\<And>r j job job'. (r, j) \<in> K \<Longrightarrow> get_job rs r j = Some job \<Longrightarrow> (ji_state job, ji_state job') \<in> M
      \<Longrightarrow> ji_spec job' = ji_spec job \<Longrightarrow> ji_job_seq job' = ji_job_seq job \<Longrightarrow> job_follows rs r job job'"
  shows "jobs_follow rs rs'"
  unfolding jobs_follow_def
proof (intro conjI allI impI)
  fix r j job
  assume job: "get_job rs r j = Some job"
  then show "\<exists>job'. get_job rs' r j = Some job' \<and> job_follows rs r job job'"
    using assms(1) [unfolded evolves_def, rule_format, of "(r, j)"] assms(2) [OF _ job]
    by (auto simp: job_follows_refl split: if_splits)
next
  fix r j job'
  assume "get_job rs' r j = Some job'"
  then show "get_job rs r j \<noteq> None \<or> ji_state job' = Pending"
    using assms(1) [unfolded evolves_def, rule_format, of "(r, j)"] by (auto split: option.splits)
next
  fix r
  have "map_option ji_spec (get_job rs' r j) = map_option ji_spec (get_job rs r j)" for j
    using assms(1) [unfolded evolves_def, rule_format, of "(r, j)"] by (auto split: option.splits)
  then show "dag_ok rs r \<Longrightarrow> dag_ok rs' r" using dag_ok_specs by blast
qed

text \<open>A submitted workflow is well formed, so its jobs can be put in order.\<close>

lemma start_run_dag:
  assumes "hm_get (dm_runs d) run_id = None" "well_formed spec"
  shows "dag_ok (dm_runs (start_run run_id now spec d)) run_id"
proof -
  let ?js = "collect_jobs (dm_job_counter d) (ws_jobs spec) []"
  have ids: "distinct (map js_id (ws_jobs spec))" using assms(2) by (simp add: well_formed_def)
  have get: "get_job (dm_runs (start_run run_id now spec d)) run_id j = hm_get ?js j" for j
    using get_job_start_run [OF assms(1)] by simp
  have here: "hm_get ?js (js_id job) \<noteq> None" if "job \<in> set (ws_jobs spec)" for job
    using that collect_jobs_get [OF ids] by (auto simp: in_set_conv_nth)
  have from_spec: "ji_spec job \<in> set (ws_jobs spec) \<and> js_id (ji_spec job) = j" if "hm_get ?js j = Some job" for j job
    using collect_jobs_all [of "[]" "\<lambda>k job. ji_spec job \<in> set (ws_jobs spec) \<and> js_id (ji_spec job) = k" "ws_jobs spec"
        "dm_job_counter d"] that by (auto dest: map_of_SomeD)
  have sub: "run_deps (dm_runs (start_run run_id now spec d)) run_id \<subseteq> depends spec"
    unfolding run_deps_def get depends_def using from_spec by blast
  have known: "get_job (dm_runs (start_run run_id now spec d)) run_id dep \<noteq> None" if "(dep, j) \<in> depends spec" for dep j
  proof -
    have "dep \<in> set (map js_id (ws_jobs spec))"
      using that assms(2) by (auto simp: depends_def well_formed_def deps_known_def list_all_iff)
    then obtain job where "job \<in> set (ws_jobs spec)" "dep = js_id job" by auto
    then show ?thesis using here [of job] by (simp add: get)
  qed
  have "acyclic (run_deps (dm_runs (start_run run_id now spec d)) run_id)"
    by (rule acyclic_subset [OF _ sub]) (use assms(2) in \<open>simp add: well_formed_def\<close>)
  then show ?thesis using sub known unfolding dag_ok_def by blast
qed

lemma step_jobs:
  assumes inv: "sys_inv env s" and step: "step env s s'"
  shows "jobs_follow (dm_runs (sy_daemon s)) (dm_runs (sy_daemon s'))"
  using step
proof cases
  case (st_submit d run_id spec c ph now)
  have "ji_state job' = Pending" if "hm_get (collect_jobs (dm_job_counter d) (ws_jobs spec) []) j = Some job'" for j job'
    using collect_jobs_all [of "[]" "\<lambda>_ job. ji_state job = Pending" "ws_jobs spec" "dm_job_counter d"] that
    by (auto dest: map_of_SomeD)
  moreover have "get_job (dm_runs d) run_id j = None" for j using st_submit by (simp add: get_job_def)
  moreover have "dag_ok (dm_runs d) r \<Longrightarrow> dag_ok (dm_runs (start_run run_id now spec d)) r" for r
    using start_run_dag [of d run_id spec now] st_submit
      dag_ok_specs [of "dm_runs (start_run run_id now spec d)" r "dm_runs d"]
    by (cases "r = run_id") (simp_all add: get_job_start_run)
  ultimately show ?thesis using st_submit
    by (auto simp: jobs_follow_def get_job_start_run job_follows_refl)
next
  case (st_cancel run_id d reply handles d' c ph)
  have "jobs_follow (dm_runs d) (cancel_run run_id (dm_runs d))"
    unfolding jobs_follow_def
  proof (intro conjI allI impI)
    fix r
    have "map_option ji_spec (get_job (cancel_run run_id (dm_runs d)) r j) = map_option ji_spec (get_job (dm_runs d) r j)" for j
      by (auto simp: get_job_cancel option.map_comp comp_def)
    then show "dag_ok (dm_runs d) r \<Longrightarrow> dag_ok (cancel_run run_id (dm_runs d)) r" using dag_ok_specs by blast
  qed (auto simp: get_job_cancel job_follows_def split: if_splits)
  then show ?thesis using st_cancel handle_cancel_daemon [OF st_cancel(3)] jobs_follow_refl by auto
next
  case (st_flush at ws d d' c ph)
  then show ?thesis using flush_keeps jobs_follow_refl by simp
next
  case (st_pending d d' ws c)
  have "runs_ok (job_ok (length (dm_nodes d))) (dm_runs d)" using inv st_pending by (simp add: sys_inv_simps daemon_ok_def)
  from advance_pending_evolves [OF this] show ?thesis
    unfolding st_pending using st_pending(3)
    by (auto intro!: evolves_follow simp: job_follows_def job_moves_def get_job_def deps_done_run)
next
  case (st_skip now d d' ws c)
  have "runs_ok (job_ok (length (dm_nodes d))) (dm_runs d)" using inv st_skip by (simp add: sys_inv_simps daemon_ok_def)
  from cascade_skipped_evolves [OF this, of now] show ?thesis
    unfolding st_skip using st_skip(3)
    by (auto intro!: evolves_follow simp: job_follows_def job_moves_def get_job_def dep_failed_run)
next
  case (st_admit d tasks d' c)
  then show ?thesis using inv admit_result [of "\<lambda>i. quals_held (gc_qualifying c) i" d] jobs_follow_refl
    by (fastforce simp: sys_inv_simps)
next
  case (st_launched now outcomes d d' ws c)
  then obtain "evolves launch_moves (outcome_key ` set outcomes) (dm_runs d) (dm_runs d')"
    using inv apply_outcomes_result [of outcomes "\<lambda>i. quals_held (gc_qualifying c) i" d env now]
    by (auto simp: sys_inv_simps phase_ok_def)
  then have "jobs_follow (dm_runs d) (dm_runs d')"
    by (rule evolves_follow) (auto simp: job_follows_def job_moves_def)
  then show ?thesis by (simp add: st_launched)
next
  case (st_polled now entries d d' ws c)
  then obtain "evolves end_moves (entry_key ` set entries) (dm_runs d) (dm_runs d')"
    using inv apply_entries_result [of "\<lambda>i. quals_held (gc_qualifying c) i" d entries now]
    by (auto simp: sys_inv_simps phase_ok_def)
  then have "jobs_follow (dm_runs d) (dm_runs d')"
    by (rule evolves_follow) (auto simp: job_follows_def job_moves_def)
  then show ?thesis by (simp add: st_polled)
qed (simp_all add: jobs_follow_refl)

section \<open>Dependencies\<close>

text \<open>
  A job past \<open>Pending\<close> has all its dependencies done, unless it was skipped, and then one of them
  ended badly.
\<close>

definition dep_inv :: "runs \<Rightarrow> bool" where
  "dep_inv rs \<longleftrightarrow> (\<forall>r j job. get_job rs r j = Some job \<longrightarrow>
     (ji_state job \<notin> {Pending, Skipped} \<longrightarrow> deps_done rs r job) \<and> (ji_state job = Skipped \<longrightarrow> dep_failed rs r job))"

lemma final_stays:
  assumes "jobs_follow rs rs'" "in_state rs st k" "st \<in> {Succeeded, Failed, Skipped, Cancelled, TimedOut, Interrupted}"
  shows "in_state rs' st k"
proof -
  obtain job where job: "get_job rs (fst k) (snd k) = Some job" "ji_state job = st"
    using assms(2) by (auto simp: in_state_def)
  then obtain job' where "get_job rs' (fst k) (snd k) = Some job'" "job_follows rs (fst k) job job'"
    using assms(1) unfolding jobs_follow_def by blast
  then show ?thesis using job(2) assms(3) by (auto simp: in_state_def job_follows_def job_moves_def)
qed

lemma deps_done_stays:
  assumes "jobs_follow rs rs'" "deps_done rs r job" "ji_spec job' = ji_spec job"
  shows "deps_done rs' r job'"
  using assms final_stays [OF assms(1)] by (auto simp: deps_done_def)

lemma dep_failed_stays:
  assumes "jobs_follow rs rs'" "dep_failed rs r job" "ji_spec job' = ji_spec job"
  shows "dep_failed rs' r job'"
  using assms final_stays [OF assms(1)] by (auto simp: dep_failed_def)

lemma dep_inv_step:
  assumes "dep_inv rs" "jobs_follow rs rs'"
  shows "dep_inv rs'"
  unfolding dep_inv_def
proof (intro allI impI)
  fix r j job'
  assume job': "get_job rs' r j = Some job'"
  show "(ji_state job' \<notin> {Pending, Skipped} \<longrightarrow> deps_done rs' r job') \<and> (ji_state job' = Skipped \<longrightarrow> dep_failed rs' r job')"
  proof (cases "get_job rs r j")
    case None
    then have "ji_state job' = Pending" using assms(2) job' unfolding jobs_follow_def by blast
    then show ?thesis by simp
  next
    case (Some job)
    then have f: "job_follows rs r job job'" using assms(2) job' by (force simp: jobs_follow_def)
    have old: "ji_state job \<notin> {Pending, Skipped} \<longrightarrow> deps_done rs r job" "ji_state job = Skipped \<longrightarrow> dep_failed rs r job"
      using assms(1) Some by (auto simp: dep_inv_def)
    have spec: "ji_spec job' = ji_spec job" using f by (simp add: job_follows_def)
    have "deps_done rs r job" if "ji_state job' \<notin> {Pending, Skipped}"
      using f old that by (auto simp: job_follows_def job_moves_def)
    moreover have "dep_failed rs r job" if "ji_state job' = Skipped"
      using f old that by (auto simp: job_follows_def)
    ultimately show ?thesis
      using deps_done_stays [OF assms(2) _ spec] dep_failed_stays [OF assms(2) _ spec] by blast
  qed
qed

definition safe :: "environment \<Rightarrow> system \<Rightarrow> bool" where
  "safe env s \<longleftrightarrow> sys_inv env s \<and> dep_inv (dm_runs (sy_daemon s))
     \<and> (\<forall>r. dag_ok (dm_runs (sy_daemon s)) r)"

interpretation safety: invariant_system "initial env" "step env" "safe env" for env
proof unfold_locales
  fix s assume "initial env s"
  then show "safe env s" using initial_inv
    by (auto simp: safe_def initial_def daemon_new_def dep_inv_def dag_ok_def run_deps_def get_job_def acyclic_def)
next
  fix s t assume "safe env s" "step env s t"
  then show "safe env t" using step_keeps step_jobs dep_inv_step
    by (auto simp: safe_def jobs_follow_def)
qed

section \<open>Example states\<close>

definition demo_env :: environment where
  "demo_env = \<lparr>env_home = Some ''/home/u'', env_xdg_runtime_dir = None\<rparr>"

definition demo_daemon :: daemon where
  "demo_daemon = daemon_new demo_resources [demo_node] [pool_new demo_resources]"

definition demo_system :: "daemon \<Rightarrow> phase \<Rightarrow> system" where
  "demo_system d ph = \<lparr>sy_daemon = d, sy_checks = gpu_checks_default, sy_phase = ph\<rparr>"

definition demo_submitted :: daemon where
  "demo_submitted = start_run ''r1'' 0 diamond demo_daemon"

lemma diamond_well_formed: "well_formed diamond"
proof -
  have e: "ids_enum [''merge'', ''left'', ''root'', ''right''] diamond" by (auto simp: dag_eval)
  have "validate [''merge'', ''left'', ''root'', ''right''] diamond = Some (Inr ())" by (simp add: dag_eval)
  then show ?thesis using validate_ill_formed [OF _ e] by force
qed

lemma demo_reach_start: "reach (initial demo_env) (step demo_env) (demo_system demo_daemon PhIdle)"
proof (rule reach_init)
  have "length [pool_new demo_resources] = length [demo_node] \<and> (\<forall>p \<in> set [pool_new demo_resources]. ledger p {#})"
    using ledger_new [OF demo_dense] by simp
  then show "initial demo_env (demo_system demo_daemon PhIdle)"
    unfolding initial_def demo_system_def demo_daemon_def
    by (intro conjI exI [of _ demo_resources] exI [of _ "[demo_node]"] exI [of _ "[pool_new demo_resources]"])
      (simp_all add: demo_env_def)
qed

lemma demo_reach_submitted: "reach (initial demo_env) (step demo_env) (demo_system demo_submitted PhIdle)"
proof (rule reach_step [OF demo_reach_start])
  have "misfit (dm_pools demo_daemon) diamond = None" by code_simp
  then show "step demo_env (demo_system demo_daemon PhIdle) (demo_system demo_submitted PhIdle)"
    unfolding demo_system_def demo_submitted_def
    by (intro st_submit diamond_well_formed) (simp_all add: demo_daemon_def daemon_new_def)
qed

lemma demo_job: "get_job (dm_runs demo_submitted) ''r1'' ''root'' = Some (job_instance_new (mk_job ''root'' []) 0)"
  by code_simp

section \<open>Properties of the running daemon\<close>

lemma safe_reach: "reach (initial env) (step env) s \<Longrightarrow> safe env s"
  by (rule safety.inv_reach)

lemma inv_reach_accounts:
  assumes "sys_inv env s"
  shows "accounts (dm_pools (sy_daemon s)) (\<lambda>i. runs_held (dm_runs (sy_daemon s)) i + in_hand s i)"
  using assms by (simp add: sys_inv_def daemon_ok_def)

lemma in_sum_list: "x \<in> set xs \<Longrightarrow> a \<in># f x \<Longrightarrow> a \<in># sum_list (map f xs)"
  by (induction xs) auto

lemma in_runs_held:
  assumes "get_job rs r j = Some job" "e \<in> set (ji_executions job)"
  shows "ex_allocation e \<in># runs_held rs (ex_node e)"
proof -
  obtain run where run: "hm_get rs r = Some run" "hm_get (wr_jobs run) j = Some job"
    using assms(1) by (auto simp: get_job_def bind_eq_Some_conv)
  have "ex_allocation e \<in># exec_held (ji_executions job) (ex_node e)"
    using assms(2) by (auto simp: exec_held_def)
  then have "ex_allocation e \<in># jobs_held (wr_jobs run) (ex_node e)"
    unfolding jobs_held_def by (intro in_sum_list [OF map_of_SomeD [OF run(2)]]) simp
  then show ?thesis
    unfolding runs_held_def by (intro in_sum_list [OF map_of_SomeD [OF run(1)]]) simp
qed

text \<open>
  C1: Nothing is handed out twice: in every state the daemon can reach, whatever was submitted,
  cancelled, launched, polled and tested in whatever order, the processors and memory of each
  node that are free and those held by its jobs, by launches under way and by card tests add up
  to its inventory; no card is held twice; and what a running job holds is counted.
\<close>

theorem nothing_handed_out_twice:
  assumes "reach (initial env) (step env) s" and "i < length (dm_pools (sy_daemon s))"
    and "p = dm_pools (sy_daemon s) ! i" and "H = runs_held (dm_runs (sy_daemon s)) i + in_hand s i"
  shows "unat (available_cpu p) + held_cpu H = unat (cpu_cores (total p))
    \<and> unat (available_memory_mb p) + held_memory H = unat (memory_mb (total p))
    \<and> (\<forall>c. count (held_cards H) c \<le> 1)
    \<and> (\<forall>r j job e. get_job (dm_runs (sy_daemon s)) r j = Some job \<and> e \<in> set (ji_executions job) \<and> ex_node e = i
         \<longrightarrow> ex_allocation e \<in># H)"
proof -
  have "sys_inv env s" using safe_reach [OF assms(1)] by (simp add: safe_def)
  then have "ledger p H" using accounts_pool [OF inv_reach_accounts assms(2)] assms(3,4) by blast
  then show ?thesis using in_runs_held assms(4) by (auto simp: ledger_def)
qed

theorem nothing_handed_out_twice_witness:
  "unat (available_cpu (pool_new demo_resources)) + held_cpu (runs_held (dm_runs demo_submitted) 0
      + in_hand (demo_system demo_submitted PhIdle) 0) = 16"
proof -
  have "dm_pools (sy_daemon (demo_system demo_submitted PhIdle)) = [pool_new demo_resources]"
    by (simp add: demo_system_def demo_submitted_def demo_daemon_def daemon_new_def)
  with nothing_handed_out_twice [OF demo_reach_submitted, of 0] show ?thesis
    by (simp add: demo_system_def pool_new_def demo_resources_def)
qed



text \<open>The transitions over any number of steps.\<close>

lemma jobs_follow_steps:
  assumes "(step env)\<^sup>*\<^sup>* s s'" "sys_inv env s" "get_job (dm_runs (sy_daemon s)) r j = Some job"
  shows "\<exists>job'. get_job (dm_runs (sy_daemon s')) r j = Some job' \<and> ji_spec job' = ji_spec job
    \<and> ji_job_seq job' = ji_job_seq job \<and> (ji_state job, ji_state job') \<in> job_moves\<^sup>*"
  using assms(1)
proof (induction rule: rtranclp_induct)
  case (step t u)
  then obtain job1 where job1: "get_job (dm_runs (sy_daemon t)) r j = Some job1" "ji_spec job1 = ji_spec job"
    "ji_job_seq job1 = ji_job_seq job" "(ji_state job, ji_state job1) \<in> job_moves\<^sup>*" by blast
  have "sys_inv env t" using scheduler.inv_steps [OF step(1) assms(2)] .
  from step_jobs [OF this step(2)] job1(1) obtain job2 where
    "get_job (dm_runs (sy_daemon u)) r j = Some job2" "job_follows (dm_runs (sy_daemon t)) r job1 job2"
    unfolding jobs_follow_def by blast
  then show ?case using job1 by (auto simp: job_follows_def intro: rtrancl_into_rtrancl)
qed (use assms(3) in auto)

lemma terminal_stuck: "(st, st') \<in> job_moves\<^sup>* \<Longrightarrow> is_terminal st \<Longrightarrow> st' = st"
  by (erule converse_rtranclE) (auto simp: job_moves_def is_terminal_def)

text \<open>
  C4: A job once submitted never disappears, keeps its specification and its number, and changes
  its state only along the documented transitions; a terminal state is kept for good.
\<close>

theorem job_life_cycle:
  assumes "reach (initial env) (step env) s" and "(step env)\<^sup>*\<^sup>* s s'"
    and "get_job (dm_runs (sy_daemon s)) r j = Some job"
  shows "\<exists>job'. get_job (dm_runs (sy_daemon s')) r j = Some job' \<and> ji_spec job' = ji_spec job
    \<and> ji_job_seq job' = ji_job_seq job \<and> (ji_state job, ji_state job') \<in> job_moves\<^sup>*
    \<and> (is_terminal (ji_state job) \<longrightarrow> ji_state job' = ji_state job)"
  using jobs_follow_steps [OF assms(2) _ assms(3)] safe_reach [OF assms(1)] terminal_stuck
  by (metis safe_def)

theorem job_life_cycle_witness:
  "\<exists>job'. get_job (dm_runs (fst (advance_pending demo_submitted))) ''r1'' ''root'' = Some job'
    \<and> (Pending, ji_state job') \<in> job_moves\<^sup>*"
proof -
  have "(step demo_env)\<^sup>*\<^sup>* (demo_system demo_submitted PhIdle) (demo_system (fst (advance_pending demo_submitted)) PhIdle)"
    unfolding demo_system_def by (intro r_into_rtranclp st_pending [OF prod.collapse [symmetric]])
  from job_life_cycle [OF demo_reach_submitted this, of "''r1''" "''root''"] show ?thesis
    using demo_job by (auto simp: demo_system_def)
qed

text \<open>
  C3: No job is queued, run or ended before all its dependencies have succeeded, and a job is
  skipped only when one of its dependencies has ended badly. Both stay true from then on.
\<close>

theorem dependencies_respected:
  assumes "reach (initial env) (step env) s" and "get_job (dm_runs (sy_daemon s)) r j = Some job"
  shows "(ji_state job \<notin> {Pending, Skipped} \<longrightarrow>
       (\<forall>dep \<in> set (js_depends_on (ji_spec job)). in_state (dm_runs (sy_daemon s)) Succeeded (r, dep)))
    \<and> (ji_state job = Skipped \<longrightarrow>
       (\<exists>dep \<in> set (js_depends_on (ji_spec job)). \<exists>st \<in> ended_badly. in_state (dm_runs (sy_daemon s)) st (r, dep)))"
proof -
  have "dep_inv (dm_runs (sy_daemon s))" using safe_reach [OF assms(1)] by (simp add: safe_def)
  from this [unfolded dep_inv_def, rule_format, OF assms(2)] show ?thesis
    by (simp only: deps_done_def dep_failed_def)
qed

theorem dependencies_respected_witness:
  "get_job (dm_runs demo_submitted) ''r1'' ''root'' = Some (job_instance_new (mk_job ''root'' []) 0)
   \<and> \<not> (ji_state (job_instance_new (mk_job ''root'' []) 0) = Skipped)"
  using dependencies_respected [OF demo_reach_submitted, of "''r1''" "''root''"] demo_job
  by (auto simp: demo_system_def mk_job_def)

section \<open>Progress\<close>

lemma finite_run_deps: "finite (run_deps rs r)"
proof -
  have "run_deps rs r \<subseteq> (\<Union>(k, run) \<in> set rs. \<Union>(j, job) \<in> set (wr_jobs run). set (js_depends_on (ji_spec job)) \<times> {j})"
    by (force simp: run_deps_def get_job_def bind_eq_Some_conv dest!: map_of_SomeD)
  then show ?thesis by (rule finite_subset) auto
qed

text \<open>In an unfinished run with nothing queued or running, some pending job has only ended dependencies.\<close>

lemma ready_job:
  assumes dag: "dag_ok rs r" and job: "get_job rs r j = Some job" "\<not> is_terminal (ji_state job)"
    and idle: "\<forall>j. \<not> in_state rs Queued (r, j) \<and> \<not> in_state rs Running (r, j)"
  shows "\<exists>j job. get_job rs r j = Some job \<and> ji_state job = Pending \<and> (deps_done rs r job \<or> dep_failed rs r job)"
proof -
  have open_state: "ji_state job = Pending" if "get_job rs r j = Some job" "\<not> is_terminal (ji_state job)" for j job
    using idle that by (cases "ji_state job") (auto simp: in_state_def is_terminal_def)
  let ?P = "{j. in_state rs Pending (r, j)}"
  have wf: "wf (run_deps rs r)" using dag finite_acyclic_wf [OF finite_run_deps] by (simp add: dag_ok_def)
  have "j \<in> ?P" using open_state [OF job] job(1) by (simp add: in_state_def)
  from wfE_min [OF wf this] obtain m where m: "m \<in> ?P" "\<And>y. (y, m) \<in> run_deps rs r \<Longrightarrow> y \<notin> ?P" by blast
  then obtain mj where mj: "get_job rs r m = Some mj" "ji_state mj = Pending" by (auto simp: in_state_def)
  have "dep_failed rs r mj" if undone: "\<not> deps_done rs r mj"
  proof -
    obtain dep where dep: "dep \<in> set (js_depends_on (ji_spec mj))" "\<not> in_state rs Succeeded (r, dep)"
      using undone unfolding deps_done_def by blast
    then have "(dep, m) \<in> run_deps rs r" using mj(1) by (auto simp: run_deps_def)
    then obtain dj where dj: "get_job rs r dep = Some dj" "ji_state dj \<noteq> Pending"
      using dag m(2) unfolding dag_ok_def by (fastforce simp: in_state_def)
    then have "is_terminal (ji_state dj)" using open_state by blast
    then have "ji_state dj \<in> ended_badly"
      using dep(2) dj(1) by (cases "ji_state dj") (auto simp: is_terminal_def in_state_def)
    then show ?thesis unfolding dep_failed_def
      by (intro bexI [OF _ dep(1)] bexI [of _ "ji_state dj"]) (auto simp: in_state_def dj(1))
  qed
  then show ?thesis using mj by blast
qed

text \<open>
  C14: A run is never stuck on its own dependencies: while it has an unfinished job and none of
  its jobs is queued or running, the next tick queues or skips one of its jobs.
\<close>

theorem run_never_stuck:
  assumes "reach (initial env) (step env) s" and "d = sy_daemon s"
    and "get_job (dm_runs d) r j = Some job" and "\<not> is_terminal (ji_state job)"
    and "\<forall>j. \<not> in_state (dm_runs d) Queued (r, j) \<and> \<not> in_state (dm_runs d) Running (r, j)"
  shows "\<exists>j. in_state (dm_runs d) Pending (r, j) \<and>
    (in_state (dm_runs (fst (advance_pending d))) Queued (r, j)
     \<or> in_state (dm_runs (fst (cascade_skipped now d))) Skipped (r, j))"
proof -
  have inv: "dag_ok (dm_runs d) r" "runs_ok (job_ok (length (dm_nodes d))) (dm_runs d)"
    using safe_reach [OF assms(1)] assms(2) by (simp_all add: safe_def sys_inv_def daemon_ok_def)
  from ready_job [OF inv(1) assms(3,4,5)] obtain m mj where
    m: "get_job (dm_runs d) r m = Some mj" "ji_state mj = Pending" "deps_done (dm_runs d) r mj \<or> dep_failed (dm_runs d) r mj"
    by blast
  obtain run where run: "hm_get (dm_runs d) r = Some run" "hm_get (wr_jobs run) m = Some mj"
    using m(1) by (auto simp: get_job_def bind_eq_Some_conv)
  have "in_state (dm_runs (fst (advance_pending d))) Queued (r, m)" if "deps_done (dm_runs d) r mj"
    using advance_pending_evolves [OF inv(2), unfolded evolves_def, rule_format, of "(r, m)"] m(1,2) that run
    by (auto simp: in_state_def deps_done_run)
  moreover have "in_state (dm_runs (fst (cascade_skipped now d))) Skipped (r, m)" if "dep_failed (dm_runs d) r mj"
    using cascade_skipped_evolves [OF inv(2), of now, unfolded evolves_def, rule_format, of "(r, m)"] m(1,2) that run
    by (auto simp: in_state_def dep_failed_run)
  ultimately show ?thesis using m by (auto simp: in_state_def)
qed

theorem run_never_stuck_witness:
  "\<exists>j. in_state (dm_runs demo_submitted) Pending (''r1'', j) \<and>
    (in_state (dm_runs (fst (advance_pending demo_submitted))) Queued (''r1'', j)
     \<or> in_state (dm_runs (fst (cascade_skipped 0 demo_submitted))) Skipped (''r1'', j))"
proof -
  have "ji_state job = Pending" if "get_job (dm_runs demo_submitted) ''r1'' j = Some job" for j job
    using collect_jobs_all [of "[]" "\<lambda>_ job. ji_state job = Pending" "ws_jobs diamond" 0] that
    by (auto simp: demo_submitted_def get_job_start_run demo_daemon_def daemon_new_def dest!: map_of_SomeD)
  then have "\<forall>j. \<not> in_state (dm_runs demo_submitted) Queued (''r1'', j) \<and> \<not> in_state (dm_runs demo_submitted) Running (''r1'', j)"
    by (fastforce simp: in_state_def)
  with run_never_stuck [OF demo_reach_submitted refl, of "''r1''" "''root''"] demo_job show ?thesis
    by (simp add: demo_system_def)
qed

end
