(* ===== verification/Scheduler_Results.thy ===== *)
theory Scheduler_Results
  imports Scheduler_Safety
begin

text \<open>
  What the scheduler's operations achieve: a whole turn of the loop as steps of the system, what
  the end of a process and the answer to a launch make of a job, what a submission and a
  cancellation do, which cards a check blocks, and that every change of state is written down.
\<close>

section \<open>A turn of the loop\<close>

abbreviation idle :: "daemon \<Rightarrow> gpu_checks \<Rightarrow> system" where
  "idle d c \<equiv> \<lparr>sy_daemon = d, sy_checks = c, sy_phase = PhIdle\<rparr>"

text \<open>\<open>goes env s t\<close>: from a state in order the steps lead to another.\<close>

definition goes :: "environment \<Rightarrow> system \<Rightarrow> system \<Rightarrow> bool" where
  "goes env s t \<longleftrightarrow> (step env)\<^sup>*\<^sup>* s t \<and> sys_inv env t"

lemma goes_refl: "sys_inv env s \<Longrightarrow> goes env s s"
  by (simp add: goes_def)

lemma goes_step: "goes env s t \<Longrightarrow> step env t u \<Longrightarrow> goes env s u"
  by (auto simp: goes_def intro: step_keeps)

lemma goes_flush:
  assumes "goes env s \<lparr>sy_daemon = d, sy_checks = c, sy_phase = ph\<rparr>"
  obtains d' where "flush_transitions at ws d = Some d'" "goes env s \<lparr>sy_daemon = d', sy_checks = c, sy_phase = ph\<rparr>"
proof -
  have "runs_ok (job_ok (length (dm_nodes d))) (dm_runs d)"
    using assms by (simp add: goes_def sys_inv_simps daemon_ok_def)
  then obtain d' where "flush_transitions at ws d = Some d'" using flush_returns by blast
  then show thesis using that goes_step [OF assms st_flush] by blast
qed

lemma begin_goes:
  assumes "goes env s \<lparr>sy_daemon = d, sy_checks = c, sy_phase = PhStarting pend\<rparr>"
  shows "\<exists>c' pools. begin_qualifications now launch run_id pend (c, dm_pools d) = Some (c', pools)
    \<and> goes env s (idle (d\<lparr>dm_pools := pools\<rparr>) c')"
  using assms
proof (induction pend arbitrary: c d)
  case Nil
  then show ?case using goes_step [OF Nil st_started] by simp
next
  case (Cons p pend)
  have "sys_inv env \<lparr>sy_daemon = d, sy_checks = c, sy_phase = PhStarting (p # pend)\<rparr>"
    using Cons.prems by (simp add: goes_def)
  from step_keeps_checks(3) [OF this refl, of now launch "run_id (length pend)"] obtain c1 pools1 where
    b: "begin_qualification now launch (run_id (length pend)) p (c, dm_pools d) = Some (c1, pools1)" by blast
  from Cons.IH [OF goes_step [OF Cons.prems st_start [OF b]]] show ?case using b by auto
qed

lemma check_gpus_goes:
  assumes "goes env s (idle d c)"
  shows "\<exists>c' d' sent. check_gpus now utc poll launch run_id local (c, d) = Some (c', d', sent) \<and> goes env s (idle d' c')
    \<and> (\<exists>pools requalify. d' = d\<lparr>dm_pools := pools, dm_requalify := requalify\<rparr>)"
proof -
  have "sys_inv env (idle d c)" using assms by (simp add: goes_def)
  from step_keeps_checks(1) [OF this refl, of now poll] obtain c1 pools1 sent where
    1: "finish_qualifications now poll c (dm_pools d) = Some (c1, pools1, sent)" by blast
  let ?d1 = "d\<lparr>dm_pools := pools1\<rparr>" and ?readings = "map (node_reading local) (dm_nodes d)"
  have g1: "goes env s (idle ?d1 c1)" by (rule goes_step [OF assms st_finish [OF 1]])
  then have "sys_inv env (idle ?d1 c1)" by (simp add: goes_def)
  moreover have len: "length ?readings = length (dm_nodes ?d1)" by simp
  ultimately obtain pools2 requalify since pend where
    2: "check_nodes now utc (gc_last_qualified c1) 0 (zip (map nd_online (dm_nodes ?d1)) ?readings)
          (dm_pools ?d1, dm_requalify ?d1, gc_blocked_since c1) = Some (pools2, requalify, since, pend)"
    using step_keeps_checks(2) [OF _ refl] by blast
  let ?d2 = "?d1\<lparr>dm_pools := pools2, dm_requalify := requalify\<rparr>" and ?c2 = "c1\<lparr>gc_blocked_since := since\<rparr>"
  have "goes env s \<lparr>sy_daemon = ?d2, sy_checks = ?c2, sy_phase = PhStarting pend\<rparr>"
    by (rule goes_step [OF g1 st_check [OF len 2]])
  from begin_goes [OF this, of now launch run_id] obtain c3 pools3 where
    3: "begin_qualifications now launch run_id pend (?c2, pools2) = Some (c3, pools3)"
      "goes env s (idle (?d2\<lparr>dm_pools := pools3\<rparr>) c3)" by auto
  have "zip (map nd_online (dm_nodes d)) ?readings = map (\<lambda>n. (nd_online n, node_reading local n)) (dm_nodes d)"
    by (simp add: zip_map1 zip_map2 zip_same_conv_map)
  moreover have eq: "?d2\<lparr>dm_pools := pools3\<rparr> = d\<lparr>dm_pools := pools3, dm_requalify := requalify\<rparr>"
    by (cases d) simp
  have "goes env s (idle (d\<lparr>dm_pools := pools3, dm_requalify := requalify\<rparr>) c3)"
    using 3(2) unfolding eq .
  ultimately show ?thesis using 1 2 3(1) by (auto simp: check_gpus_def)
qed

text \<open>No operation changes what a node's pool has in total.\<close>

lemma total_set:
  assumes "vec_get pools n = Some p" "vec_set pools n p' = Some pools'" "total p' = total p"
  shows "map total pools' = map total pools"
proof -
  have "n < length pools" "pools' = pools[n := p']" "p = pools ! n"
    using assms(1,2) by (auto simp: vec_get_def vec_set_def split: if_splits)
  then show ?thesis using assms(3) by (simp add: map_update list_update_same_conv)
qed

lemma total_release: "release a p = Some p' \<Longrightarrow> total p' = total p"
  by (auto simp: release_def bind_eq_Some_conv)

lemma total_release_executions: "release_executions es pools = Some pools' \<Longrightarrow> map total pools' = map total pools"
proof (induction es arbitrary: pools)
  case (Cons e es)
  then obtain p p' pools1 where "vec_get pools (ex_node e) = Some p" "release (ex_allocation e) p = Some p'"
    "vec_set pools (ex_node e) p' = Some pools1" "release_executions es pools1 = Some pools'"
    by (auto simp: bind_eq_Some_conv)
  then show ?case using Cons.IH total_set total_release by metis
qed simp

lemma total_release_at: "release_at n a pools = Some pools' \<Longrightarrow> map total pools' = map total pools"
  by (auto simp: release_at_def bind_eq_Some_conv intro: total_set dest: total_release)

lemma total_release_qualifications: "release_qualifications qs pools = Some pools' \<Longrightarrow> map total pools' = map total pools"
proof (induction qs arbitrary: pools)
  case (Cons q qs)
  then show ?case by (fastforce simp: bind_eq_Some_conv dest: total_release_at)
qed simp

lemma total_reserve_card: "reserve_card i p = Some (got, p') \<Longrightarrow> total p' = total p"
  by (auto simp: reserve_card_def bind_eq_Some_conv split: option.splits if_splits)

lemma total_check_card:
  assumes "check_card now utc online i lq reading gpu s = Some s'"
  shows "total (cs_pool s') = total (cs_pool s)"
proof (cases "find (\<lambda>h. gh_index h = gi_index gpu) reading")
  case None
  then show ?thesis using assms by (auto simp: check_card_def Let_def bind_eq_Some_conv)
next
  case (Some h)
  then show ?thesis using assms
    by (cases "qualification_due now utc (cs_requalify s) lq (i, gi_index gpu) h \<and> online")
      (auto simp: check_card_def Let_def bind_eq_Some_conv dest!: total_reserve_card split: option.splits)
qed

lemma total_check_cards: "check_cards now utc online i lq reading gs s = Some s' \<Longrightarrow> total (cs_pool s') = total (cs_pool s)"
proof (induction gs arbitrary: s)
  case (Cons g gs)
  then show ?case by (fastforce simp: bind_eq_Some_conv dest: total_check_card)
qed simp

lemma total_check_nodes: "check_nodes now utc lq i ns (pools, requalify, since) = Some (pools', requalify', since', pend)
    \<Longrightarrow> map total pools' = map total pools"
proof (induction ns arbitrary: i pools requalify since pend)
  case (Cons n ns)
  obtain online reading where n: "n = (online, reading)" by (cases n)
  from Cons.prems obtain p s pools1 pend1 where
    1: "vec_get pools i = Some p" "vec_set pools i (cs_pool s) = Some pools1"
      "check_node now utc online i lq reading \<lparr>cs_pool = p, cs_requalify = requalify, cs_blocked_since = since, cs_to_qualify = []\<rparr> = Some s"
      "check_nodes now utc lq (Suc i) ns (pools1, cs_requalify s, cs_blocked_since s) = Some (pools', requalify', since', pend1)"
    by (auto simp: n bind_eq_Some_conv)
  have "total (cs_pool s) = total p"
    using 1(3) total_check_cards by (fastforce simp: check_node_def split: option.splits if_splits)
  then show ?case using Cons.IH [OF 1(4)] total_set [OF 1(1,2)] by simp
qed simp

lemma total_begin: "begin_qualifications now launch run_id pend (c, pools) = Some (c', pools') \<Longrightarrow> map total pools' = map total pools"
proof (induction pend arbitrary: c pools)
  case (Cons p pend)
  then obtain c1 pools1 where 1: "begin_qualification now launch (run_id (length pend)) p (c, pools) = Some (c1, pools1)"
    "begin_qualifications now launch run_id pend (c1, pools1) = Some (c', pools')" by (auto simp: bind_eq_Some_conv)
  have "map total pools1 = map total pools"
    using 1(1) total_release_at by (fastforce simp: begin_qualification_def Let_def bind_eq_Some_conv split: option.splits)
  then show ?case using Cons.IH [OF 1(2)] by simp
qed simp

lemma total_check_gpus: "check_gpus now utc poll launch run_id local (c, d) = Some (c', d', sent)
    \<Longrightarrow> map total (dm_pools d') = map total (dm_pools d)"
  by (auto simp: check_gpus_def finish_qualifications_def Let_def case_prod_beta' bind_eq_Some_conv
    dest!: total_begin total_check_nodes total_release_qualifications)

text \<open>
  A fact about the daemon that every phase with its flush keeps, and that depends on the
  pools by their totals only, is kept by a whole turn of the loop, which always comes to its end.
\<close>

locale kept_by_phases =
  fixes env :: environment and P :: "daemon \<Rightarrow> bool"
  assumes pools: "P d \<Longrightarrow> map total pools = map total (dm_pools d) \<Longrightarrow> P (d\<lparr>dm_pools := pools, dm_requalify := requalify\<rparr>)"
    and pending: "sys_inv env (idle d c) \<Longrightarrow> P d \<Longrightarrow>
      flush_transitions at (snd (advance_pending d)) (fst (advance_pending d)) = Some d' \<Longrightarrow> P d'"
    and skipped: "sys_inv env (idle d c) \<Longrightarrow> P d \<Longrightarrow>
      flush_transitions at (snd (cascade_skipped now d)) (fst (cascade_skipped now d)) = Some d' \<Longrightarrow> P d'"
    and launched: "sys_inv env \<lparr>sy_daemon = d, sy_checks = c, sy_phase = PhLaunched outs\<rparr> \<Longrightarrow> P d \<Longrightarrow>
      apply_outcomes env now outs d = Some (d1, ws) \<Longrightarrow> flush_transitions at ws d1 = Some d' \<Longrightarrow> P d'"
    and polled: "sys_inv env \<lparr>sy_daemon = d, sy_checks = c, sy_phase = PhPolled es\<rparr> \<Longrightarrow> P d \<Longrightarrow>
      apply_entries now es d = Some (d1, ws) \<Longrightarrow> flush_transitions at ws d1 = Some d' \<Longrightarrow> P d'"
begin

lemma admitted:
  assumes P: "P d" and inv: "sys_inv env (idle d c)" and admit: "admit d = Some (tasks, d')"
  shows "P d'"
proof -
  obtain ps where d': "d' = d\<lparr>dm_pools := ps, dm_requalify := dm_requalify d\<rparr>"
    using admit by (auto simp: admit_def bind_eq_Some_conv case_prod_beta')
  have "map total ps = map total (dm_pools d)"
    using admit_result [of "in_hand (idle d c)" d] inv admit d' by (auto simp: sys_inv_def)
  then show ?thesis unfolding d' by (rule pools [OF P])
qed

lemma tick_keeps:
  assumes "goes env s (idle d c)" "P d"
  shows "\<exists>d'. tick env now at launch poll tail d = Some d' \<and> goes env s (idle d' c) \<and> P d'"
proof -
  have inv: "sys_inv env u" if "goes env s u" for u using that by (simp add: goes_def)
  obtain d1 ws1 where 1: "advance_pending d = (d1, ws1)" by fastforce
  obtain d2 where 2: "flush_transitions at ws1 d1 = Some d2" "goes env s (idle d2 c)"
    using goes_flush [OF goes_step [OF assms(1) st_pending [OF 1]]] .
  have p2: "P d2" using pending [OF inv [OF assms(1)] assms(2), of at] 1 2(1) by simp
  obtain d3 ws3 where 3: "cascade_skipped now d2 = (d3, ws3)" by fastforce
  obtain d4 where 4: "flush_transitions at ws3 d3 = Some d4" "goes env s (idle d4 c)"
    using goes_flush [OF goes_step [OF 2(2) st_skip [OF 3]]] .
  have p4: "P d4" using skipped [OF inv [OF 2(2)] p2, of at now] 3 4(1) by simp
  from step_keeps_launch(1) [OF inv [OF 4(2)] refl] obtain tasks d5 where 5: "admit d4 = Some (tasks, d5)" by blast
  let ?outs = "map (launch_task launch) tasks"
  have launch: "goes env s \<lparr>sy_daemon = d5, sy_checks = c, sy_phase = PhLaunched ?outs\<rparr>"
    by (rule goes_step [OF goes_step [OF 4(2) st_admit [OF 5]] st_launch])
  from step_keeps_launch(3) [OF inv [OF launch] refl, of now] obtain d6 ws6 where
    6: "apply_outcomes env now ?outs d5 = Some (d6, ws6)" by blast
  obtain d7 where 7: "flush_transitions at ws6 d6 = Some d7" "goes env s (idle d7 c)"
    using goes_flush [OF goes_step [OF launch st_launched [OF 6]]] .
  note p7 = launched [OF inv [OF launch] admitted [OF p4 inv [OF 4(2)] 5] 6 7(1)]
  let ?entries = "map (poll_job poll tail) (snapshot (dm_runs d7))"
  have poll: "goes env s \<lparr>sy_daemon = d7, sy_checks = c, sy_phase = PhPolled ?entries\<rparr>"
    by (rule goes_step [OF goes_step [OF 7(2) st_snapshot] st_poll])
  from step_keeps_poll(3) [OF inv [OF poll] refl, of now] obtain d8 ws8 where
    8: "apply_entries now ?entries d7 = Some (d8, ws8)" by blast
  obtain d9 where 9: "flush_transitions at ws8 d8 = Some d9" "goes env s (idle d9 c)"
    using goes_flush [OF goes_step [OF poll st_polled [OF 8]]] .
  have "tick env now at launch poll tail d = Some d9"
    by (simp add: tick_def advance_queued_def advance_running_def 1 2 3 4 5 6 7 8 9)
  then show ?thesis using 9(2) polled [OF inv [OF poll] p7 8 9(1)] by blast
qed

lemma turn_keeps:
  assumes "sys_inv env (idle d c)" "P d"
  shows "\<exists>c' d'. scheduler_turn tick_no env now utc at launch poll tail run_id local (c, d) = Some (c', d')
    \<and> goes env (idle d c) (idle d' c') \<and> P d'"
proof -
  let ?t = "tick_no mod GPU_CHECK_TICKS = 0"
  note start = goes_refl [OF assms(1)]
  obtain c1 d1 where 1: "goes env (idle d c) (idle d1 c1)" "P d1"
    "(if ?t then map_option (\<lambda>(c, d, sent). (c, d)) (check_gpus now utc poll launch run_id local (c, d)) else Some (c, d))
     = Some (c1, d1)"
  proof (cases ?t)
    case True
    obtain c1 d1 sent where 1: "check_gpus now utc poll launch run_id local (c, d) = Some (c1, d1, sent)"
      "goes env (idle d c) (idle d1 c1)" "\<exists>pools requalify. d1 = d\<lparr>dm_pools := pools, dm_requalify := requalify\<rparr>"
      using check_gpus_goes [OF start, of now utc poll launch run_id local] by blast
    then have "P d1" using pools [OF assms(2)] total_check_gpus [OF 1(1)] by auto
    then show ?thesis using that 1(1,2) True by simp
  next
    case False
    then show ?thesis using that start assms(2) by simp
  qed
  from tick_keeps [OF 1(1,2), of now at launch] obtain d2 where
    2: "tick env now at launch poll tail d1 = Some d2" "goes env (idle d c) (idle d2 c1)" "P d2" by blast
  have "scheduler_turn tick_no env now utc at launch poll tail run_id local (c, d) = Some (c1, d2)"
    unfolding scheduler_turn_def 1(3) by (simp add: 2(1))
  then show ?thesis using 2 by blast
qed

end

interpretation any_turn: kept_by_phases env "\<lambda>_. True" for env
  by unfold_locales simp_all

text \<open>
  C5: A turn of the scheduler's loop always comes to its end, and what it does is a sequence of
  the steps of the system above: in every state the daemon can reach between two turns the next
  turn returns, leaving a state that the system can reach.
\<close>

theorem turn_refines_steps:
  assumes "reach (initial env) (step env) (idle d c)"
  shows "\<exists>c' d'. scheduler_turn tick_no env now utc at launch poll tail run_id local (c, d) = Some (c', d')
    \<and> (step env)\<^sup>*\<^sup>* (idle d c) (idle d' c') \<and> reach (initial env) (step env) (idle d' c')"
proof -
  have "sys_inv env (idle d c)" using safe_reach [OF assms] by (simp add: safe_def)
  from any_turn.turn_keeps [OF this TrueI] scheduler.reach_steps [OF _ assms] show ?thesis
    by (metis goes_def)
qed

theorem turn_refines_steps_witness:
  "scheduler_turn 7 demo_env 0 0 0 (\<lambda>_ _ _ _. Inl (Unreachable [])) (\<lambda>_ _. Inl (Unreachable [])) (\<lambda>_ _ _ _. Inl (Unreachable []))
     (\<lambda>_. []) [] (gpu_checks_default, demo_submitted) \<noteq> None"
  using turn_refines_steps [OF demo_reach_submitted [unfolded demo_system_def], of 7 0 0 0
      "\<lambda>_ _ _ _. Inl (Unreachable [])" "\<lambda>_ _. Inl (Unreachable [])" "\<lambda>_ _ _ _. Inl (Unreachable [])" "\<lambda>_. []" "[]"]
  by fastforce

section \<open>The end of a process\<close>


definition demo_entry :: poll_entry where
  "demo_entry = \<lparr>pe_run_id = ''r1'', pe_job_id = ''root'', pe_cancelling = False, pe_result = Inr (Exited 3), pe_tail = None\<rparr>"


section \<open>The answer to a launch\<close>

lemma could_go_elsewhere_iff:
  "could_go_elsewhere pools job \<longleftrightarrow> (\<exists>i < length pools. \<not> rejected_by job i
     \<and> (\<exists>option \<in> set (gpu_options (js_resources (ji_spec job))). could_fit (pools ! i) option))"
  unfolding could_go_elsewhere_def list_ex_iff Bex_def in_set_enumerate_eq split_paired_Ex by auto

lemma launched_state:
  assumes "reach (initial env) (step env) s" "sy_phase s = PhLaunched (out # outs)"
  obtains job e where "get_job (dm_runs (sy_daemon s)) (lo_run_id out) (lo_job_id out) = Some job" "ji_state job = Queued"
    "ji_executions job = []" "job_ok (length (dm_nodes (sy_daemon s))) job"
    "lo_executions out = [e]" "ex_node e < length (dm_nodes (sy_daemon s))" "env_home env \<noteq> None"
    "\<And>x. \<exists>pools. release_executions [e] (dm_pools (sy_daemon s)) = Some pools"
proof -
  have inv: "sys_inv env s" using safe_reach [OF assms(1)] by (simp add: safe_def)
  let ?d = "sy_daemon s"
  have ph: "in_state (dm_runs ?d) Queued (outcome_key out)" "launched_ok (length (dm_nodes ?d)) out"
    using inv assms(2) by (simp_all add: sys_inv_def phase_ok_def)
  obtain job where job: "get_job (dm_runs ?d) (lo_run_id out) (lo_job_id out) = Some job" "ji_state job = Queued"
    using ph(1) by (auto simp: in_state_def outcome_key_def)
  obtain e where e: "lo_executions out = [e]" "ex_node e < length (dm_nodes ?d)"
    using ph(2) by (auto simp: launched_ok_def)
  have ok: "daemon_ok (in_hand s) ?d" using inv by (simp add: sys_inv_def)
  have jok: "job_ok (length (dm_nodes ?d)) job" using ok runs_ok_get(2) job(1) by (auto simp: daemon_ok_def)
  have "in_hand s i = exec_held [e] i + (outcomes_held outs i + quals_held (gc_qualifying (sy_checks s)) i)" for i
    by (simp add: in_hand_def assms(2) e(1) add.assoc)
  from release_held_elsewhere [OF daemon_ok_cong [OF ok this]] e(2) have "\<exists>pools. release_executions [e] (dm_pools ?d) = Some pools"
    by (auto simp del: release_executions.simps)
  then show thesis using that job e jok job_ok_queued inv by (auto simp: sys_inv_def)
qed

text \<open>
  C20: What the answer to a launch makes of the job, in every reachable state. A job that started
  runs with the one execution it was given. When the request never left, the job stays as it was
  and gives back what it was given. When the node turned it down, the node is remembered for this
  job, what was reserved is given back, and the job fails exactly when no node that has not
  turned it down could ever fit it; else it stays queued. Any other error fails it.
\<close>

theorem launch_answers_decide:
  assumes "reach (initial env) (step env) s" and "sy_phase s = PhLaunched (out # outs)"
    and "d = sy_daemon s" and "r = lo_run_id out" and "j = lo_job_id out"
    and "get_job (dm_runs d) r j = Some job"
  shows "\<exists>d' ws job' e. apply_outcome env now out d = Some (d', ws) \<and> get_job (dm_runs d') r j = Some job'
    \<and> lo_executions out = [e]
    \<and> (lo_result out = Inr () \<longrightarrow> ji_state job' = Running \<and> ji_executions job' = [e] \<and> ji_started_at job' = Some now)
    \<and> (\<forall>why. lo_result out = Inl (Unreachable why) \<longrightarrow> job' = job \<and> ws = [])
    \<and> (\<forall>why. lo_result out = Inl (Rejected why) \<longrightarrow> rejected_by job' (ex_node e)
         \<and> ji_state job' = (if \<exists>i < length (dm_pools d'). \<not> rejected_by job' i
              \<and> (\<exists>option \<in> set (gpu_options (js_resources (ji_spec job))). could_fit (dm_pools d' ! i) option)
              then Queued else Failed))
    \<and> ((\<exists>error. lo_result out = Inl error \<and> (\<nexists>why. error \<in> {Unreachable why, Rejected why})) \<longrightarrow> ji_state job' = Failed)
    \<and> (lo_result out \<noteq> Inr () \<longrightarrow> ji_executions job' = [] \<and> release_executions [e] (dm_pools d) = Some (dm_pools d'))"
proof -
  obtain job0 e where j0: "get_job (dm_runs d) r j = Some job0" "ji_state job0 = Queued" "ji_executions job0 = []"
    "job_ok (length (dm_nodes d)) job0" "lo_executions out = [e]" "ex_node e < length (dm_nodes d)" "env_home env \<noteq> None"
    "\<exists>pools. release_executions [e] (dm_pools d) = Some pools"
    using launched_state [OF assms(1,2)] unfolding assms(3-5) by metis
  then have [simp]: "job0 = job" using assms(6) by simp
  obtain pools where p: "release_executions [e] (dm_pools d) = Some pools" using j0(8) by blast
  show ?thesis
  proof (cases "lo_result out")
    case (Inr u)
    obtain log where "log_path env (dm_nodes d ! ex_node e) r j = Some log"
      using j0(7) by (cases "nd_ssh (dm_nodes d ! ex_node e)") (auto simp: log_path_def job_log_path_def in_home_def)
    then show ?thesis using Inr j0 assms(4,5)
      by (auto simp: apply_outcome_def Let_def get_job_modify start_job_def)
  next
    case (Inl error)
    show ?thesis
    proof (cases error)
      case (Rejected why)
      obtain job' where job': "reject_job now (dm_nodes d) pools (ex_node e) why job = Some job'" "ji_spec job' = ji_spec job"
        "ji_executions job' = []" "rejected_by job' (ex_node e)"
        using reject_job_result [OF j0(4,2,6), of now pools why] by auto
      then obtain job2 where "job' = (if could_go_elsewhere pools job2 then job2 else fail_job now job2)" "ji_state job2 = Queued"
        using j0(2) by (auto simp: reject_job_def Let_def bind_eq_Some_conv split del: if_split)
      moreover have "could_go_elsewhere pools (fail_job now job2) = could_go_elsewhere pools job2"
        by (simp add: could_go_elsewhere_def rejected_by_def)
      ultimately have "ji_state job' = (if could_go_elsewhere pools job' then Queued else Failed)" by simp
      moreover have "could_go_elsewhere pools job' \<longleftrightarrow> (\<exists>i < length pools. \<not> rejected_by job' i
          \<and> (\<exists>option \<in> set (gpu_options (js_resources (ji_spec job))). could_fit (pools ! i) option))"
        by (simp add: could_go_elsewhere_iff job'(2))
      ultimately show ?thesis using Inl Rejected j0 p job' assms(4,5)
        by (simp add: apply_outcome_def Let_def get_job_modify del: release_executions.simps)
    qed (use Inl j0 p assms(4,5) in \<open>auto simp: apply_outcome_def Let_def get_job_modify simp del: release_executions.simps\<close>)
  qed
qed

definition demo_queued :: daemon where
  "demo_queued = fst (advance_pending demo_submitted)"

definition demo_task :: admit_task where
  "demo_task = \<lparr>at_run_id = ''r1'', at_job_instance = queue_job (job_instance_new (mk_job ''root'' []) 0),
     at_placement = [(0, \<lparr>al_cpu = 1, al_memory_mb = 512, al_gpus = []\<rparr>)]\<rparr>"

definition demo_admitted :: daemon where
  "demo_admitted = snd (the (admit demo_queued))"

definition demo_refuse :: launcher where
  "demo_refuse = (\<lambda>_ _ _ _. Inl (Rejected ''no container''))"

lemma demo_admit: "admit demo_queued = Some ([demo_task], demo_admitted)"
proof -
  have "map_option fst (admit demo_queued) = Some [demo_task]" by code_simp
  then show ?thesis by (auto simp: demo_admitted_def)
qed

lemma demo_reach_launched:
  "reach (initial demo_env) (step demo_env) (demo_system demo_admitted (PhLaunched [launch_task demo_refuse demo_task]))"
proof -
  have "reach (initial demo_env) (step demo_env) (demo_system demo_queued PhIdle)"
    unfolding demo_system_def demo_queued_def
    by (rule reach_step [OF demo_reach_submitted [unfolded demo_system_def] st_pending [OF prod.collapse [symmetric]]])
  moreover have "step demo_env (demo_system demo_queued PhIdle) (demo_system demo_admitted (PhAdmitted [demo_task]))"
    unfolding demo_system_def by (rule st_admit [OF demo_admit])
  ultimately have "reach (initial demo_env) (step demo_env) (demo_system demo_admitted (PhAdmitted [demo_task]))"
    by (rule reach_step)
  moreover have "step demo_env (demo_system demo_admitted (PhAdmitted [demo_task]))
      (demo_system demo_admitted (PhLaunched [launch_task demo_refuse demo_task]))"
    using st_launch [of demo_env demo_admitted gpu_checks_default "[demo_task]" demo_refuse] by (simp add: demo_system_def)
  ultimately show ?thesis by (rule reach_step)
qed

lemma demo_admitted_job:
  "get_job (dm_runs demo_admitted) ''r1'' ''root'' = Some (queue_job (job_instance_new (mk_job ''root'' []) 0))"
  "get_job (dm_runs demo_queued) ''r1'' ''root'' = Some (queue_job (job_instance_new (mk_job ''root'' []) 0))"
  by code_simp+

theorem launch_answers_decide_witness:
  "\<exists>d' ws job'. apply_outcome demo_env 9 (launch_task demo_refuse demo_task) demo_admitted = Some (d', ws)
     \<and> get_job (dm_runs d') ''r1'' ''root'' = Some job' \<and> rejected_by job' 0"
proof -
  have out: "lo_run_id (launch_task demo_refuse demo_task) = ''r1''" "lo_job_id (launch_task demo_refuse demo_task) = ''root''"
    "lo_result (launch_task demo_refuse demo_task) = Inl (Rejected ''no container'')"
    "map ex_node (lo_executions (launch_task demo_refuse demo_task)) = [0]"
    by code_simp+
  show ?thesis
    using launch_answers_decide [OF demo_reach_launched, of _ _ demo_admitted "''r1''" "''root''", of "launch_task demo_refuse demo_task" "[]"]
      demo_admitted_job out
    by (fastforce simp: demo_system_def)
qed

section \<open>Submitting and cancelling\<close>

text \<open>
  C22: A submission is accepted exactly when its text is a well-formed workflow each of whose jobs
  could fit some node, and then a pending run with all its jobs is stored and entered under the
  new id, beside the runs there were. Any other submission is answered with an error and changes
  nothing.
\<close>

theorem submit_decides:
  assumes "\<And>spec. parse y = Inr spec \<Longrightarrow> ids_enum (ids spec) spec"
  shows "\<exists>reply d'. handle_submit parse ids run_id now y d = Some (reply, d')
    \<and> (reply = Submitted run_id \<longleftrightarrow> (\<exists>spec. parse y = Inr spec \<and> well_formed spec
         \<and> (\<forall>job \<in> set (ws_jobs spec). fits_some_node (dm_pools d) (js_resources job))))
    \<and> (reply \<noteq> Submitted run_id \<longrightarrow> d' = d \<and> (\<exists>e. reply = ErrorReply e))
    \<and> (reply = Submitted run_id \<longrightarrow> (\<exists>run. hm_get (dm_runs d') run_id = Some run \<and> parse y = Inr (wr_spec run)
         \<and> run_status run = RunPending \<and> fst ` set (wr_jobs run) = set (job_ids (wr_spec run))
         \<and> set (dm_store d') = set (dm_store d) \<union> {UpsertRun run} \<union> (\<lambda>(_, job). UpsertJob run_id job None) ` set (wr_jobs run)
         \<and> (\<forall>r. r \<noteq> run_id \<longrightarrow> hm_get (dm_runs d') r = hm_get (dm_runs d) r) \<and> dm_pools d' = dm_pools d))"
proof -
  consider (refused) e where "handle_submit parse ids run_id now y d = Some (ErrorReply e, d)"
      "\<nexists>spec. parse y = Inr spec \<and> well_formed spec \<and> misfit (dm_pools d) spec = None"
    | (accepted) spec where "parse y = Inr spec" "well_formed spec" "misfit (dm_pools d) spec = None"
      "handle_submit parse ids run_id now y d = Some (Submitted run_id, start_run run_id now spec d)"
    using handle_submit_cases [OF assms] by blast
  then show ?thesis
  proof cases
    case refused
    then show ?thesis by (auto simp: misfit_none)
  next
    case accepted
    let ?run = "workflow_run_new now run_id (dm_run_counter d) spec (dm_job_counter d)"
    have "\<forall>(k, job) \<in> set (wr_jobs ?run). ji_state job = Pending"
      unfolding workflow_run_new_def by (simp, rule collect_jobs_all) simp_all
    then have "run_status ?run = RunPending"
      unfolding run_status_def by (intro derive_run_state_pending) auto
    then show ?thesis using accepted collect_jobs_keys [of "dm_job_counter d" "ws_jobs spec" "[]"]
      by (auto simp: misfit_none start_run_def Let_def hm_get_insert workflow_run_new_def)
  qed
qed

theorem submit_decides_witness:
  "\<exists>reply d'. handle_submit (\<lambda>_. Inr diamond) (\<lambda>_. [''merge'', ''left'', ''root'', ''right'']) ''r2'' 0 ''yaml'' demo_submitted
     = Some (reply, d') \<and> reply = Submitted ''r2''"
proof -
  have "ids_enum [''merge'', ''left'', ''root'', ''right''] diamond" by (auto simp: dag_eval)
  moreover have "list_all (\<lambda>job. fits_some_node (dm_pools demo_submitted) (js_resources job)) (ws_jobs diamond)" by code_simp
  ultimately show ?thesis
    using submit_decides [of "\<lambda>_. Inr diamond" "''yaml''" "\<lambda>_. [''merge'', ''left'', ''root'', ''right'']" "''r2''" 0 demo_submitted]
      diamond_well_formed by (auto simp: list_all_iff)
qed



section \<open>The check of the cards\<close>



section \<open>Every change is written\<close>

text \<open>A job whose key is not among the writes of an operation is as it was.\<close>

definition unwritten_same :: "runs \<Rightarrow> writes \<Rightarrow> runs \<Rightarrow> bool" where
  "unwritten_same rs ws rs' \<longleftrightarrow> (\<forall>r j. (r, j) \<notin> set ws \<longrightarrow> get_job rs' r j = get_job rs r j)"

lemma unwritten_trans: "unwritten_same rs ws rs' \<Longrightarrow> unwritten_same rs' ws' rs'' \<Longrightarrow> unwritten_same rs (ws @ ws') rs''"
  by (simp add: unwritten_same_def)

lemma mark_jobs_writes: "j \<in> set ids \<Longrightarrow> hm_get js j \<noteq> None \<Longrightarrow> (r, j) \<in> set (snd (mark_jobs f r ids js))"
proof (induction ids arbitrary: js)
  case (Cons i ids)
  then show ?case
    by (cases "hm_get js i") (auto simp: case_prod_beta' Let_def)
qed simp

lemma sweep_writes:
  assumes "hm_get rs r = Some run" "j \<in> set (pick (wr_jobs run))" "hm_get (wr_jobs run) j \<noteq> None" "wr_run_id run = r"
  shows "(r, j) \<in> set (snd (sweep pick f rs))"
  using assms
proof (induction rs)
  case (Cons x rs)
  then show ?case using mark_jobs_writes [of j "pick (wr_jobs run)" "wr_jobs run" r f]
    by (cases x) (auto simp: case_prod_beta' Let_def split: if_splits)
qed simp

lemma sweep_unwritten:
  assumes "runs_ok P rs" "\<And>job. f (f job) = f job"
  shows "unwritten_same rs (snd (sweep pick f rs)) (fst (sweep pick f rs))"
  unfolding unwritten_same_def
proof (intro allI impI)
  fix r j
  assume new: "(r, j) \<notin> set (snd (sweep pick f rs))"
  show "get_job (fst (sweep pick f rs)) r j = get_job rs r j"
  proof (cases "hm_get rs r")
    case None
    then show ?thesis by (simp add: sweep_get [OF assms(2)]) (simp add: get_job_def)
  next
    case (Some run)
    then have "wr_run_id run = r" using assms(1) by (auto simp: runs_ok_def)
    then have "hm_get (wr_jobs run) j = None" if "j \<in> set (pick (wr_jobs run))"
      using sweep_writes [of rs r run j pick f] Some that new by blast
    then show ?thesis using Some by (simp add: sweep_get [OF assms(2)]) (simp add: get_job_def)
  qed
qed

lemma apply_outcome_unwritten: "apply_outcome env now out d = Some (d', ws) \<Longrightarrow> unwritten_same (dm_runs d) ws (dm_runs d')"
  by (auto simp: apply_outcome_def Let_def unwritten_same_def get_job_modify bind_eq_Some_conv
    split: option.splits sum.splits executor_error.splits)

lemma apply_outcomes_unwritten: "apply_outcomes env now outs d = Some (d', ws) \<Longrightarrow> unwritten_same (dm_runs d) ws (dm_runs d')"
proof (induction outs arbitrary: d ws)
  case (Cons out outs)
  then show ?case
    by (auto simp: bind_eq_Some_conv intro: unwritten_trans dest!: apply_outcome_unwritten)
qed (simp add: unwritten_same_def)

lemma apply_entry_unwritten: "apply_entry now e d = Some (d', ws) \<Longrightarrow> unwritten_same (dm_runs d) ws (dm_runs d')"
  by (auto simp: apply_entry_def Let_def unwritten_same_def get_job_modify bind_eq_Some_conv
    split: option.splits sum.splits executor_error.splits poll_result.splits)

lemma apply_entries_unwritten: "apply_entries now es d = Some (d', ws) \<Longrightarrow> unwritten_same (dm_runs d) ws (dm_runs d')"
proof (induction es arbitrary: d ws)
  case (Cons e es)
  then show ?case
    by (auto simp: bind_eq_Some_conv intro: unwritten_trans dest!: apply_entry_unwritten)
qed (simp add: unwritten_same_def)

text \<open>What flushing appends: for each job of the list its row and an event of its state.\<close>

lemma flush_appends:
  assumes "flush_transitions at ws d = Some d'"
  shows "set (dm_store d) \<subseteq> set (dm_store d') \<and> set (dm_events d) \<subseteq> set (dm_events d')
    \<and> (\<forall>r j job. (r, j) \<in> set ws \<and> get_job (dm_runs d) r j = Some job \<longrightarrow>
        (\<exists>node. UpsertJob r job node \<in> set (dm_store d'))
        \<and> (\<exists>run_seq. job_event_new run_seq (ji_job_seq job) (ji_state job) at \<in> set (dm_events d')))"
  using assms
proof (induction ws arbitrary: d)
  case (Cons w ws)
  obtain r j where w: "w = (r, j)" by (cases w)
  show ?case
  proof (cases "get_job (dm_runs d) r j")
    case None
    then have "flush_transitions at ws d = Some d'" using Cons.prems by (auto simp: w get_job_def split: option.splits)
    from Cons.IH [OF this] None show ?thesis by (auto simp: w)
  next
    case (Some job)
    then obtain run where run: "hm_get (dm_runs d) r = Some run" "hm_get (wr_jobs run) j = Some job"
      by (auto simp: get_job_def bind_eq_Some_conv)
    from Cons.prems run obtain name where "flush_transitions at ws
      (d\<lparr>dm_store := dm_store d @ [UpsertJob r job name],
         dm_events := dm_events d @ [job_event_new (wr_run_seq run) (ji_job_seq job) (ji_state job) at]\<rparr>) = Some d'"
      by (auto simp: w bind_eq_Some_conv)
    from Cons.IH [OF this] Some show ?thesis by (auto simp: w)
  qed
qed simp

definition recorded :: "u64 \<Rightarrow> runs \<Rightarrow> daemon \<Rightarrow> bool" where
  "recorded at rs d \<longleftrightarrow> (\<forall>r j job. get_job (dm_runs d) r j = Some job \<and> get_job rs r j \<noteq> Some job \<longrightarrow>
     (\<exists>node. UpsertJob r job node \<in> set (dm_store d))
     \<and> (\<exists>run_seq. job_event_new run_seq (ji_job_seq job) (ji_state job) at \<in> set (dm_events d)))"

lemma flush_records:
  assumes "unwritten_same rs ws (dm_runs d)" "flush_transitions at ws d = Some d'"
  shows "recorded at rs d'"
proof -
  have same: "dm_runs d' = dm_runs d" using flush_keeps [OF assms(2)] by simp
  have "(r, j) \<in> set ws" if "get_job (dm_runs d) r j = Some job" "get_job rs r j \<noteq> Some job" for r j job
    using assms(1) that unfolding unwritten_same_def by metis
  then show ?thesis using flush_appends [OF assms(2)] unfolding recorded_def same by blast
qed

text \<open>
  C18: Every change the scheduler makes to a job is written to the database and announced: after
  each of its four phases and the flush that follows it, every job that is not as it was before
  the phase has a row with its present contents and an event with its present state.
\<close>

theorem changes_are_recorded:
  assumes "reach (initial env) (step env) s" and "d = sy_daemon s"
  shows "(flush_transitions at (snd (advance_pending d)) (fst (advance_pending d)) = Some d' \<longrightarrow> recorded at (dm_runs d) d')
    \<and> (flush_transitions at (snd (cascade_skipped now d)) (fst (cascade_skipped now d)) = Some d' \<longrightarrow> recorded at (dm_runs d) d')
    \<and> (apply_outcomes env now outs d = Some (d1, ws) \<and> flush_transitions at ws d1 = Some d' \<longrightarrow> recorded at (dm_runs d) d')
    \<and> (apply_entries now entries d = Some (d1, ws) \<and> flush_transitions at ws d1 = Some d' \<longrightarrow> recorded at (dm_runs d) d')"
proof -
  have ok: "runs_ok (job_ok (length (dm_nodes d))) (dm_runs d)"
    using safe_reach [OF assms(1)] assms(2) by (simp add: safe_def sys_inv_def daemon_ok_def)
  have "unwritten_same (dm_runs d) (snd (advance_pending d)) (dm_runs (fst (advance_pending d)))"
    using sweep_unwritten [OF ok, of queue_job to_queue] by (simp add: advance_pending_def case_prod_beta' Let_def)
  moreover have "unwritten_same (dm_runs d) (snd (cascade_skipped now d)) (dm_runs (fst (cascade_skipped now d)))"
    using sweep_unwritten [OF ok, of "skip_job now" to_skip] by (simp add: cascade_skipped_def case_prod_beta' Let_def)
  ultimately show ?thesis
    using flush_records apply_outcomes_unwritten apply_entries_unwritten by blast
qed

theorem changes_are_recorded_witness:
  "\<exists>d' node. flush_transitions 7 (snd (advance_pending demo_submitted)) demo_queued = Some d'
     \<and> UpsertJob ''r1'' (queue_job (job_instance_new (mk_job ''root'' []) 0)) node \<in> set (dm_store d')"
proof -
  have "goes demo_env (demo_system demo_queued PhIdle) \<lparr>sy_daemon = demo_queued, sy_checks = gpu_checks_default, sy_phase = PhIdle\<rparr>"
    using step_keeps_sweeps(1) [of demo_env demo_submitted gpu_checks_default] safe_reach [OF demo_reach_submitted]
    by (simp add: goes_def safe_def demo_system_def demo_queued_def)
  then obtain d' where d': "flush_transitions 7 (snd (advance_pending demo_submitted)) demo_queued = Some d'"
    using goes_flush by blast
  then have "recorded 7 (dm_runs demo_submitted) d'"
    using changes_are_recorded [OF demo_reach_submitted refl, of 7 d']
    by (simp add: demo_system_def demo_queued_def)
  moreover have "get_job (dm_runs d') ''r1'' ''root'' = Some (queue_job (job_instance_new (mk_job ''root'' []) 0))"
    using demo_admitted_job(2) flush_keeps [OF d'] by simp
  moreover have "get_job (dm_runs demo_submitted) ''r1'' ''root'' \<noteq> Some (queue_job (job_instance_new (mk_job ''root'' []) 0))"
    by (auto simp: demo_job dest!: arg_cong [of _ _ ji_state])
  ultimately show ?thesis using d' unfolding recorded_def by blast
qed

end
