(* ===== verification/Durable.thy ===== *)
theory Durable
  imports Recover Scheduler_Results
begin

text \<open>
  What the database knows of the daemon's runs: after every phase of the scheduler it holds the
  present state of every job, so that a restart at that point finds everything.
\<close>

section \<open>What a phase leaves as it is\<close>

text \<open>The identity of the runs and the specs of their jobs.\<close>

definition job_specs :: "jobs \<Rightarrow> (string \<times> job_spec) list" where
  "job_specs js = map (\<lambda>(j, job). (j, ji_spec job)) js"

definition header :: "workflow_run \<Rightarrow> workflow_run \<times> (string \<times> job_spec) list" where
  "header run = (run\<lparr>wr_jobs := []\<rparr>, job_specs (wr_jobs run))"

definition headers :: "runs \<Rightarrow> (string \<times> workflow_run \<times> (string \<times> job_spec) list) list" where
  "headers rs = map (\<lambda>(r, run). (r, header run)) rs"

lemma job_specs_get: "hm_get (job_specs js) j = map_option ji_spec (hm_get js j)"
  by (simp add: job_specs_def hm_get_map_values)

lemma headers_get:
  assumes "headers rs' = headers rs"
  shows "map_option header (hm_get rs' r) = map_option header (hm_get rs r)"
  using arg_cong [OF assms, of "\<lambda>m. hm_get m r"] by (simp add: headers_def hm_get_map_values)

lemma headers_get_none: "headers rs' = headers rs \<Longrightarrow> hm_get rs' r = None \<longleftrightarrow> hm_get rs r = None"
  using headers_get [of rs' rs r] by (metis map_option_is_None)

lemma headers_get_run:
  assumes "headers rs' = headers rs" "hm_get rs' r = Some run'"
  obtains run where "hm_get rs r = Some run" "header run = header run'"
  using headers_get [OF assms(1), of r] assms(2) by (cases "hm_get rs r") auto

lemma headers_no_job:
  assumes "headers rs' = headers rs"
  shows "get_job rs' r j = None \<longleftrightarrow> get_job rs r j = None"
proof (cases "hm_get rs' r")
  case None
  then show ?thesis using headers_get_none [OF assms, of r] by (simp add: get_job_def)
next
  case (Some run')
  then obtain run where run: "hm_get rs r = Some run" "header run = header run'" by (rule headers_get_run [OF assms])
  then have "map_option ji_spec (hm_get (wr_jobs run) j) = map_option ji_spec (hm_get (wr_jobs run') j)"
    by (metis header_def job_specs_get prod.inject)
  then show ?thesis using Some run(1) by (metis get_job_def bind.bind_lunit map_option_is_None)
qed

lemma record_of_header: "header run = header run' \<Longrightarrow> record_of_run cd run = record_of_run cd run'"
  by (cases run; cases run') (simp add: header_def record_of_run_def)

lemma job_specs_modify:
  "(\<And>job. hm_get js j = Some job \<Longrightarrow> ji_spec (f job) = ji_spec job) \<Longrightarrow> job_specs (hm_modify j f js) = job_specs js"
  by (induction js) (auto simp: job_specs_def)

lemma headers_modify:
  "(\<And>run. hm_get rs r = Some run \<Longrightarrow> header (g run) = header run) \<Longrightarrow> headers (hm_modify r g rs) = headers rs"
  by (induction rs) (auto simp: headers_def)

lemma headers_modify_job:
  assumes "\<And>job. get_job rs r j = Some job \<Longrightarrow> ji_spec (f job) = ji_spec job"
  shows "headers (modify_job r j f rs) = headers rs"
  unfolding modify_job_def
proof (rule headers_modify)
  fix run assume "hm_get rs r = Some run"
  then show "header (run\<lparr>wr_jobs := hm_modify j f (wr_jobs run)\<rparr>) = header run"
    using assms by (simp add: header_def job_specs_modify get_job_def)
qed

lemma headers_cancel [simp]: "headers (cancel_run r rs) = headers rs"
  unfolding cancel_run_def
  by (rule headers_modify) (simp add: header_def job_specs_def comp_def case_prod_beta')

lemma headers_sweep:
  assumes "\<And>job. ji_spec (f job) = ji_spec job"
  shows "headers (fst (sweep pick f rs)) = headers rs"
proof -
  have "job_specs (fold (\<lambda>j. hm_modify j f) ids js) = job_specs js" for ids js
    by (induction ids arbitrary: js) (simp_all add: job_specs_modify assms)
  then show ?thesis by (simp add: fst_sweep headers_def header_def comp_def case_prod_beta')
qed

lemma headers_advance_pending: "headers (dm_runs (fst (advance_pending d))) = headers (dm_runs d)"
  by (simp add: advance_pending_runs headers_sweep)

lemma headers_cascade_skipped: "headers (dm_runs (fst (cascade_skipped now d))) = headers (dm_runs d)"
  by (simp add: cascade_skipped_runs headers_sweep)

lemma reject_job_spec: "reject_job now ns pools n reason job = Some job' \<Longrightarrow> ji_spec job' = ji_spec job"
  by (auto simp: reject_job_def bind_eq_Some_conv Let_def split: if_splits)

lemma outcome_keeps: "apply_outcome env now out d = Some (d', ws) \<Longrightarrow>
    headers (dm_runs d') = headers (dm_runs d) \<and> dm_store d' = dm_store d \<and> dm_nodes d' = dm_nodes d"
  by (auto simp: apply_outcome_def Let_def bind_eq_Some_conv start_job_def intro!: headers_modify_job
    dest!: reject_job_spec split: option.splits sum.splits executor_error.splits)

lemma outcomes_keep: "apply_outcomes env now outs d = Some (d', ws) \<Longrightarrow>
    headers (dm_runs d') = headers (dm_runs d) \<and> dm_store d' = dm_store d \<and> dm_nodes d' = dm_nodes d"
proof (induction outs arbitrary: d ws)
  case (Cons out outs)
  then show ?case by (fastforce simp: bind_eq_Some_conv dest!: outcome_keeps)
qed simp

lemma entry_keeps: "apply_entry now e d = Some (d', ws) \<Longrightarrow>
    headers (dm_runs d') = headers (dm_runs d) \<and> dm_store d' = dm_store d \<and> dm_nodes d' = dm_nodes d"
  by (auto simp: apply_entry_def Let_def bind_eq_Some_conv intro!: headers_modify_job
    split: option.splits sum.splits executor_error.splits poll_result.splits)

lemma entries_keep: "apply_entries now es d = Some (d', ws) \<Longrightarrow>
    headers (dm_runs d') = headers (dm_runs d) \<and> dm_store d' = dm_store d \<and> dm_nodes d' = dm_nodes d"
proof (induction es arbitrary: d ws)
  case (Cons e es)
  then show ?case by (fastforce simp: bind_eq_Some_conv dest!: entry_keeps)
qed simp

section \<open>The rows of a daemon's runs\<close>

definition node_name_of :: "node list \<Rightarrow> job_instance \<Rightarrow> string option" where
  "node_name_of ns job = (case ji_executions job of [] \<Rightarrow> None | e # _ \<Rightarrow> Some (nd_name (ns ! ex_node e)))"

definition saved_of :: "codecs \<Rightarrow> node list \<Rightarrow> string \<Rightarrow> job_instance \<Rightarrow> saved_job" where
  "saved_of cd ns r job =
     \<lparr>sj_row = row_of_job cd r job, sj_node = node_name_of ns job,
      sj_allocation = (case ji_executions job of [] \<Rightarrow> None | e # _ \<Rightarrow> Some (cd_allocation cd (ex_allocation e)))\<rparr>"

text \<open>The database is up to date but for the jobs of \<open>K\<close>.\<close>

definition current :: "codecs \<Rightarrow> daemon \<Rightarrow> (string \<times> string) set \<Rightarrow> store \<Rightarrow> bool" where
  "current cd d K st \<longleftrightarrow> store_ok st
     \<and> (\<forall>r run. hm_get (dm_runs d) r = Some run \<longrightarrow> record_of_run cd run \<in> set (st_runs st))
     \<and> (\<forall>r j. hm_get (dm_runs d) r \<noteq> None \<longrightarrow> get_job (dm_runs d) r j = None \<longrightarrow> (r, j) \<notin> job_key ` set (st_jobs st))
     \<and> (\<forall>r j job. get_job (dm_runs d) r j = Some job \<longrightarrow> (r, j) \<notin> K \<longrightarrow> saved_of cd (dm_nodes d) r job \<in> set (st_jobs st))"

definition database :: "codecs \<Rightarrow> store \<Rightarrow> daemon \<Rightarrow> store" where
  "database cd st0 d = fold (store_write_apply cd) (dm_store d) st0"

lemma current_weaken: "current cd d K st \<Longrightarrow> K \<subseteq> K' \<Longrightarrow> current cd d K' st"
  unfolding current_def by blast

lemma current_cong: "dm_runs d' = dm_runs d \<Longrightarrow> dm_nodes d' = dm_nodes d \<Longrightarrow> current cd d' K st = current cd d K st"
  unfolding current_def by (simp only:)

lemma job_key_saved [simp]: "job_key (saved_of cd ns r job) = (r, ji_job_id job)"
  by (simp add: saved_of_def job_key_def row_of_job_def)

lemma upsert_saved:
  "node = node_name_of ns job \<Longrightarrow> upsert_job cd r job node st =
   st\<lparr>st_jobs := filter (\<lambda>j. job_key j \<noteq> (r, ji_job_id job)) (st_jobs st) @ [saved_of cd ns r job]\<rparr>"
  by (simp add: upsert_job_def saved_of_def)

lemma current_upsert:
  assumes cur: "current cd d K st" and ok: "runs_ok P (dm_runs d)" and job: "get_job (dm_runs d) r j = Some job"
    and name: "node = node_name_of (dm_nodes d) job"
  shows "current cd d (K - {(r, j)}) (upsert_job cd r job node st)"
proof -
  have id: "ji_job_id job = j" by (rule runs_ok_get(1) [OF ok job])
  have ids: "ji_job_id job' = j'" if "get_job (dm_runs d) r' j' = Some job'" for r' j' job'
    by (rule runs_ok_get(1) [OF ok that])
  note jobs = upsert_saved [OF name, of cd r st]
  show ?thesis unfolding current_def
  proof (intro conjI allI impI)
    show "store_ok (upsert_job cd r job node st)" using cur upsert_job_ok by (simp add: current_def)
  next
    fix r' run assume "hm_get (dm_runs d) r' = Some run"
    then show "record_of_run cd run \<in> set (st_runs (upsert_job cd r job node st))"
      using cur by (simp add: current_def upsert_job_def)
  next
    fix r' j' assume "hm_get (dm_runs d) r' \<noteq> None" "get_job (dm_runs d) r' j' = None"
    then have "(r', j') \<notin> job_key ` set (st_jobs st)" "(r', j') \<noteq> (r, j)" using cur job by (auto simp: current_def)
    then show "(r', j') \<notin> job_key ` set (st_jobs (upsert_job cd r job node st))"
      unfolding jobs using id by auto
  next
    fix r' j' job' assume job': "get_job (dm_runs d) r' j' = Some job'" "(r', j') \<notin> K - {(r, j)}"
    show "saved_of cd (dm_nodes d) r' job' \<in> set (st_jobs (upsert_job cd r job node st))"
    proof (cases "(r', j') = (r, j)")
      case True
      then show ?thesis unfolding jobs using job job' by simp
    next
      case False
      then have "saved_of cd (dm_nodes d) r' job' \<in> set (st_jobs st)" using cur job' by (auto simp: current_def)
      then show ?thesis unfolding jobs using False ids [OF job'(1)] id by auto
    qed
  qed
qed

lemma flush_current:
  assumes "flush_transitions at ws d = Some d'" "runs_ok (job_ok (length (dm_nodes d))) (dm_runs d)"
    and "current cd d K (database cd st0 d)"
  shows "current cd d' (K - set ws) (database cd st0 d')"
  using assms
proof (induction ws arbitrary: d K)
  case Nil
  then show ?case by simp
next
  case (Cons w ws)
  obtain r j where w: "w = (r, j)" by (cases w)
  have less: "K - set (w # ws) = K - {w} - set ws" by auto
  show ?case
  proof (cases "get_job (dm_runs d) r j")
    case None
    then have next_step: "flush_transitions at ws d = Some d'" using Cons.prems(1) by (auto simp: w get_job_def split: option.splits)
    have "current cd d (K - {w}) (database cd st0 d)"
      using Cons.prems(3) None w unfolding current_def by auto
    from Cons.IH [OF next_step Cons.prems(2) this] show ?thesis unfolding less .
  next
    case (Some job)
    then obtain run where run: "hm_get (dm_runs d) r = Some run" "hm_get (wr_jobs run) j = Some job"
      by (auto simp: get_job_def bind_eq_Some_conv)
    from Cons.prems(1) run obtain name where name: "(case ji_executions job of [] \<Rightarrow> Some None
        | e # _ \<Rightarrow> map_option (\<lambda>n. Some (nd_name n)) (vec_get (dm_nodes d) (ex_node e))) = Some name"
      and rest: "flush_transitions at ws
      (d\<lparr>dm_store := dm_store d @ [UpsertJob r job name],
         dm_events := dm_events d @ [job_event_new (wr_run_seq run) (ji_job_seq job) (ji_state job) at]\<rparr>) = Some d'"
      (is "flush_transitions at ws ?d = _")
      by (auto simp: w bind_eq_Some_conv)
    have "name = node_name_of (dm_nodes d) job"
      using name by (auto simp: node_name_of_def vec_get_def split: list.splits if_splits)
    note up = current_upsert [OF Cons.prems(3,2) Some this]
    have db: "database cd st0 ?d = upsert_job cd r job name (database cd st0 d)" by (simp add: database_def)
    have cong: "current cd ?d K' st' = current cd d K' st'" for K' st' by (rule current_cong) simp_all
    have c: "current cd ?d (K - {(r, j)}) (database cd st0 ?d)" unfolding db cong by (rule up)
    have ok: "runs_ok (job_ok (length (dm_nodes ?d))) (dm_runs ?d)" using Cons.prems(2) by simp
    from Cons.IH [OF rest ok c] show ?thesis by (simp only: less [unfolded w] w)
  qed
qed

text \<open>A phase that changes jobs and names them keeps the database current but for those.\<close>

lemma current_change:
  assumes cur: "current cd d {} st" and un: "unwritten_same (dm_runs d) ws (dm_runs d')"
    and heads: "headers (dm_runs d') = headers (dm_runs d)"
    and ns: "map nd_name (dm_nodes d') = map nd_name (dm_nodes d)"
    and ok: "runs_ok (job_ok (length (dm_nodes d))) (dm_runs d)"
  shows "current cd d' (set ws) st"
  unfolding current_def
proof (intro conjI allI impI)
  show "store_ok st" using cur by (simp add: current_def)
next
  fix r run assume "hm_get (dm_runs d') r = Some run"
  then obtain run0 where "hm_get (dm_runs d) r = Some run0" "header run0 = header run" by (rule headers_get_run [OF heads])
  then show "record_of_run cd run \<in> set (st_runs st)"
    using cur record_of_header [of run0 run cd] unfolding current_def by metis
next
  fix r j assume "hm_get (dm_runs d') r \<noteq> None" "get_job (dm_runs d') r j = None"
  then have "hm_get (dm_runs d) r \<noteq> None" "get_job (dm_runs d) r j = None"
    using headers_get_none [OF heads, of r] headers_no_job [OF heads, of r j] by simp_all
  then show "(r, j) \<notin> job_key ` set (st_jobs st)" using cur unfolding current_def by blast
next
  fix r j job assume job: "get_job (dm_runs d') r j = Some job" "(r, j) \<notin> set ws"
  then have same: "get_job (dm_runs d) r j = Some job" using un by (simp add: unwritten_same_def)
  have "node_name_of (dm_nodes d') job = node_name_of (dm_nodes d) job"
  proof (cases "ji_executions job")
    case (Cons e es)
    have "ex_node e < length (dm_nodes d)"
      using runs_ok_get(2) [OF ok same] Cons by (auto simp: job_ok_def split: if_splits)
    then have "nd_name (dm_nodes d' ! ex_node e) = nd_name (dm_nodes d ! ex_node e)"
      using ns by (metis length_map nth_map)
    then show ?thesis using Cons by (simp add: node_name_of_def)
  qed (simp add: node_name_of_def)
  moreover have "saved_of cd (dm_nodes d) r job \<in> set (st_jobs st)" using cur same unfolding current_def by blast
  ultimately show "saved_of cd (dm_nodes d') r job \<in> set (st_jobs st)" by (simp add: saved_of_def)
qed

lemma phase_then_flush:
  assumes cur: "current cd d {} (database cd st0 d)" and un: "unwritten_same (dm_runs d) ws (dm_runs d1)"
    and heads: "headers (dm_runs d1) = headers (dm_runs d)"
    and d1: "dm_nodes d1 = dm_nodes d" "dm_store d1 = dm_store d"
    and ok: "runs_ok (job_ok (length (dm_nodes d))) (dm_runs d)" "runs_ok (job_ok (length (dm_nodes d1))) (dm_runs d1)"
    and fl: "flush_transitions at ws d1 = Some d'"
  shows "current cd d' {} (database cd st0 d')"
proof -
  have "database cd st0 d1 = database cd st0 d" using d1(2) by (simp add: database_def)
  then have "current cd d1 (set ws) (database cd st0 d1)"
    using current_change [OF cur un heads _ ok(1)] d1(1) by simp
  from flush_current [OF fl ok(2) this] show ?thesis by simp
qed

section \<open>Submitting\<close>

lemma upsert_jobs_rows:
  assumes "distinct (map fst js)" "\<forall>(j, job) \<in> set js. ji_job_id job = j \<and> ji_executions job = []"
    and "\<forall>row \<in> set (st_jobs st). fst (job_key row) \<noteq> r"
  shows "st_jobs (fold (store_write_apply cd) (map (\<lambda>(_, job). UpsertJob r job None) js) st)
    = st_jobs st @ map (\<lambda>(_, job). saved_of cd ns r job) js"
    "st_runs (fold (store_write_apply cd) (map (\<lambda>(_, job). UpsertJob r job None) js) st) = st_runs st"
proof -
  have gen: "st_jobs (fold (store_write_apply cd) (map (\<lambda>(_, job). UpsertJob r job None) js) st)
      = st_jobs st @ map (\<lambda>(_, job). saved_of cd ns r job) js
    \<and> st_runs (fold (store_write_apply cd) (map (\<lambda>(_, job). UpsertJob r job None) js) st) = st_runs st"
    if "\<forall>row \<in> set (st_jobs st). \<forall>j \<in> fst ` set js. job_key row \<noteq> (r, j)"
    using assms(1,2) that
  proof (induction js arbitrary: st)
    case (Cons x js)
    obtain j job where x: "x = (j, job)" by (cases x)
    have job: "ji_job_id job = j" "ji_executions job = []" using Cons.prems(2) x by auto
    let ?st = "upsert_job cd r job None st"
    have "filter (\<lambda>row. job_key row \<noteq> (r, j)) (st_jobs st) = st_jobs st"
      using Cons.prems(3) x by (intro filter_True) auto
    then have st: "st_jobs ?st = st_jobs st @ [saved_of cd ns r job]" "st_runs ?st = st_runs st"
      using upsert_saved [of None ns job cd r st] job by (simp_all add: node_name_of_def)
    have "j \<notin> fst ` set js" using Cons.prems(1) x by simp
    then have "\<forall>row \<in> set (st_jobs ?st). \<forall>i \<in> fst ` set js. job_key row \<noteq> (r, i)"
      using Cons.prems(3) st job by auto
    then show ?case using Cons.IH [of ?st] Cons.prems(1,2) x st by simp
  qed simp
  have fresh: "\<forall>row \<in> set (st_jobs st). \<forall>j \<in> fst ` set js. job_key row \<noteq> (r, j)" using assms(3) by fastforce
  show "st_jobs (fold (store_write_apply cd) (map (\<lambda>(_, job). UpsertJob r job None) js) st)
      = st_jobs st @ map (\<lambda>(_, job). saved_of cd ns r job) js"
    "st_runs (fold (store_write_apply cd) (map (\<lambda>(_, job). UpsertJob r job None) js) st) = st_runs st"
    using gen [OF fresh] by blast+
qed

lemma start_run_current:
  assumes cur: "current cd d {} (database cd st0 d)" and new: "hm_get (dm_runs d) r = None"
    and fresh: "r \<notin> rr_run_id ` set (st_runs (database cd st0 d))"
      "\<forall>row \<in> set (st_jobs (database cd st0 d)). fst (job_key row) \<noteq> r"
  shows "current cd (start_run r now spec d) {} (database cd st0 (start_run r now spec d))"
proof -
  let ?st = "database cd st0 d" and ?d = "start_run r now spec d"
  define run where "run = workflow_run_new now r (dm_run_counter d) spec (dm_job_counter d)"
  have run: "wr_run_id run = r" "wr_jobs run = collect_jobs (dm_job_counter d) (ws_jobs spec) []"
    by (simp_all add: run_def workflow_run_new_def)
  define st1 where "st1 = upsert_run cd run ?st"
  have "filter (\<lambda>x. rr_run_id x \<noteq> r) (st_runs ?st) = st_runs ?st" using fresh(1) by (intro filter_True) auto
  then have st1: "st_runs st1 = st_runs ?st @ [record_of_run cd run]" "st_jobs st1 = st_jobs ?st"
    by (simp_all add: st1_def upsert_run_def record_of_run_def run(1))
  have js: "distinct (map fst (wr_jobs run))" "\<forall>(j, job) \<in> set (wr_jobs run). ji_job_id job = j \<and> ji_executions job = []"
    using collect_jobs_wf [of "[]" "dm_job_counter d" "ws_jobs spec"]
      collect_jobs_all [of "[]" "\<lambda>j job. ji_job_id job = j \<and> ji_executions job = []" "ws_jobs spec" "dm_job_counter d"]
    by (auto simp: run(2) hm_wf_def job_instance_new_def)
  have no_rows: "\<forall>row \<in> set (st_jobs st1). fst (job_key row) \<noteq> r" using fresh(2) st1 by simp
  note rows = upsert_jobs_rows(1) [OF js no_rows, where cd = cd and ns = "dm_nodes d"]
    upsert_jobs_rows(2) [OF js no_rows, where cd = cd]
  have db: "database cd st0 ?d = fold (store_write_apply cd) (map (\<lambda>(_, job). UpsertJob r job None) (wr_jobs run)) st1"
    by (simp add: database_def start_run_def Let_def st1_def run_def)
  have jobs: "get_job (dm_runs ?d) r' j = (if r' = r then hm_get (wr_jobs run) j else get_job (dm_runs d) r' j)" for r' j
    using get_job_start_run [OF new] run(2) by simp
  have runs: "hm_get (dm_runs ?d) r' = (if r' = r then Some run else hm_get (dm_runs d) r')" for r'
    by (simp add: start_run_def Let_def hm_get_insert run_def)
  show ?thesis unfolding current_def
  proof (intro conjI allI impI)
    have "store_ok ?st" using cur by (simp add: current_def)
    then show "store_ok (database cd st0 ?d)" unfolding db st1_def by (intro store_writes_ok upsert_run_ok)
  next
    fix r' run' assume "hm_get (dm_runs ?d) r' = Some run'"
    then show "record_of_run cd run' \<in> set (st_runs (database cd st0 ?d))"
      using cur unfolding db rows st1 runs current_def by (auto split: if_splits)
  next
    fix r' j assume a: "hm_get (dm_runs ?d) r' \<noteq> None" "get_job (dm_runs ?d) r' j = None"
    have "(r', j) \<notin> job_key ` set (st_jobs ?st)"
    proof (cases "r' = r")
      case True
      then show ?thesis using fresh(2) by (metis fst_conv image_iff)
    next
      case False
      then show ?thesis using a cur unfolding runs jobs current_def by (simp only: if_False) blast
    qed
    moreover have "(r', j) \<notin> job_key ` (\<lambda>(_, job). saved_of cd (dm_nodes d) r job) ` set (wr_jobs run)"
    proof
      assume "(r', j) \<in> job_key ` (\<lambda>(_, job). saved_of cd (dm_nodes d) r job) ` set (wr_jobs run)"
      then obtain k job where k: "(k, job) \<in> set (wr_jobs run)" "r' = r" "j = ji_job_id job" by auto
      then have "(j, job) \<in> set (wr_jobs run)" using js(2) by auto
      then show False using a(2) k(2) unfolding jobs by (force simp: map_of_eq_None_iff)
    qed
    ultimately show "(r', j) \<notin> job_key ` set (st_jobs (database cd st0 ?d))"
      unfolding db rows st1 by auto
  next
    fix r' j job assume a: "get_job (dm_runs ?d) r' j = Some job"
    show "saved_of cd (dm_nodes ?d) r' job \<in> set (st_jobs (database cd st0 ?d))"
    proof (cases "r' = r")
      case True
      then have "(j, job) \<in> set (wr_jobs run)" using a unfolding jobs by (auto dest: map_of_SomeD)
      then show ?thesis unfolding db rows st1 using True by force
    next
      case False
      then have "saved_of cd (dm_nodes d) r' job \<in> set (st_jobs ?st)"
        using a cur unfolding jobs current_def by (simp only: if_False) blast
      then show ?thesis unfolding db rows st1 by simp
    qed
  qed
qed

lemma cancel_current:
  assumes cur: "current cd d {} st" and c: "handle_cancel r d = (reply, handles, d')"
    and ok: "runs_ok (job_ok (length (dm_nodes d))) (dm_runs d)"
  shows "current cd d' {} st"
proof (cases "d' = d")
  case False
  then have d': "d' = d\<lparr>dm_runs := cancel_run r (dm_runs d)\<rparr>"
    using c by (auto simp: handle_cancel_def split: option.splits)
  have saved: "saved_of cd ns x (mark_cancelling job) = saved_of cd ns x job" for ns x job
    by (simp add: mark_cancelling_def saved_of_def row_of_job_def node_name_of_def)
  have heads: "headers (dm_runs d') = headers (dm_runs d)" using d' by simp
  show ?thesis unfolding current_def
  proof (intro conjI allI impI)
    show "store_ok st" using cur by (simp add: current_def)
  next
    fix x run assume "hm_get (dm_runs d') x = Some run"
    then obtain run0 where "hm_get (dm_runs d) x = Some run0" "header run0 = header run" by (rule headers_get_run [OF heads])
    then show "record_of_run cd run \<in> set (st_runs st)"
      using cur record_of_header [of run0 run cd] unfolding current_def by metis
  next
    fix x j assume "hm_get (dm_runs d') x \<noteq> None" "get_job (dm_runs d') x j = None"
    then have "hm_get (dm_runs d) x \<noteq> None" "get_job (dm_runs d) x j = None"
      using headers_get_none [OF heads, of x] d' by (auto simp: get_job_cancel split: if_splits)
    then show "(x, j) \<notin> job_key ` set (st_jobs st)" using cur unfolding current_def by blast
  next
    fix x j job assume "get_job (dm_runs d') x j = Some job"
    then obtain job0 where "get_job (dm_runs d) x j = Some job0" "saved_of cd (dm_nodes d) x job = saved_of cd (dm_nodes d) x job0"
      using d' saved by (auto simp: get_job_cancel split: if_splits)
    then show "saved_of cd (dm_nodes d') x job \<in> set (st_jobs st)"
      using cur d' unfolding current_def by simp
  qed
qed (use cur in simp)

end
