(* ===== verification/Recovery.thy ===== *)
theory Recovery
  imports Durable
begin

text \<open>
  A restart: from the database of a daemon that stopped between two turns the next one gets back
  every unfinished run, with what its running jobs hold booked again.
\<close>

section \<open>Booking what was held\<close>

lemma held_add [simp]:
  "held_cpu (A + B) = held_cpu A + held_cpu B" "held_memory (A + B) = held_memory A + held_memory B"
  "held_cards (A + B) = held_cards A + held_cards B"
  by (simp_all add: held_cpu_def held_memory_def held_cards_def)

text \<open>What a pool held before can be booked on a new pool of the same total.\<close>

lemma book_within:
  assumes p: "ledger p H" and q: "ledger q (add_mset a H + R)" and same: "total p = total q"
  shows "ledger (book a p) (add_mset a H)"
proof (rule book_ledger [OF p])
  have "unat (available_cpu q) + (unat (al_cpu a) + held_cpu H + held_cpu R) = unat (available_cpu p) + held_cpu H"
    "unat (available_memory_mb q) + (unat (al_memory_mb a) + held_memory H + held_memory R)
      = unat (available_memory_mb p) + held_memory H"
    using p q same by (simp_all add: ledger_def)
  then have "al_cpu a \<le> available_cpu p" "al_memory_mb a \<le> available_memory_mb p"
    by (simp_all add: word_le_nat_alt)
  moreover have once: "count (mset (card_ids a) + held_cards H + held_cards R) i \<le> 1" for i
    using q by (simp add: ledger_def add.assoc)
  have "count (mset (card_ids a)) i \<le> 1" for i using once [of i] by simp
  then have "distinct (card_ids a)"
    by (metis count_greater_eq_one_iff distinct_count_atmost_1 le_antisym not_in_iff set_mset_mset)
  moreover have "i \<notin># held_cards H" if "i \<in> set (card_ids a)" for i
  proof -
    have "i \<in># mset (card_ids a)" using that by simp
    then have "0 < count (mset (card_ids a)) i" by (simp only: count_greater_zero_iff)
    then have "count (held_cards H) i = 0" using once [of i, unfolded plus_multiset.rep_eq] by linarith
    then show ?thesis by (simp add: not_in_iff)
  qed
  ultimately show "fits p H a" using q same by (auto simp: fits_def ledger_def)
qed

section \<open>A row read back\<close>

lemma position_nth:
  "distinct (map f xs) \<Longrightarrow> n < length xs \<Longrightarrow> position (\<lambda>x. Some (f x) = Some (f (xs ! n))) xs = Some n"
proof (induction xs arbitrary: n)
  case (Cons x xs)
  then show ?case by (cases n) (auto simp: nth_eq_iff_index_eq)
qed simp

lemma shell_find_home: "env_home env \<noteq> None \<Longrightarrow> shell_find env m r j \<noteq> None"
  by (auto simp: shell_find_def exit_path_def job_log_path_def in_home_def Let_def)

text \<open>A job whose row can be read back, and what a restart finds of the process of a running one.\<close>

definition readable_job :: "codecs \<Rightarrow> job_instance \<Rightarrow> bool" where
  "readable_job cd job \<longleftrightarrow>
     (\<forall>t. ji_started_at job = Some t \<or> ji_ended_at job = Some t \<longrightarrow> cd_parse_time cd (cd_time cd t) = Some t)
     \<and> (\<forall>n. ji_exit_code job = Some n \<longrightarrow> is_i32 n)
     \<and> (\<forall>e \<in> set (ji_executions job). cd_parse_allocation cd (cd_allocation cd (ex_allocation e)) = Some (ex_allocation e))"

definition found_handle :: "environment \<Rightarrow> machine \<Rightarrow> node list \<Rightarrow> string \<Rightarrow> string \<Rightarrow> nat \<Rightarrow> job_handle option" where
  "found_handle env m ns r j n =
     (case nd_ssh (ns ! n) of
        None \<Rightarrow> Option.bind (shell_find env m r j) (\<lambda>h. h)
      | Some _ \<Rightarrow> Some (job_handle_remote 0 r j))"

definition held_again :: "environment \<Rightarrow> machine \<Rightarrow> node list \<Rightarrow> string \<Rightarrow> job_instance \<Rightarrow> execution list" where
  "held_again env m ns r job =
     (if ji_state job \<noteq> Running then []
      else case ji_executions job of [] \<Rightarrow> []
        | e # _ \<Rightarrow> (case found_handle env m ns r (ji_job_id job) (ex_node e) of
            None \<Rightarrow> [] | Some h \<Rightarrow> [e\<lparr>ex_handle := Some h\<rparr>]))"

text \<open>The job that comes back for \<open>job\<close>, built on the new instance \<open>fresh\<close> of its spec.\<close>

definition taken_back :: "environment \<Rightarrow> machine \<Rightarrow> datetime \<Rightarrow> node list \<Rightarrow> string \<Rightarrow> job_instance \<Rightarrow> job_instance \<Rightarrow> job_instance" where
  "taken_back env m now ns r job fresh =
     (let back = fresh\<lparr>ji_state := ji_state job, ji_exit_code := ji_exit_code job, ji_started_at := ji_started_at job,
            ji_ended_at := ji_ended_at job, ji_log_path := map_option from_utf8_lossy (ji_log_path job),
            ji_reason := ji_reason job\<rparr> in
      if ji_state job \<noteq> Running then back
      else if held_again env m ns r job = [] then back\<lparr>ji_state := Interrupted, ji_ended_at := Some now\<rparr>
      else back\<lparr>ji_executions := held_again env m ns r job\<rparr>)"

definition booked :: "execution list \<Rightarrow> resource_pool list \<Rightarrow> resource_pool list" where
  "booked es ps = (case es of [] \<Rightarrow> ps | e # _ \<Rightarrow> ps[ex_node e := book (ex_allocation e) (ps ! ex_node e)])"

lemma restore_row:
  assumes "readable_job cd job"
  shows "restore cd (row_of_job cd r job) fresh =
    fresh\<lparr>ji_state := ji_state job, ji_exit_code := ji_exit_code job, ji_started_at := ji_started_at job,
      ji_ended_at := ji_ended_at job, ji_log_path := map_option from_utf8_lossy (ji_log_path job), ji_reason := ji_reason job\<rparr>"
proof -
  have "map_option as_i32 (ji_exit_code job) = ji_exit_code job"
    using assms by (cases "ji_exit_code job") (auto simp: readable_job_def as_i32_id)
  moreover have "Option.bind (map_option (cd_time cd) (ji_started_at job)) (cd_parse_time cd) = ji_started_at job"
    "Option.bind (map_option (cd_time cd) (ji_ended_at job)) (cd_parse_time cd) = ji_ended_at job"
    using assms by (cases "ji_started_at job"; simp add: readable_job_def) (cases "ji_ended_at job"; use assms in \<open>simp add: readable_job_def\<close>)
  ultimately show ?thesis by (simp add: restore_def row_of_job_def job_state_str.dec_enc)
qed

lemma saved_of_names:
  assumes "map nd_name ns' = map nd_name ns" "job_ok (length ns) job"
  shows "saved_of cd ns' r job = saved_of cd ns r job"
proof -
  have "nd_name (ns' ! n) = nd_name (ns ! n)" if "n < length ns" for n
    using assms(1) that by (metis length_map nth_map)
  then show ?thesis using assms(2) by (auto simp: saved_of_def node_name_of_def job_ok_def split: if_splits list.splits)
qed

lemma take_back_row:
  assumes home: "env_home env \<noteq> None" and read: "readable_job cd job" and names: "distinct (map nd_name ns)"
    and ok: "job_ok (length ns) job" and fresh: "hm_get (tb_jobs tb) (ji_job_id job) = Some fresh"
    and len: "length (tb_pools tb) = length ns"
  shows "take_back_job cd env m now ns r (saved_of cd ns r job) tb =
    Some (tb\<lparr>tb_jobs := hm_modify (ji_job_id job) (\<lambda>_. taken_back env m now ns r job fresh) (tb_jobs tb),
             tb_pools := booked (held_again env m ns r job) (tb_pools tb),
             tb_store := (if ji_state job = Running \<and> held_again env m ns r job = []
                          then interrupt cd now r (ji_job_id job) (tb_store tb) else tb_store tb)\<rparr>)"
proof -
  have row: "sj_row (saved_of cd ns r job) = row_of_job cd r job" "jr_job_id (row_of_job cd r job) = ji_job_id job"
    by (simp_all add: saved_of_def row_of_job_def)
  show ?thesis
  proof (cases "ji_state job = Running")
    case False
    then show ?thesis
      by (cases tb) (use fresh in \<open>simp add: take_back_job_def row restore_row [OF read] taken_back_def held_again_def booked_def Let_def\<close>)
  next
    case True
    then obtain e where e: "ji_executions job = [e]" "ex_node e < length ns" using ok by (auto simp: job_ok_def)
    let ?n = "ex_node e"
    have pos: "position (\<lambda>n. Some (nd_name n) = sj_node (saved_of cd ns r job)) ns = Some ?n"
      using position_nth [OF names e(2)] e(1) by (simp add: saved_of_def node_name_of_def)
    have alloc: "Option.bind (sj_allocation (saved_of cd ns r job)) (cd_parse_allocation cd) = Some (ex_allocation e)"
      using read e(1) by (simp add: saved_of_def readable_job_def)
    obtain h where h: "shell_find env m r (ji_job_id job) = Some h" using shell_find_home [OF home] by blast
    have re: "reattach cd env m ns r (saved_of cd ns r job) =
        Some (map_option (\<lambda>h. e\<lparr>ex_handle := Some h\<rparr>) (found_handle env m ns r (ji_job_id job) ?n))"
      using h by (cases e) (auto simp: reattach_def pos alloc row found_handle_def split: option.splits)
    show ?thesis
    proof (cases "found_handle env m ns r (ji_job_id job) ?n")
      case None
      then show ?thesis
        by (cases tb) (use True fresh e in \<open>simp add: take_back_job_def row restore_row [OF read] re
          taken_back_def held_again_def booked_def Let_def\<close>)
    next
      case (Some h)
      then show ?thesis
        by (cases tb) (use True fresh e len in \<open>simp add: take_back_job_def row restore_row [OF read] re
          taken_back_def held_again_def booked_def Let_def vec_get_def\<close>)
    qed
  qed
qed

section \<open>The rows of a run read back\<close>

lemma held_again_held:
  assumes "job_ok n job"
  obtains R where "\<And>i. exec_held (ji_executions job) i = exec_held (held_again env m ns r job) i + R i"
proof (cases "held_again env m ns r job")
  case Nil
  then show thesis using that [of "exec_held (ji_executions job)"] by simp
next
  case (Cons e es)
  then have "exec_held (ji_executions job) i = exec_held (held_again env m ns r job) i" for i
    using assms by (auto simp: held_again_def job_ok_def split: if_splits list.splits option.splits)
  then show thesis using that [of "\<lambda>_. {#}"] by simp
qed

lemma held_again_cases:
  assumes "job_ok n job"
  obtains "held_again env m ns r job = []"
  | e where "held_again env m ns r job = [e]" "ex_node e < n" "ex_handle e \<noteq> None" "ji_state job = Running"
proof (cases "held_again env m ns r job")
  case (Cons e es)
  then have "es = [] \<and> ex_node e < n \<and> ex_handle e \<noteq> None \<and> ji_state job = Running"
    using assms by (auto simp: held_again_def job_ok_def split: if_splits list.splits option.splits)
  then show thesis using that(2) Cons by blast
qed (rule that(1))

lemma taken_back_executions: "ji_executions fresh = [] \<Longrightarrow> ji_executions (taken_back env m now ns r job fresh) = held_again env m ns r job"
  by (simp add: taken_back_def held_again_def Let_def)

lemma taken_back_ok:
  assumes "job_ok n job" "ji_executions fresh = []" "ji_rejected fresh = []"
  shows "job_ok n (taken_back env m now ns r job fresh)"
  using assms by (auto simp: taken_back_def held_again_def Let_def job_ok_def split: if_splits list.splits option.splits)

lemma taken_back_simps [simp]:
  "ji_job_id (taken_back env m now ns r job fresh) = ji_job_id fresh"
  "ji_spec (taken_back env m now ns r job fresh) = ji_spec fresh"
  "ji_job_seq (taken_back env m now ns r job fresh) = ji_job_seq fresh"
  by (simp_all add: taken_back_def Let_def)

lemma booked_accounts:
  assumes acc: "accounts ps H" and old: "accounts qs K" and same: "map total ps = map total qs"
    and K: "\<And>i. K i = exec_held es i + H i + R i"
    and es: "es = [] \<or> (\<exists>e. es = [e] \<and> ex_node e < length ps)"
  shows "accounts (booked es ps) (\<lambda>i. exec_held es i + H i) \<and> map total (booked es ps) = map total ps
    \<and> length (booked es ps) = length ps"
  using es
proof
  assume "\<exists>e. es = [e] \<and> ex_node e < length ps"
  then obtain e where e: "es = [e]" "ex_node e < length ps" by blast
  let ?n = "ex_node e" and ?a = "ex_allocation e"
  have len: "length qs = length ps" using same by (metis length_map)
  have "ledger (qs ! ?n) (add_mset ?a (H ?n) + R ?n)" using accounts_pool [OF old, of ?n] e len K [of ?n] by simp
  moreover have "total (ps ! ?n) = total (qs ! ?n)" using same e(2) len by (metis nth_map)
  ultimately have b: "ledger (book ?a (ps ! ?n)) (add_mset ?a (H ?n))"
    using book_within [OF accounts_pool [OF acc e(2)]] by blast
  have "total (book ?a (ps ! ?n)) = total (ps ! ?n)" by (simp add: book_def)
  then have "map total (ps[?n := book ?a (ps ! ?n)]) = map total ps"
    using e(2) by (simp add: map_update list_update_same_conv)
  then show ?thesis using b acc e by (auto simp: accounts_def booked_def nth_list_update)
qed (use acc in \<open>simp add: booked_def\<close>)

definition new_job :: "job_instance \<Rightarrow> bool" where
  "new_job fresh \<longleftrightarrow> ji_executions fresh = [] \<and> ji_rejected fresh = []"

definition list_held :: "job_instance list \<Rightarrow> nat \<Rightarrow> allocation multiset" where
  "list_held jl i = sum_list (map (\<lambda>job. exec_held (ji_executions job) i) jl)"

lemma list_held_simps [simp]:
  "list_held [] i = {#}" "list_held (job # jl) i = exec_held (ji_executions job) i + list_held jl i"
  by (simp_all add: list_held_def)

definition given_up :: "codecs \<Rightarrow> environment \<Rightarrow> machine \<Rightarrow> datetime \<Rightarrow> node list \<Rightarrow> string \<Rightarrow> job_instance \<Rightarrow> store \<Rightarrow> store" where
  "given_up cd env m now ns r job st =
     (if ji_state job = Running \<and> held_again env m ns r job = [] then interrupt cd now r (ji_job_id job) st else st)"

lemma take_back_rows:
  assumes home: "env_home env \<noteq> None" and names: "distinct (map nd_name ns)" and old: "accounts qs K" "length qs = length ns"
    and rows: "\<forall>job \<in> set jl. readable_job cd job \<and> job_ok (length ns) job
        \<and> (\<exists>fresh. hm_get (tb_jobs tb) (ji_job_id job) = Some fresh \<and> new_job fresh)"
      "distinct (map ji_job_id jl)"
    and acc: "accounts (tb_pools tb) (\<lambda>i. jobs_held (tb_jobs tb) i + R i)" "map total (tb_pools tb) = map total qs"
    and within: "\<And>i. jobs_held (tb_jobs tb) i + R i + list_held jl i \<subseteq># K i"
  shows "\<exists>tb'. take_back_jobs cd env m now ns r (map (saved_of cd ns r) jl) tb = Some tb'
    \<and> accounts (tb_pools tb') (\<lambda>i. jobs_held (tb_jobs tb') i + R i) \<and> map total (tb_pools tb') = map total qs
    \<and> map fst (tb_jobs tb') = map fst (tb_jobs tb)
    \<and> (\<forall>job \<in> set jl. \<forall>fresh. hm_get (tb_jobs tb) (ji_job_id job) = Some fresh \<longrightarrow>
         hm_get (tb_jobs tb') (ji_job_id job) = Some (taken_back env m now ns r job fresh))
    \<and> (\<forall>j. j \<notin> ji_job_id ` set jl \<longrightarrow> hm_get (tb_jobs tb') j = hm_get (tb_jobs tb) j)
    \<and> (\<forall>i. jobs_held (tb_jobs tb') i \<subseteq># jobs_held (tb_jobs tb) i + list_held jl i)
    \<and> tb_store tb' = fold (given_up cd env m now ns r) jl (tb_store tb)"
  using rows acc within
proof (induction jl arbitrary: tb)
  case (Cons job jl)
  let ?j = "ji_job_id job" and ?es = "held_again env m ns r job"
  obtain fresh where fresh: "hm_get (tb_jobs tb) ?j = Some fresh" "new_job fresh" using Cons.prems(1) by auto
  have job: "readable_job cd job" "job_ok (length ns) job" using Cons.prems(1) by simp_all
  have len: "length (tb_pools tb) = length ns" using Cons.prems(4) old(2) by (metis length_map)
  define tk where "tk = taken_back env m now ns r job fresh"
  define tb1 where "tb1 = tb\<lparr>tb_jobs := hm_modify ?j (\<lambda>_. tk) (tb_jobs tb),
    tb_pools := booked ?es (tb_pools tb), tb_store := given_up cd env m now ns r job (tb_store tb)\<rparr>"
  have step: "take_back_job cd env m now ns r (saved_of cd ns r job) tb = Some tb1"
    using take_back_row [OF home job(1) names job(2) fresh(1) len, of m now r]
    by (simp add: tb1_def tk_def given_up_def)
  obtain S where S: "\<And>i. exec_held (ji_executions job) i = exec_held ?es i + S i" using held_again_held [OF job(2)] by metis
  have held: "jobs_held (tb_jobs tb1) i = exec_held ?es i + jobs_held (tb_jobs tb) i" for i
    using jobs_held_modify [OF fresh(1), of "\<lambda>_. tk" i] fresh(2)
    by (simp add: tb1_def tk_def taken_back_executions new_job_def add.commute)
  obtain Z where all: "K i = exec_held ?es i + (jobs_held (tb_jobs tb) i + R i) + (S i + list_held jl i + Z i)" for i
  proof
    fix i
    have "jobs_held (tb_jobs tb) i + R i + list_held (job # jl) i
        + (K i - (jobs_held (tb_jobs tb) i + R i + list_held (job # jl) i)) = K i"
      by (rule subset_mset.add_diff_inverse [OF Cons.prems(5)])
    then show "K i = exec_held ?es i + (jobs_held (tb_jobs tb) i + R i)
        + (S i + list_held jl i + (K i - (jobs_held (tb_jobs tb) i + R i + list_held (job # jl) i)))"
      by (simp add: S ac_simps)
  qed
  have "?es = [] \<or> (\<exists>e. ?es = [e] \<and> ex_node e < length (tb_pools tb))"
    using held_again_cases [OF job(2), of env m ns r] len by metis
  from booked_accounts [OF Cons.prems(3) old(1) Cons.prems(4) all this]
  have acc1: "accounts (tb_pools tb1) (\<lambda>i. jobs_held (tb_jobs tb1) i + R i)" "map total (tb_pools tb1) = map total qs"
    using Cons.prems(4) by (simp_all add: held add.assoc) (simp_all add: tb1_def)
  have within1: "jobs_held (tb_jobs tb1) i + R i + list_held jl i \<subseteq># K i" for i
  proof -
    have "K i = jobs_held (tb_jobs tb1) i + R i + list_held jl i + (S i + Z i)" by (simp add: all held ac_simps)
    then show ?thesis by (metis mset_subset_eq_add_left)
  qed
  have other: "hm_get (tb_jobs tb1) j = (if j = ?j then Some tk else hm_get (tb_jobs tb) j)" for j
    using fresh(1) by (simp add: tb1_def)
  have ids: "ji_job_id job' \<noteq> ?j" if "job' \<in> set jl" for job'
    using Cons.prems(2) that by (metis distinct.simps(2) image_eqI list.set_map list.simps(9))
  have rows1: "\<forall>job \<in> set jl. readable_job cd job \<and> job_ok (length ns) job
        \<and> (\<exists>fresh. hm_get (tb_jobs tb1) (ji_job_id job) = Some fresh \<and> new_job fresh)" "distinct (map ji_job_id jl)"
    using Cons.prems(1,2) by (auto simp: other ids)
  from Cons.IH [OF rows1 acc1 within1] obtain tb' where
    tb': "take_back_jobs cd env m now ns r (map (saved_of cd ns r) jl) tb1 = Some tb'"
      "accounts (tb_pools tb') (\<lambda>i. jobs_held (tb_jobs tb') i + R i)" "map total (tb_pools tb') = map total qs"
      "map fst (tb_jobs tb') = map fst (tb_jobs tb1)"
      "\<forall>job \<in> set jl. \<forall>fresh. hm_get (tb_jobs tb1) (ji_job_id job) = Some fresh \<longrightarrow>
         hm_get (tb_jobs tb') (ji_job_id job) = Some (taken_back env m now ns r job fresh)"
      "\<forall>j. j \<notin> ji_job_id ` set jl \<longrightarrow> hm_get (tb_jobs tb') j = hm_get (tb_jobs tb1) j"
      "\<forall>i. jobs_held (tb_jobs tb') i \<subseteq># jobs_held (tb_jobs tb1) i + list_held jl i"
      "tb_store tb' = fold (given_up cd env m now ns r) jl (tb_store tb1)" by blast
  have "?j \<notin> ji_job_id ` set jl" using ids by (metis imageE)
  then have "hm_get (tb_jobs tb') ?j = Some tk" using tb'(6) other [of ?j] by simp
  moreover have "jobs_held (tb_jobs tb') i \<subseteq># jobs_held (tb_jobs tb) i + list_held (job # jl) i" for i
  proof -
    have "jobs_held (tb_jobs tb1) i + list_held jl i + S i = jobs_held (tb_jobs tb) i + list_held (job # jl) i"
      by (simp add: held S ac_simps)
    then show ?thesis using tb'(7) [rule_format, of i] by (metis mset_subset_eq_add_left subset_mset.order_trans)
  qed
  ultimately show ?case using step tb' fresh(1) ids
    by (intro exI [of _ tb']) (auto simp: other tk_def, simp_all add: tb1_def)
qed simp

section \<open>The specs of a run's jobs\<close>

text \<open>Every run keeps the name and the jobs of the spec it was built from.\<close>

definition built_from_spec :: "workflow_run \<Rightarrow> bool" where
  "built_from_spec run \<longleftrightarrow> wr_workflow_name run = ws_name (wr_spec run)
     \<and> (\<forall>j. map_option ji_spec (hm_get (wr_jobs run) j) = map_option ji_spec (hm_get (collect_jobs 0 (ws_jobs (wr_spec run)) []) j))"

definition specs_ok :: "runs \<Rightarrow> bool" where
  "specs_ok rs \<longleftrightarrow> (\<forall>r run. hm_get rs r = Some run \<longrightarrow> built_from_spec run)"

lemma collect_jobs_specs:
  "(\<And>j. map_option ji_spec (hm_get js j) = map_option ji_spec (hm_get js' j)) \<Longrightarrow>
   map_option ji_spec (hm_get (collect_jobs n specs js) j) = map_option ji_spec (hm_get (collect_jobs n' specs js') j)"
proof (induction specs arbitrary: n n' js js')
  case (Cons spec specs)
  show ?case unfolding collect_jobs.simps
    by (rule Cons.IH) (use Cons.prems in \<open>simp add: hm_get_insert job_instance_new_def\<close>)
qed simp

lemma specs_ok_headers:
  assumes heads: "headers rs' = headers rs" and ok: "specs_ok rs"
  shows "specs_ok rs'"
  unfolding specs_ok_def
proof (intro allI impI)
  fix r run' assume "hm_get rs' r = Some run'"
  then obtain run where run: "hm_get rs r = Some run" "header run = header run'" by (rule headers_get_run [OF heads])
  have "map_option ji_spec (hm_get (wr_jobs run') j) = map_option ji_spec (hm_get (wr_jobs run) j)" for j
    using run(2) by (metis header_def job_specs_get prod.inject)
  moreover have "wr_workflow_name run' = wr_workflow_name run" "wr_spec run' = wr_spec run"
    using run(2) by (cases run; cases run'; simp add: header_def)+
  ultimately show "built_from_spec run'" using ok run(1) by (simp add: specs_ok_def built_from_spec_def)
qed

lemma start_run_specs:
  assumes "specs_ok (dm_runs d)"
  shows "specs_ok (dm_runs (start_run r now spec d))"
  using assms collect_jobs_specs [of "[]" "[]" "dm_job_counter d" "ws_jobs spec" _ 0]
  by (simp add: specs_ok_def start_run_def Let_def hm_get_insert built_from_spec_def workflow_run_new_def)

lemma step_specs:
  assumes "step env s t" "specs_ok (dm_runs (sy_daemon s))"
  shows "specs_ok (dm_runs (sy_daemon t))"
proof -
  have keeps: ?thesis if "headers (dm_runs (sy_daemon t)) = headers (dm_runs (sy_daemon s))"
    using specs_ok_headers [OF that assms(2)] .
  show ?thesis using assms(1)
  proof cases
    case (st_submit d run_id spec c ph now)
    then show ?thesis using assms(2) by (simp add: start_run_specs)
  next
    case (st_cancel run_id d reply handles d')
    then have "headers (dm_runs d') = headers (dm_runs d)" by (auto simp: handle_cancel_def split: option.splits)
    then show ?thesis using keeps st_cancel by simp
  next
    case (st_flush at ws d d')
    then show ?thesis using keeps flush_keeps [OF st_flush(3)] by simp
  next
    case (st_pending d d' ws c)
    then show ?thesis using keeps headers_advance_pending [of d] by simp
  next
    case (st_skip now d d' ws c)
    then show ?thesis using keeps headers_cascade_skipped [of now d] by simp
  next
    case (st_admit d tasks d' c)
    then have "dm_runs d' = dm_runs d" by (auto simp: admit_def bind_eq_Some_conv)
    then show ?thesis using keeps st_admit by simp
  next
    case (st_launched now outs d d' ws c)
    then show ?thesis using keeps outcomes_keep [OF st_launched(3)] by simp
  next
    case (st_polled now es d d' ws c)
    then show ?thesis using keeps entries_keep [OF st_polled(3)] by simp
  qed (use keeps in simp_all)
qed

section \<open>A run taken back\<close>

definition save_run :: "codecs \<Rightarrow> node list \<Rightarrow> string \<times> workflow_run \<Rightarrow> job_instance list \<Rightarrow> saved_run" where
  "save_run cd ns run jl =
     \<lparr>sr_run_id = fst run, sr_created_at = cd_time cd (wr_created_at (snd run)),
      sr_spec_json = Some (cd_spec cd (wr_spec (snd run))), sr_jobs = map (saved_of cd ns (fst run)) jl\<rparr>"

definition readable_run :: "codecs \<Rightarrow> workflow_run \<Rightarrow> bool" where
  "readable_run cd run \<longleftrightarrow> cd_parse_spec cd (cd_spec cd (wr_spec run)) = Some (wr_spec run)
     \<and> cd_parse_time cd (cd_time cd (wr_created_at run)) = Some (wr_created_at run)
     \<and> (\<forall>(_, job) \<in> set (wr_jobs run). readable_job cd job)"

text \<open>The run that comes back for another: the same jobs, each taken back.\<close>

definition restored :: "environment \<Rightarrow> machine \<Rightarrow> datetime \<Rightarrow> node list \<Rightarrow> string \<Rightarrow> workflow_run \<Rightarrow> workflow_run \<Rightarrow> bool" where
  "restored env m now ns r run run' \<longleftrightarrow> wr_run_id run' = r \<and> wr_workflow_name run' = wr_workflow_name run
     \<and> wr_spec run' = wr_spec run \<and> wr_created_at run' = wr_created_at run \<and> hm_wf (wr_jobs run')
     \<and> (\<forall>j. case hm_get (wr_jobs run) j of
              None \<Rightarrow> hm_get (wr_jobs run') j = None
            | Some job \<Rightarrow> (\<exists>seq. hm_get (wr_jobs run') j = Some (taken_back env m now ns r job (job_instance_new (ji_spec job) seq))))"

lemma fresh_job:
  assumes "built_from_spec run" "jobs_ok P (wr_jobs run)"
  shows "case hm_get (wr_jobs run) j of
      None \<Rightarrow> hm_get (collect_jobs n (ws_jobs (wr_spec run)) []) j = None
    | Some job \<Rightarrow> (\<exists>seq. hm_get (collect_jobs n (ws_jobs (wr_spec run)) []) j = Some (job_instance_new (ji_spec job) seq))"
proof -
  let ?js = "collect_jobs n (ws_jobs (wr_spec run)) []"
  have specs: "map_option ji_spec (hm_get ?js j) = map_option ji_spec (hm_get (wr_jobs run) j)"
    using assms(1) collect_jobs_specs [of "[]" "[]" n "ws_jobs (wr_spec run)" j 0] by (simp add: built_from_spec_def)
  have "\<forall>(k, job) \<in> set ?js. \<exists>spec seq. job = job_instance_new spec seq"
    by (rule collect_jobs_all) auto
  then have "\<exists>spec seq. job = job_instance_new spec seq" if "hm_get ?js j = Some job" for job
    using that by (auto dest!: map_of_SomeD)
  then show ?thesis using specs by (cases "hm_get ?js j"; cases "hm_get (wr_jobs run) j")
      (auto simp: job_instance_new_def)
qed

lemma jobs_held_list: "jobs_held js i = list_held (map snd js) i"
  by (simp add: jobs_held_def list_held_def comp_def case_prod_beta')

lemma list_held_mset: "mset jl = mset jl' \<Longrightarrow> list_held jl i = list_held jl' i"
  unfolding list_held_def by (metis mset_map sum_mset_sum_list)

lemma built_spec_id:
  assumes "built_from_spec run" "hm_get (wr_jobs run) j = Some job"
  shows "js_id (ji_spec job) = j"
proof -
  let ?js = "collect_jobs 0 (ws_jobs (wr_spec run)) []"
  have "\<forall>(k, job) \<in> set ?js. js_id (ji_spec job) = k"
    by (rule collect_jobs_all) (simp_all add: job_instance_new_def)
  moreover have "map_option ji_spec (hm_get ?js j) = Some (ji_spec job)"
    using assms by (metis built_from_spec_def option.simps(9))
  then obtain job' where "hm_get ?js j = Some job'" "ji_spec job' = ji_spec job" by auto
  ultimately show ?thesis by (auto dest!: map_of_SomeD)
qed

lemma restored_ok:
  assumes "restored env m now ns r run run'" "jobs_ok (job_ok n) (wr_jobs run)" "built_from_spec run"
  shows "jobs_ok (job_ok n) (wr_jobs run')"
  unfolding jobs_ok_def
proof (intro conjI allI impI)
  show "hm_wf (wr_jobs run')" using assms(1) by (simp add: restored_def)
next
  fix j job' assume j: "hm_get (wr_jobs run') j = Some job'"
  then obtain job seq where job: "hm_get (wr_jobs run) j = Some job"
    "job' = taken_back env m now ns r job (job_instance_new (ji_spec job) seq)"
    using assms(1) by (force simp: restored_def split: option.splits)
  have ok: "job_ok n job" "ji_job_id job = j" "js_id (ji_spec job) = j"
    using assms(2) job(1) built_spec_id [OF assms(3)] by (auto simp: jobs_ok_def)
  show "ji_job_id job' = j" "job_ok n job'"
    using ok taken_back_ok [OF ok(1)] by (simp_all add: job(2) job_instance_new_def)
qed

lemma take_back_one:
  assumes home: "env_home env \<noteq> None" and names: "distinct (map nd_name (dm_nodes dd))"
    and old: "accounts qs K" "length qs = length (dm_nodes dd)"
    and run: "jobs_ok (job_ok (length (dm_nodes dd))) (wr_jobs run)" "built_from_spec run" "readable_run cd run"
      "mset jl = mset (map snd (wr_jobs run))"
    and new: "hm_get (dm_runs dd) r = None"
    and acc: "accounts (dm_pools dd) (runs_held (dm_runs dd))" "map total (dm_pools dd) = map total qs"
    and within: "\<And>i. runs_held (dm_runs dd) i + jobs_held (wr_jobs run) i \<subseteq># K i"
  shows "\<exists>run' pools. take_back_run cd env m now (save_run cd (dm_nodes dd) (r, run) jl) (dd, st) =
      Some (dd\<lparr>dm_run_counter := dm_run_counter dd + 1,
               dm_job_counter := dm_job_counter dd + of_nat (length (ws_jobs (wr_spec run))),
               dm_pools := pools, dm_runs := dm_runs dd @ [(r, run')]\<rparr>,
            fold (given_up cd env m now (dm_nodes dd) r) jl st)
    \<and> restored env m now (dm_nodes dd) r run run'
    \<and> accounts pools (runs_held (dm_runs dd @ [(r, run')])) \<and> map total pools = map total qs
    \<and> (\<forall>i. runs_held (dm_runs dd @ [(r, run')]) i \<subseteq># runs_held (dm_runs dd) i + jobs_held (wr_jobs run) i)"
proof -
  let ?ns = "dm_nodes dd" and ?spec = "wr_spec run"
  define js where "js = collect_jobs (dm_job_counter dd) (ws_jobs ?spec) []"
  define tb where "tb = \<lparr>tb_jobs = js, tb_pools = dm_pools dd, tb_store = st\<rparr>"
  have jobs: "hm_get (wr_jobs run) (ji_job_id job) = Some job" "readable_job cd job" "job_ok (length ?ns) job"
    if "job \<in> set jl" for job
  proof -
    have "job \<in> snd ` set (wr_jobs run)" using that run(4) by (metis set_map set_mset_mset)
    then obtain j where j: "(j, job) \<in> set (wr_jobs run)" by auto
    then show "hm_get (wr_jobs run) (ji_job_id job) = Some job" "job_ok (length ?ns) job"
      using jobs_ok_job [OF run(1) j] by simp_all
    show "readable_job cd job" using run(3) j by (auto simp: readable_run_def)
  qed
  note fresh = fresh_job [OF run(2,1), where n = "dm_job_counter dd", folded js_def]
  have rows: "\<forall>job \<in> set jl. readable_job cd job \<and> job_ok (length ?ns) job
      \<and> (\<exists>fresh. hm_get (tb_jobs tb) (ji_job_id job) = Some fresh \<and> new_job fresh)"
  proof
    fix job assume job: "job \<in> set jl"
    then obtain seq where "hm_get js (ji_job_id job) = Some (job_instance_new (ji_spec job) seq)"
      using fresh [of "ji_job_id job"] jobs(1) by auto
    then show "readable_job cd job \<and> job_ok (length ?ns) job
        \<and> (\<exists>fresh. hm_get (tb_jobs tb) (ji_job_id job) = Some fresh \<and> new_job fresh)"
      using jobs(2,3) [OF job] by (simp add: tb_def new_job_def job_instance_new_def)
  qed
  have dist: "distinct (map ji_job_id jl)"
  proof -
    have "map fst (wr_jobs run) = map ji_job_id (map snd (wr_jobs run))"
      using jobs_ok_job [OF run(1)] by (auto simp: comp_def)
    moreover have "distinct (map fst (wr_jobs run))" using run(1) by (simp add: jobs_ok_def hm_wf_def)
    ultimately show ?thesis using run(4) by (metis mset_eq_imp_distinct_iff mset_map)
  qed
  have none: "jobs_held (tb_jobs tb) i = {#}" for i by (simp add: tb_def js_def new_jobs_held)
  have listed: "list_held jl i = jobs_held (wr_jobs run) i" for i
    unfolding jobs_held_list by (rule list_held_mset [OF run(4)])
  then have within': "jobs_held (tb_jobs tb) i + runs_held (dm_runs dd) i + list_held jl i \<subseteq># K i" for i
    using within by (simp add: none listed)
  have acc': "accounts (tb_pools tb) (\<lambda>i. jobs_held (tb_jobs tb) i + runs_held (dm_runs dd) i)"
    "map total (tb_pools tb) = map total qs" using acc by (simp_all add: none) (simp_all add: tb_def)
  from take_back_rows [OF home names old rows dist acc' within', where m = m and now = now and r = r] obtain tb' where
    tb': "take_back_jobs cd env m now ?ns r (map (saved_of cd ?ns r) jl) tb = Some tb'"
      "accounts (tb_pools tb') (\<lambda>i. jobs_held (tb_jobs tb') i + runs_held (dm_runs dd) i)" "map total (tb_pools tb') = map total qs"
      "map fst (tb_jobs tb') = map fst (tb_jobs tb)"
      "\<And>job fresh. job \<in> set jl \<Longrightarrow> hm_get (tb_jobs tb) (ji_job_id job) = Some fresh \<Longrightarrow>
         hm_get (tb_jobs tb') (ji_job_id job) = Some (taken_back env m now ?ns r job fresh)"
      "\<And>j. j \<notin> ji_job_id ` set jl \<Longrightarrow> hm_get (tb_jobs tb') j = hm_get (tb_jobs tb) j"
      "\<And>i. jobs_held (tb_jobs tb') i \<subseteq># jobs_held (tb_jobs tb) i + list_held jl i"
      "tb_store tb' = fold (given_up cd env m now ?ns r) jl st" by (auto simp: tb_def)
  define run' where "run' = (workflow_run_new now r (dm_run_counter dd) ?spec (dm_job_counter dd))
    \<lparr>wr_created_at := wr_created_at run, wr_jobs := tb_jobs tb'\<rparr>"
  have "restored env m now ?ns r run run'"
  proof -
    have "hm_wf (wr_jobs run')" using tb'(4) collect_jobs_wf [of "[]"] by (simp add: hm_wf_def run'_def tb_def js_def)
    moreover have "case hm_get (wr_jobs run) j of None \<Rightarrow> hm_get (wr_jobs run') j = None
        | Some job \<Rightarrow> (\<exists>seq. hm_get (wr_jobs run') j = Some (taken_back env m now ?ns r job (job_instance_new (ji_spec job) seq)))" for j
    proof (cases "hm_get (wr_jobs run) j")
      case None
      then have "j \<notin> ji_job_id ` set jl" using jobs(1) by force
      then show ?thesis using None tb'(6) fresh [of j] by (simp add: run'_def tb_def)
    next
      case (Some job)
      then have j: "(j, job) \<in> set (wr_jobs run)" by (rule map_of_SomeD)
      have "set jl = snd ` set (wr_jobs run)" using run(4) by (metis set_map set_mset_mset)
      then have "job \<in> set jl" "ji_job_id job = j" using jobs_ok_job [OF run(1) j] j by force+
      then show ?thesis using Some tb'(5) fresh [of j] by (force simp: run'_def tb_def)
    qed
    moreover have "wr_run_id run' = r" "wr_workflow_name run' = ws_name ?spec" "wr_spec run' = ?spec"
      "wr_created_at run' = wr_created_at run" by (simp_all add: run'_def workflow_run_new_def)
    ultimately show ?thesis using run(2) by (simp add: restored_def built_from_spec_def)
  qed
  have held: "runs_held (dm_runs dd @ [(r, run')]) i = jobs_held (tb_jobs tb') i + runs_held (dm_runs dd) i" for i
    by (simp add: runs_held_def run'_def add.commute)
  have parse: "cd_parse_spec cd (cd_spec cd ?spec) = Some ?spec"
    "cd_parse_time cd (cd_time cd (wr_created_at run)) = Some (wr_created_at run)"
    using run(3) by (simp_all add: readable_run_def)
  have start: "\<lparr>tb_jobs = wr_jobs (workflow_run_new now r (dm_run_counter dd) ?spec (dm_job_counter dd)),
      tb_pools = dm_pools dd, tb_store = st\<rparr> = tb"
    by (simp add: tb_def js_def workflow_run_new_def)
  show ?thesis
  proof (intro exI conjI allI)
    show "take_back_run cd env m now (save_run cd ?ns (r, run) jl) (dd, st) =
      Some (dd\<lparr>dm_run_counter := dm_run_counter dd + 1,
               dm_job_counter := dm_job_counter dd + of_nat (length (ws_jobs ?spec)),
               dm_pools := tb_pools tb', dm_runs := dm_runs dd @ [(r, run')]\<rparr>,
            fold (given_up cd env m now ?ns r) jl st)"
      using tb'(1,8) start new by (simp add: take_back_run_def save_run_def parse run'_def Let_def hm_insert_absent)
    show "accounts (tb_pools tb') (runs_held (dm_runs dd @ [(r, run')]))"
      by (rule accounts_cong [THEN iffD1, OF _ tb'(2)]) (simp add: held)
    show "runs_held (dm_runs dd @ [(r, run')]) i \<subseteq># runs_held (dm_runs dd) i + jobs_held (wr_jobs run) i" for i
      using tb'(7) [of i] by (simp add: held none listed add.commute)
  qed fact+
qed

section \<open>All runs taken back\<close>

text \<open>A list of runs with their jobs in the order of their rows.\<close>

type_synonym saved_item = "(string \<times> workflow_run) \<times> job_instance list"

abbreviation item_id :: "saved_item \<Rightarrow> string" where
  "item_id x \<equiv> fst (fst x)"

definition items_held :: "saved_item list \<Rightarrow> nat \<Rightarrow> allocation multiset" where
  "items_held L i = sum_list (map (\<lambda>x. jobs_held (wr_jobs (snd (fst x))) i) L)"

definition item_ok :: "codecs \<Rightarrow> nat \<Rightarrow> saved_item \<Rightarrow> bool" where
  "item_ok cd n x \<longleftrightarrow> (let run = snd (fst x) in
     jobs_ok (job_ok n) (wr_jobs run) \<and> built_from_spec run \<and> readable_run cd run
     \<and> mset (snd x) = mset (map snd (wr_jobs run)))"

lemma items_held_simps [simp]:
  "items_held [] i = {#}" "items_held (x # L) i = jobs_held (wr_jobs (snd (fst x))) i + items_held L i"
  by (simp_all add: items_held_def)

lemma take_back_items:
  assumes home: "env_home env \<noteq> None" and names: "distinct (map nd_name ns)"
    and old: "accounts qs K" "length qs = length ns"
    and items: "\<forall>x \<in> set L. item_ok cd (length ns) x" "distinct (map item_id L)"
      "\<forall>x \<in> set L. hm_get (dm_runs dd) (item_id x) = None"
    and dd: "dm_nodes dd = ns" "accounts (dm_pools dd) (runs_held (dm_runs dd))" "map total (dm_pools dd) = map total qs"
    and within: "\<And>i. runs_held (dm_runs dd) i + items_held L i \<subseteq># K i"
  shows "\<exists>dd'. take_back_list cd env m now (map (\<lambda>x. save_run cd ns (fst x) (snd x)) L) (dd, st) =
      Some (dd', fold (\<lambda>x. fold (given_up cd env m now ns (item_id x)) (snd x)) L st)
    \<and> dm_nodes dd' = ns \<and> dm_store dd' = dm_store dd
    \<and> accounts (dm_pools dd') (runs_held (dm_runs dd')) \<and> map total (dm_pools dd') = map total qs
    \<and> map fst (dm_runs dd') = map fst (dm_runs dd) @ map item_id L
    \<and> (\<forall>x \<in> set L. \<exists>run'. hm_get (dm_runs dd') (item_id x) = Some run' \<and> restored env m now ns (item_id x) (snd (fst x)) run')
    \<and> (\<forall>r. r \<notin> item_id ` set L \<longrightarrow> hm_get (dm_runs dd') r = hm_get (dm_runs dd) r)"
  using items dd within
proof (induction L arbitrary: dd st)
  case (Cons x L)
  obtain r run jl where x: "x = ((r, run), jl)" by (cases x) auto
  have ok: "jobs_ok (job_ok (length ns)) (wr_jobs run)" "built_from_spec run" "readable_run cd run"
    "mset jl = mset (map snd (wr_jobs run))" using Cons.prems(1) by (simp_all add: x item_ok_def)
  have nodes: "dm_nodes dd = ns" by (rule Cons.prems(4))
  have here: "distinct (map nd_name (dm_nodes dd))" "length qs = length (dm_nodes dd)"
    "jobs_ok (job_ok (length (dm_nodes dd))) (wr_jobs run)" using names old(2) ok(1) by (simp_all add: nodes)
  have new: "hm_get (dm_runs dd) r = None" using Cons.prems(3) by (simp add: x)
  have within1: "runs_held (dm_runs dd) i + jobs_held (wr_jobs run) i \<subseteq># K i" for i
    using Cons.prems(7) [of i] by (simp add: x add.assoc [symmetric]) (metis mset_subset_eq_add_left subset_mset.order_trans)
  obtain run' pools where one:
    "take_back_run cd env m now (save_run cd ns (r, run) jl) (dd, st) =
      Some (dd\<lparr>dm_run_counter := dm_run_counter dd + 1,
               dm_job_counter := dm_job_counter dd + of_nat (length (ws_jobs (wr_spec run))),
               dm_pools := pools, dm_runs := dm_runs dd @ [(r, run')]\<rparr>, fold (given_up cd env m now ns r) jl st)"
    "restored env m now ns r run run'"
    "accounts pools (runs_held (dm_runs dd @ [(r, run')]))" "map total pools = map total qs"
    "\<And>i. runs_held (dm_runs dd @ [(r, run')]) i \<subseteq># runs_held (dm_runs dd) i + jobs_held (wr_jobs run) i"
    using take_back_one [where m = m and now = now and st = st,
        OF home here(1) old(1) here(2,3) ok(2-4) new Cons.prems(5,6) within1, unfolded nodes] by blast
  define dd1 where "dd1 = dd\<lparr>dm_run_counter := dm_run_counter dd + 1,
               dm_job_counter := dm_job_counter dd + of_nat (length (ws_jobs (wr_spec run))),
               dm_pools := pools, dm_runs := dm_runs dd @ [(r, run')]\<rparr>"
  have runs1: "hm_get (dm_runs dd1) r' = (if r' = r then Some run' else hm_get (dm_runs dd) r')" for r'
    using new by (simp add: dd1_def map_add_def split: option.splits)
  have "r \<notin> item_id ` set L" using Cons.prems(2) by (simp add: x)
  then have ids: "item_id y \<noteq> r" if "y \<in> set L" for y using that by (metis imageI)
  have within2: "runs_held (dm_runs dd1) i + items_held L i \<subseteq># K i" for i
  proof -
    have "runs_held (dm_runs dd1) i + items_held L i \<subseteq># runs_held (dm_runs dd) i + items_held (x # L) i"
      using one(5) [of i] by (simp add: dd1_def x add.assoc [symmetric])
    then show ?thesis using Cons.prems(7) [of i] by (rule subset_mset.order_trans)
  qed
  have "\<exists>dd'. take_back_list cd env m now (map (\<lambda>x. save_run cd ns (fst x) (snd x)) L) (dd1, fold (given_up cd env m now ns r) jl st) =
      Some (dd', fold (\<lambda>x. fold (given_up cd env m now ns (item_id x)) (snd x)) L (fold (given_up cd env m now ns r) jl st))
    \<and> dm_nodes dd' = ns \<and> dm_store dd' = dm_store dd1
    \<and> accounts (dm_pools dd') (runs_held (dm_runs dd')) \<and> map total (dm_pools dd') = map total qs
    \<and> map fst (dm_runs dd') = map fst (dm_runs dd1) @ map item_id L
    \<and> (\<forall>x \<in> set L. \<exists>run'. hm_get (dm_runs dd') (item_id x) = Some run' \<and> restored env m now ns (item_id x) (snd (fst x)) run')
    \<and> (\<forall>r. r \<notin> item_id ` set L \<longrightarrow> hm_get (dm_runs dd') r = hm_get (dm_runs dd1) r)"
  proof (rule Cons.IH)
    show "\<forall>x \<in> set L. hm_get (dm_runs dd1) (item_id x) = None" using Cons.prems(3) ids by (simp add: runs1)
  qed (use Cons.prems(1,2) within2 one(3,4) nodes in \<open>simp_all add: dd1_def\<close>)
  then obtain dd' where dd':
    "take_back_list cd env m now (map (\<lambda>x. save_run cd ns (fst x) (snd x)) L) (dd1, fold (given_up cd env m now ns r) jl st) =
      Some (dd', fold (\<lambda>x. fold (given_up cd env m now ns (item_id x)) (snd x)) L (fold (given_up cd env m now ns r) jl st))"
    "dm_nodes dd' = ns" "dm_store dd' = dm_store dd1"
    "accounts (dm_pools dd') (runs_held (dm_runs dd'))" "map total (dm_pools dd') = map total qs"
    "map fst (dm_runs dd') = map fst (dm_runs dd1) @ map item_id L"
    "\<forall>x \<in> set L. \<exists>run'. hm_get (dm_runs dd') (item_id x) = Some run' \<and> restored env m now ns (item_id x) (snd (fst x)) run'"
    "\<forall>r. r \<notin> item_id ` set L \<longrightarrow> hm_get (dm_runs dd') r = hm_get (dm_runs dd1) r" by blast
  have "hm_get (dm_runs dd') r = Some run'" using dd'(8) runs1 [of r] \<open>r \<notin> item_id ` set L\<close> by simp
  then show ?case using dd' one(1,2) runs1
    by (intro exI [of _ dd']) (simp add: x dd1_def)
qed simp

section \<open>The rows of a daemon's runs\<close>

lemma run_rows:
  assumes cur: "current cd d {} st" and ok: "runs_ok P (dm_runs d)" and run: "hm_get (dm_runs d) r = Some run"
  shows "\<exists>jl. jobs_of r st = map (saved_of cd (dm_nodes d) r) jl \<and> mset jl = mset (map snd (wr_jobs run))"
proof -
  define job_of where "job_of = (\<lambda>row :: saved_job. the (hm_get (wr_jobs run) (jr_job_id (sj_row row))))"
  have dist: "distinct (map job_key (st_jobs st))" using cur by (simp add: current_def store_ok_def)
  have js: "jobs_ok P (wr_jobs run)" using ok run by (auto simp: runs_ok_def)
  have get: "get_job (dm_runs d) r j = hm_get (wr_jobs run) j" for j using run by (simp add: get_job_def)
  have saved: "saved_of cd (dm_nodes d) r job \<in> set (jobs_of r st)" if "hm_get (wr_jobs run) j = Some job" for j job
    using cur that get [of j] by (auto simp: current_def jobs_of_def saved_of_def row_of_job_def)
  have row: "hm_get (wr_jobs run) (jr_job_id (sj_row row)) = Some (job_of row) \<and> row = saved_of cd (dm_nodes d) r (job_of row)"
    if "row \<in> set (jobs_of r st)" for row
  proof -
    have in_st: "row \<in> set (st_jobs st)" "job_key row = (r, jr_job_id (sj_row row))" using that by (auto simp: jobs_of_def job_key_def)
    then have "hm_get (wr_jobs run) (jr_job_id (sj_row row)) \<noteq> None"
      using cur run get unfolding current_def by (metis image_eqI option.distinct(1))
    then have job: "hm_get (wr_jobs run) (jr_job_id (sj_row row)) = Some (job_of row)" by (auto simp: job_of_def)
    then have "ji_job_id (job_of row) = jr_job_id (sj_row row)" using js by (simp add: jobs_ok_def)
    then have "job_key (saved_of cd (dm_nodes d) r (job_of row)) = job_key row" using in_st(2) by simp
    moreover have "saved_of cd (dm_nodes d) r (job_of row) \<in> set (st_jobs st)" using saved [OF job] by (simp add: jobs_of_def)
    ultimately show ?thesis using job dist in_st(1) by (metis distinct_map inj_onD)
  qed
  let ?jl = "map job_of (jobs_of r st)"
  have rows: "jobs_of r st = map (saved_of cd (dm_nodes d) r) ?jl" using row by (simp add: comp_def map_idI)
  have "distinct (jobs_of r st)" using dist by (simp add: jobs_of_def distinct_map)
  then have "distinct ?jl" using rows by (metis distinct_map)
  moreover have "distinct (map snd (wr_jobs run))"
  proof -
    have "map fst (wr_jobs run) = map ji_job_id (map snd (wr_jobs run))" using jobs_ok_job [OF js] by auto
    then show ?thesis using js by (metis distinct_map hm_wf_def jobs_ok_def)
  qed
  moreover have "set ?jl = set (map snd (wr_jobs run))"
  proof (intro equalityI subsetI)
    fix job assume "job \<in> set ?jl"
    then obtain row0 where "row0 \<in> set (jobs_of r st)" "job = job_of row0" by auto
    then show "job \<in> set (map snd (wr_jobs run))" using row by (force dest: map_of_SomeD)
  next
    fix job assume "job \<in> set (map snd (wr_jobs run))"
    then obtain j where j: "(j, job) \<in> set (wr_jobs run)" by auto
    have job: "hm_get (wr_jobs run) j = Some job" "ji_job_id job = j" using jobs_ok_job [OF js j] by simp_all
    have "job_of (saved_of cd (dm_nodes d) r job) = job" using job by (simp add: job_of_def saved_of_def row_of_job_def)
    then show "job \<in> set ?jl" using saved [OF job(1)] by (metis image_eqI list.set_map)
  qed
  ultimately show ?thesis using rows by (metis set_eq_iff_mset_eq_distinct)
qed

text \<open>A run the store still owes an end: one of its jobs is pending, queued or running.\<close>

definition unfinished :: "runs \<Rightarrow> string \<Rightarrow> bool" where
  "unfinished rs r \<longleftrightarrow> (\<exists>j job. get_job rs r j = Some job \<and> ji_state job \<in> {Pending, Queued, Running})"

definition restartable :: "codecs \<Rightarrow> daemon \<Rightarrow> store \<Rightarrow> bool" where
  "restartable cd d st \<longleftrightarrow> current cd d {} st \<and> sr_run_id ` set (unfinished_runs st) \<subseteq> fst ` set (dm_runs d)
     \<and> (\<forall>(_, run) \<in> set (dm_runs d). readable_run cd run) \<and> distinct (map nd_name (dm_nodes d))"

section \<open>The database after a restart\<close>

definition interrupted_row :: "codecs \<Rightarrow> datetime \<Rightarrow> saved_job \<Rightarrow> saved_job" where
  "interrupted_row cd now j =
     j\<lparr>sj_row := (sj_row j)\<lparr>jr_state := ''Interrupted'', jr_ended_at := Some (cd_time cd now)\<rparr>,
       sj_node := None, sj_allocation := None\<rparr>"

lemma job_key_interrupted [simp]: "job_key (interrupted_row cd now j) = job_key j"
  by (simp add: interrupted_row_def job_key_def)

lemma interrupted_row_idem: "interrupted_row cd now (interrupted_row cd now j) = interrupted_row cd now j"
  by (simp add: interrupted_row_def)

definition mark_rows :: "codecs \<Rightarrow> datetime \<Rightarrow> (string \<times> string) set \<Rightarrow> store \<Rightarrow> store" where
  "mark_rows cd now G st = st\<lparr>st_jobs := map (\<lambda>j. if job_key j \<in> G then interrupted_row cd now j else j) (st_jobs st)\<rparr>"

lemma mark_rows_none: "mark_rows cd now {} st = st"
  by (simp add: mark_rows_def)

lemma mark_rows_more: "mark_rows cd now G (mark_rows cd now F st) = mark_rows cd now (F \<union> G) st"
  by (auto simp: mark_rows_def interrupted_row_idem)

lemma interrupt_mark: "interrupt cd now r j st = mark_rows cd now {(r, j)} st"
  by (auto simp: interrupt_def mark_rows_def interrupted_row_def)

definition gone :: "environment \<Rightarrow> machine \<Rightarrow> node list \<Rightarrow> string \<Rightarrow> job_instance \<Rightarrow> bool" where
  "gone env m ns r job \<longleftrightarrow> ji_state job = Running \<and> held_again env m ns r job = []"

lemma fold_given_up:
  "fold (given_up cd env m now ns r) jl st = mark_rows cd now {(r, ji_job_id job) |job. job \<in> set jl \<and> gone env m ns r job} st"
proof (induction jl arbitrary: st)
  case (Cons job jl)
  have "given_up cd env m now ns r job st = mark_rows cd now {(r, ji_job_id job') |job'. job' = job \<and> gone env m ns r job'} st"
    by (auto simp: given_up_def gone_def interrupt_mark mark_rows_none)
  then have "fold (given_up cd env m now ns r) (job # jl) st
      = mark_rows cd now ({(r, ji_job_id job') |job'. job' = job \<and> gone env m ns r job'}
          \<union> {(r, ji_job_id job) |job. job \<in> set jl \<and> gone env m ns r job}) st"
    by (simp add: Cons.IH mark_rows_more)
  also have "{(r, ji_job_id job') |job'. job' = job \<and> gone env m ns r job'} \<union> {(r, ji_job_id job) |job. job \<in> set jl \<and> gone env m ns r job}
      = {(r, ji_job_id job') |job'. job' \<in> set (job # jl) \<and> gone env m ns r job'}" by auto
  finally show ?case .
qed (simp add: mark_rows_none)

definition gone_keys :: "environment \<Rightarrow> machine \<Rightarrow> node list \<Rightarrow> saved_item list \<Rightarrow> (string \<times> string) set" where
  "gone_keys env m ns L = (\<Union>x \<in> set L. {(item_id x, ji_job_id job) |job. job \<in> set (snd x) \<and> gone env m ns (item_id x) job})"

lemma fold_given_up_items:
  "fold (\<lambda>x. fold (given_up cd env m now ns (item_id x)) (snd x)) L st = mark_rows cd now (gone_keys env m ns L) st"
  unfolding fold_given_up
proof (induction L arbitrary: st)
  case (Cons x L)
  then show ?case by (simp add: gone_keys_def mark_rows_more)
qed (simp add: gone_keys_def mark_rows_none)

text \<open>The row of a job is the row of the job that comes back for it.\<close>

lemma saved_taken_back:
  assumes "job_ok n job" "new_job fresh" "ji_job_id fresh = ji_job_id job"
  shows "saved_of cd ns r (taken_back env m now ns r job fresh) =
    (if gone env m ns r job then interrupted_row cd now (saved_of cd ns r job) else saved_of cd ns r job)"
proof (cases "ji_state job = Running")
  case False
  then have "ji_executions job = []" "\<not> gone env m ns r job" using assms(1) by (simp_all add: job_ok_def gone_def)
  then show ?thesis using False assms(2,3)
    by (cases "ji_log_path job") (simp_all add: saved_of_def taken_back_def row_of_job_def node_name_of_def new_job_def Let_def from_utf8_lossy_idem)
next
  case True
  then obtain e where e: "ji_executions job = [e]" using assms(1) by (auto simp: job_ok_def)
  show ?thesis
  proof (cases "held_again env m ns r job")
    case Nil
    then have "gone env m ns r job" using True by (simp add: gone_def)
    then show ?thesis using True Nil assms(2,3)
      by (cases "ji_log_path job") (simp_all add: saved_of_def taken_back_def row_of_job_def node_name_of_def new_job_def
        Let_def from_utf8_lossy_idem interrupted_row_def as_str_def)
  next
    case (Cons e' es)
    then have "\<not> gone env m ns r job" "ex_node e' = ex_node e" "ex_allocation e' = ex_allocation e"
      using True e by (auto simp: gone_def held_again_def split: option.splits)
    then show ?thesis using True Cons assms(2,3) e
      by (cases "ji_log_path job") (simp_all add: saved_of_def taken_back_def row_of_job_def node_name_of_def new_job_def
        Let_def from_utf8_lossy_idem)
  qed
qed

lemma finished_state: "jr_state (row_of_job cd r job) \<in> {''Pending'', ''Queued'', ''Running''} \<longleftrightarrow> ji_state job \<in> {Pending, Queued, Running}"
  by (cases "ji_state job") (simp_all add: row_of_job_def as_str_def)

text \<open>The unfinished runs the database gives are the daemon's, with their jobs in the order of the rows.\<close>

lemma unfinished_items:
  assumes re: "restartable cd d st" and ok: "runs_ok (job_ok (length (dm_nodes d))) (dm_runs d)" and specs: "specs_ok (dm_runs d)"
    and names: "map nd_name ns = map nd_name (dm_nodes d)"
  shows "\<exists>L. unfinished_runs st = map (\<lambda>x. save_run cd ns (fst x) (snd x)) L \<and> distinct (map item_id L)
    \<and> (\<forall>x \<in> set L. item_ok cd (length ns) x \<and> fst x \<in> set (dm_runs d))
    \<and> (\<forall>r. r \<in> item_id ` set L \<longleftrightarrow> unfinished (dm_runs d) r)"
proof -
  have cur: "current cd d {} st" using re by (simp add: restartable_def)
  have len: "length ns = length (dm_nodes d)" using names by (metis length_map)
  define jl_of where "jl_of = (\<lambda>r (run :: workflow_run). SOME jl. jobs_of r st = map (saved_of cd (dm_nodes d) r) jl \<and> mset jl = mset (map snd (wr_jobs run)))"
  have jl: "jobs_of r st = map (saved_of cd ns r) (jl_of r run) \<and> mset (jl_of r run) = mset (map snd (wr_jobs run))"
    if run: "hm_get (dm_runs d) r = Some run" for r run
  proof -
    have jl: "jobs_of r st = map (saved_of cd (dm_nodes d) r) (jl_of r run) \<and> mset (jl_of r run) = mset (map snd (wr_jobs run))"
      unfolding jl_of_def by (rule someI_ex [OF run_rows [OF cur ok run]])
    have "job_ok (length (dm_nodes d)) job" if job: "job \<in> set (jl_of r run)" for job
    proof -
      have "set (jl_of r run) = set (map snd (wr_jobs run))" using jl by (metis set_mset_mset)
      then obtain j where "(j, job) \<in> set (wr_jobs run)" using job by auto
      then show ?thesis using ok run jobs_ok_job by (force simp: runs_ok_def)
    qed
    then show ?thesis using jl by (auto simp: saved_of_names [OF names])
  qed
  let ?run = "\<lambda>sr. the (hm_get (dm_runs d) (sr_run_id sr))"
  define item where "item = (\<lambda>sr :: saved_run. ((sr_run_id sr, ?run sr), jl_of (sr_run_id sr) (?run sr)))"
  define L where "L = map item (unfinished_runs st)"
  have item: "save_run cd ns (fst (item sr)) (snd (item sr)) = sr \<and> item_ok cd (length ns) (item sr) \<and> fst (item sr) \<in> set (dm_runs d)
      \<and> unfinished (dm_runs d) (sr_run_id sr)" if sr: "sr \<in> set (unfinished_runs st)" for sr
  proof -
    obtain rr where rr: "rr \<in> set (st_runs st)" "sr = \<lparr>sr_run_id = rr_run_id rr, sr_created_at = rr_created_at rr,
        sr_spec_json = rr_spec_json rr, sr_jobs = jobs_of (rr_run_id rr) st\<rparr>"
      "list_ex (\<lambda>j. jr_state (sj_row j) \<in> {''Pending'', ''Queued'', ''Running''}) (jobs_of (rr_run_id rr) st)"
      using sr by (auto simp: unfinished_runs_def)
    have "sr_run_id sr \<in> fst ` set (dm_runs d)" using re sr by (auto simp: restartable_def)
    then obtain run where run: "hm_get (dm_runs d) (sr_run_id sr) = Some run" by (metis map_of_eq_None_iff not_None_eq)
    note in_runs = map_of_SomeD [OF run]
    have id: "wr_run_id run = sr_run_id sr" "jobs_ok (job_ok (length (dm_nodes d))) (wr_jobs run)"
      using runs_ok_run [OF ok in_runs] by simp_all
    have "record_of_run cd run \<in> set (st_runs st)" using cur run by (simp add: current_def)
    moreover have "rr_run_id (record_of_run cd run) = rr_run_id rr" using id rr(2) by (simp add: record_of_run_def)
    moreover have "distinct (map rr_run_id (st_runs st))" using cur by (simp add: current_def store_ok_def)
    ultimately have rec: "rr = record_of_run cd run" using rr(1) by (metis distinct_map inj_onD)
    have "save_run cd ns (fst (item sr)) (snd (item sr)) = sr"
    proof -
      have "sr_created_at sr = cd_time cd (wr_created_at run)" "sr_spec_json sr = Some (cd_spec cd (wr_spec run))"
        "sr_jobs sr = jobs_of (sr_run_id sr) st" using rr(2) rec by (simp_all add: record_of_run_def)
      then show ?thesis using jl [OF run] by (simp add: item_def save_run_def run)
    qed
    moreover have "item_ok cd (length ns) (item sr)"
    proof -
      have "built_from_spec run" using specs run by (simp add: specs_ok_def)
      moreover have "readable_run cd run" using re in_runs by (auto simp: restartable_def)
      ultimately show ?thesis using jl [OF run] id by (simp add: item_ok_def item_def run len)
    qed
    moreover have "unfinished (dm_runs d) (sr_run_id sr)"
    proof -
      obtain job where job: "job \<in> set (jl_of (sr_run_id sr) run)"
        "jr_state (row_of_job cd (sr_run_id sr) job) \<in> {''Pending'', ''Queued'', ''Running''}"
        using rr(2,3) jl [OF run] by (auto simp: list_ex_iff saved_of_def)
      have "set (jl_of (sr_run_id sr) run) = set (map snd (wr_jobs run))" using jl [OF run] by (metis set_mset_mset)
      then obtain j where "(j, job) \<in> set (wr_jobs run)" using job(1) by auto
      then have "get_job (dm_runs d) (sr_run_id sr) j = Some job" using jobs_ok_job [OF id(2)] run by (simp add: get_job_def)
      then show ?thesis using job(2) unfolding finished_state unfinished_def by blast
    qed
    ultimately show ?thesis using in_runs run by (simp add: item_def)
  qed
  show ?thesis
  proof (intro exI [of _ L] conjI allI)
    show "unfinished_runs st = map (\<lambda>x. save_run cd ns (fst x) (snd x)) L" using item by (simp add: L_def comp_def map_idI)
    show "\<forall>x \<in> set L. item_ok cd (length ns) x \<and> fst x \<in> set (dm_runs d)" using item by (auto simp: L_def)
    have "distinct (map rr_run_id (st_runs st))" using cur by (simp add: current_def store_ok_def)
    then have "distinct (map sr_run_id (unfinished_runs st))"
      by (simp add: unfinished_runs_def comp_def) (auto simp: distinct_map intro: inj_on_subset)
    then show "distinct (map item_id L)" by (simp add: L_def item_def comp_def)
    fix r
    show "r \<in> item_id ` set L \<longleftrightarrow> unfinished (dm_runs d) r"
    proof
      assume "r \<in> item_id ` set L"
      then show "unfinished (dm_runs d) r" using item by (auto simp: L_def item_def)
    next
      assume "unfinished (dm_runs d) r"
      then obtain j job where job: "get_job (dm_runs d) r j = Some job" "ji_state job \<in> {Pending, Queued, Running}"
        by (auto simp: unfinished_def)
      then obtain run where run: "hm_get (dm_runs d) r = Some run" by (auto simp: get_job_def bind_eq_Some_conv)
      have "saved_of cd (dm_nodes d) r job \<in> set (jobs_of r st)"
        using cur job(1) by (auto simp: current_def jobs_of_def saved_of_def row_of_job_def)
      then have row: "list_ex (\<lambda>j. jr_state (sj_row j) \<in> {''Pending'', ''Queued'', ''Running''}) (jobs_of r st)"
        using job(2) finished_state [of cd r job] by (force simp: list_ex_iff saved_of_def)
      have "record_of_run cd run \<in> set (st_runs st)" using cur run by (simp add: current_def)
      moreover have "rr_run_id (record_of_run cd run) = r"
        using runs_ok_run [OF ok map_of_SomeD [OF run]] by (simp add: record_of_run_def)
      ultimately have "r \<in> sr_run_id ` set (unfinished_runs st)" using row by (force simp: unfinished_runs_def)
      then show "r \<in> item_id ` set L" by (force simp: L_def item_def)
    qed
  qed
qed

section \<open>A restart\<close>

text \<open>The daemon a restart begins with: the same nodes by name, each with its whole inventory free.\<close>

definition fresh_daemon :: "daemon \<Rightarrow> daemon \<Rightarrow> bool" where
  "fresh_daemon d d0 \<longleftrightarrow> dm_runs d0 = [] \<and> dm_store d0 = [] \<and> map nd_name (dm_nodes d0) = map nd_name (dm_nodes d)
     \<and> map total (dm_pools d0) = map total (dm_pools d) \<and> (\<forall>p \<in> set (dm_pools d0). ledger p {#})"

definition came_back :: "environment \<Rightarrow> machine \<Rightarrow> datetime \<Rightarrow> daemon \<Rightarrow> daemon \<Rightarrow> bool" where
  "came_back env m now d d' \<longleftrightarrow> (\<forall>r.
     if unfinished (dm_runs d) r
     then (\<exists>run run'. hm_get (dm_runs d) r = Some run \<and> hm_get (dm_runs d') r = Some run'
       \<and> restored env m now (dm_nodes d') r run run')
     else hm_get (dm_runs d') r = None)"

lemma sum_list_part:
  fixes f :: "'a \<Rightarrow> 'b multiset"
  assumes "distinct xs" "set xs \<subseteq> set ys"
  shows "sum_list (map f xs) \<subseteq># sum_list (map f ys)"
proof -
  have "mset xs \<subseteq># mset ys"
  proof (rule mset_subset_eqI)
    fix a
    show "count (mset xs) a \<le> count (mset ys) a"
    proof (cases "a \<in> set xs")
      case True
      then have "count (mset xs) a = 1" using assms(1) by (simp add: count_mset_distinct)
      moreover have "1 \<le> count (mset ys) a" using True assms(2) by (simp only: count_greater_eq_one_iff set_mset_mset) blast
      ultimately show ?thesis by simp
    next
      case False
      then have "count (mset xs) a = 0" by (metis not_in_iff set_mset_mset)
      then show ?thesis by (metis le0)
    qed
  qed
  then obtain zs where "mset ys = mset xs + zs" by (metis mset_subset_eq_exists_conv)
  then have "sum_list (map f ys) = sum_list (map f xs) + (\<Sum>x\<in>#zs. f x)"
    by (metis image_mset_union mset_map sum_mset.union sum_mset_sum_list)
  then show ?thesis by simp
qed

lemma restart_current:
  assumes cur: "current cd d {} st" and ok: "runs_ok (job_ok (length ns)) (dm_runs d)"
    and names: "map nd_name ns = map nd_name (dm_nodes d)" "length ns = length (dm_nodes d)" "dm_nodes d' = ns"
    and L: "distinct (map item_id L)" "\<forall>x \<in> set L. item_ok cd (length ns) x"
    and run_of: "\<And>r run'. hm_get (dm_runs d') r = Some run' \<Longrightarrow> \<exists>run x. x \<in> set L \<and> fst x = (r, run)
      \<and> hm_get (dm_runs d) r = Some run \<and> restored env m now ns r run run' \<and> item_ok cd (length ns) x"
  shows "current cd d' {} (mark_rows cd now (gone_keys env m ns L) st)"
  unfolding current_def
proof (intro conjI allI impI)
  let ?G = "gone_keys env m ns L"
  have keys: "map job_key (st_jobs (mark_rows cd now ?G st)) = map job_key (st_jobs st)"
    "st_runs (mark_rows cd now ?G st) = st_runs st" by (simp_all add: mark_rows_def)
  show "store_ok (mark_rows cd now ?G st)" using cur by (simp add: current_def store_ok_def keys)
  fix r
  show "record_of_run cd run' \<in> set (st_runs (mark_rows cd now ?G st))" if r: "hm_get (dm_runs d') r = Some run'" for run'
  proof -
    obtain run where run: "hm_get (dm_runs d) r = Some run" "restored env m now ns r run run'" using run_of [OF r] by blast
    then have "record_of_run cd run' = record_of_run cd run"
      using runs_ok_run [OF ok map_of_SomeD [OF run(1)]] by (simp add: restored_def record_of_run_def)
    then show ?thesis using cur run(1) by (simp add: current_def keys)
  qed
  fix j
  show "(r, j) \<notin> job_key ` set (st_jobs (mark_rows cd now ?G st))"
    if r: "hm_get (dm_runs d') r \<noteq> None" and j: "get_job (dm_runs d') r j = None"
  proof -
    obtain run' where run': "hm_get (dm_runs d') r = Some run'" using r by blast
    then obtain run where run: "hm_get (dm_runs d) r = Some run" "restored env m now ns r run run'" using run_of by blast
    then have "get_job (dm_runs d) r j = None"
      using j run' by (auto simp: get_job_def restored_def split: option.splits dest!: spec [of _ j])
    moreover have "job_key ` set (st_jobs (mark_rows cd now ?G st)) = job_key ` set (st_jobs st)"
      using keys(1) by (metis list.set_map)
    ultimately show ?thesis using cur run(1) by (simp add: current_def)
  qed
  show "saved_of cd (dm_nodes d') r job' \<in> set (st_jobs (mark_rows cd now ?G st))"
    if j: "get_job (dm_runs d') r j = Some job'" for job'
  proof -
    obtain run' where run': "hm_get (dm_runs d') r = Some run'" "hm_get (wr_jobs run') j = Some job'"
      using j by (auto simp: get_job_def bind_eq_Some_conv)
    then obtain run x where x: "x \<in> set L" "fst x = (r, run)" "hm_get (dm_runs d) r = Some run" "restored env m now ns r run run'"
      "item_ok cd (length ns) x" using run_of by blast
    from x(4) run'(2) obtain job seq where job: "hm_get (wr_jobs run) j = Some job"
      "job' = taken_back env m now ns r job (job_instance_new (ji_spec job) seq)"
      by (auto simp: restored_def split: option.splits dest!: spec [of _ j])
    have js: "jobs_ok (job_ok (length ns)) (wr_jobs run)" "built_from_spec run" "mset (snd x) = mset (map snd (wr_jobs run))"
      using x(2,5) by (simp_all add: item_ok_def Let_def)
    have ok_job: "job_ok (length ns) job" "ji_job_id job = j" "js_id (ji_spec job) = j"
      using js(1) job(1) built_spec_id [OF js(2) job(1)] by (simp_all add: jobs_ok_def)
    have jobs: "set (snd x) = snd ` set (wr_jobs run)" using js(3) by (metis set_map set_mset_mset)
    have gone: "(r, j) \<in> ?G \<longleftrightarrow> gone env m ns r job"
    proof
      assume "(r, j) \<in> ?G"
      then obtain y job2 where y: "y \<in> set L" "item_id y = r" "job2 \<in> set (snd y)" "ji_job_id job2 = j" "gone env m ns r job2"
        by (auto simp: gone_keys_def)
      have "y = x" using L(1) y(1,2) x(1,2) by (metis distinct_map fst_conv inj_onD)
      then obtain k where "(k, job2) \<in> set (wr_jobs run)" using y(3) jobs by auto
      then have "hm_get (wr_jobs run) j = Some job2" using jobs_ok_job [OF js(1)] y(4) by blast
      then show "gone env m ns r job" using job(1) y(5) by simp
    next
      assume "gone env m ns r job"
      moreover have "job \<in> set (snd x)" using jobs map_of_SomeD [OF job(1)] by force
      ultimately show "(r, j) \<in> ?G" using x(1,2) ok_job(2) by (force simp: gone_keys_def)
    qed
    have "get_job (dm_runs d) r j = Some job" using x(3) job(1) by (simp add: get_job_def)
    then have row: "saved_of cd ns r job \<in> set (st_jobs st)"
      using cur saved_of_names [OF names(1)] ok_job(1) names(2) by (simp add: current_def)
    have "saved_of cd ns r job' = (if gone env m ns r job then interrupted_row cd now (saved_of cd ns r job) else saved_of cd ns r job)"
      unfolding job(2) by (rule saved_taken_back [OF ok_job(1)]) (simp_all add: new_job_def job_instance_new_def ok_job)
    also have "\<dots> = (if job_key (saved_of cd ns r job) \<in> ?G then interrupted_row cd now (saved_of cd ns r job) else saved_of cd ns r job)"
      by (simp add: gone ok_job)
    also have "\<dots> \<in> set (st_jobs (mark_rows cd now ?G st))" using row by (auto simp: mark_rows_def)
    finally show ?thesis by (simp add: names(3))
  qed
qed

lemma restart_takes_back:
  assumes home: "env_home env \<noteq> None" and inv: "daemon_ok R d" and specs: "specs_ok (dm_runs d)"
    and re: "restartable cd d st" and fresh: "fresh_daemon d d0"
  shows "\<exists>d' G. take_back_runs cd env m now d0 st = Some (d', mark_rows cd now G st) \<and> dm_nodes d' = dm_nodes d0 \<and> dm_store d' = []
    \<and> daemon_ok (\<lambda>_. {#}) d' \<and> came_back env m now d d' \<and> current cd d' {} (mark_rows cd now G st)"
proof -
  let ?ns = "dm_nodes d0"
  have ok: "runs_ok (job_ok (length (dm_nodes d))) (dm_runs d)" and acc: "accounts (dm_pools d) (\<lambda>i. runs_held (dm_runs d) i + R i)"
    and pools: "length (dm_pools d) = length (dm_nodes d)" using inv by (simp_all add: daemon_ok_def)
  have names: "map nd_name ?ns = map nd_name (dm_nodes d)" and d0: "dm_runs d0 = []" "dm_store d0 = []"
    "map total (dm_pools d0) = map total (dm_pools d)" "\<forall>p \<in> set (dm_pools d0). ledger p {#}"
    using fresh by (simp_all add: fresh_daemon_def)
  have len: "length ?ns = length (dm_nodes d)" using names by (metis length_map)
  obtain L where L: "unfinished_runs st = map (\<lambda>x. save_run cd ?ns (fst x) (snd x)) L" "distinct (map item_id L)"
    "\<forall>x \<in> set L. item_ok cd (length ?ns) x \<and> fst x \<in> set (dm_runs d)"
    "\<forall>r. r \<in> item_id ` set L \<longleftrightarrow> unfinished (dm_runs d) r"
    using unfinished_items [OF re ok specs names] by blast
  have within: "runs_held (dm_runs d0) i + items_held L i \<subseteq># runs_held (dm_runs d) i + R i" for i
  proof -
    have part: "set (map fst L) \<subseteq> set (dm_runs d)"
    proof
      fix y assume "y \<in> set (map fst L)"
      then obtain x where "x \<in> set L" "y = fst x" by auto
      then show "y \<in> set (dm_runs d)" using L(3) by blast
    qed
    have "distinct (map fst (map fst L))" using L(2) by (simp add: comp_def)
    then have "distinct (map fst L)" by (simp only: distinct_map)
    then have "sum_list (map (\<lambda>(_, run). jobs_held (wr_jobs run) i) (map fst L)) \<subseteq># sum_list (map (\<lambda>(_, run). jobs_held (wr_jobs run) i) (dm_runs d))"
      using part by (rule sum_list_part)
    then have "items_held L i \<subseteq># runs_held (dm_runs d) i" by (simp add: items_held_def runs_held_def comp_def case_prod_beta')
    then show ?thesis by (simp add: d0(1) runs_held_def) (metis mset_subset_eq_add_left subset_mset.order_trans)
  qed
  have ps: "length (dm_pools d0) = length (dm_nodes d)" using d0(3) pools by (metis length_map)
  have start: "accounts (dm_pools d0) (runs_held (dm_runs d0))"
    using d0(1,4) by (simp add: accounts_def runs_held_def)
  from take_back_items [OF home _ acc _ _ L(2) _ refl start d0(3) within, where cd = cd and m = m and now = now and st = st]
  obtain d' where d': "take_back_list cd env m now (map (\<lambda>x. save_run cd ?ns (fst x) (snd x)) L) (d0, st) =
      Some (d', mark_rows cd now (gone_keys env m ?ns L) st)"
    "dm_nodes d' = ?ns" "dm_store d' = []" "accounts (dm_pools d') (runs_held (dm_runs d'))" "map total (dm_pools d') = map total (dm_pools d)"
    "map fst (dm_runs d') = map item_id L"
    "\<forall>x \<in> set L. \<exists>run'. hm_get (dm_runs d') (item_id x) = Some run' \<and> restored env m now ?ns (item_id x) (snd (fst x)) run'"
    "\<forall>r. r \<notin> item_id ` set L \<longrightarrow> hm_get (dm_runs d') r = None"
    using L(3) re names pools len d0 by (auto simp: restartable_def fold_given_up_items)
  have run_of: "\<exists>run x. x \<in> set L \<and> fst x = (r, run) \<and> hm_get (dm_runs d) r = Some run \<and> restored env m now ?ns r run run'
      \<and> item_ok cd (length ?ns) x" if r: "hm_get (dm_runs d') r = Some run'" for r run'
  proof -
    have "r \<in> item_id ` set L" using d'(8) r by (metis option.distinct(1))
    then obtain x where x: "x \<in> set L" "item_id x = r" by auto
    then have "(r, snd (fst x)) \<in> set (dm_runs d)" using L(3) by (metis prod.collapse)
    then have "hm_get (dm_runs d) r = Some (snd (fst x))" using runs_ok_run [OF ok] by blast
    moreover have "restored env m now ?ns r (snd (fst x)) run'" using d'(7) x r by force
    ultimately show ?thesis using x L(3) by (metis prod.collapse)
  qed
  have came: "came_back env m now d d'"
    unfolding came_back_def
  proof
    fix r
    show "if unfinished (dm_runs d) r
     then (\<exists>run run'. hm_get (dm_runs d) r = Some run \<and> hm_get (dm_runs d') r = Some run' \<and> restored env m now (dm_nodes d') r run run')
     else hm_get (dm_runs d') r = None"
    proof (cases "r \<in> item_id ` set L")
      case True
      then have "hm_get (dm_runs d') r \<noteq> None" using d'(7) by auto
      then show ?thesis using run_of [of r] True L(4) d'(2) by fastforce
    qed (use d'(8) L(4) in simp)
  qed
  have runs: "runs_ok (job_ok (length ?ns)) (dm_runs d')"
    unfolding runs_ok_def
  proof (intro conjI allI impI)
    show "hm_wf (dm_runs d')" using d'(6) L(2) by (simp add: hm_wf_def)
    fix r run' assume "hm_get (dm_runs d') r = Some run'"
    then obtain run x where x: "fst x = (r, run)" "restored env m now ?ns r run run'" "item_ok cd (length ?ns) x"
      using run_of by blast
    then show "wr_run_id run' = r" by (simp add: restored_def)
    show "jobs_ok (job_ok (length ?ns)) (wr_jobs run')"
      using restored_ok [OF x(2)] x(1,3) by (simp add: item_ok_def Let_def)
  qed
  have "length (dm_pools d') = length ?ns" using d'(5) pools len by (metis length_map)
  then have inv': "daemon_ok (\<lambda>_. {#}) d'" using d'(2,4) runs by (simp add: daemon_ok_def)
  have "current cd d' {} (mark_rows cd now (gone_keys env m ?ns L) st)"
    by (rule restart_current [OF _ _ names len d'(2) L(2)]) (use re ok L(3) run_of in \<open>simp_all add: restartable_def len\<close>)
  then show ?thesis
    using d'(1,2,3) inv' came by (auto simp: take_back_runs_def L(1))
qed

end
