(* ===== verification/Crash.thy ===== *)
theory Crash
  imports Recovery
begin

text \<open>
  A daemon that dies in the middle of a turn. The writes of a phase reach the database one at a
  time (\<open>flush_transitions\<close> of src/src/scheduler/mod.rs), so a crash leaves it with the first of
  them. What it then holds is the record of a daemon in order, in which the jobs already written
  are as the phase left them and the others as they were before, so that a restart can take it back.
\<close>

section \<open>Whose rows are unfinished\<close>

text \<open>Every row of an unfinished job belongs to a run the daemon has.\<close>

definition unfinished_row :: "saved_job \<Rightarrow> bool" where
  "unfinished_row row \<longleftrightarrow> jr_state (sj_row row) \<in> {''Pending'', ''Queued'', ''Running''}"

definition covered :: "daemon \<Rightarrow> store \<Rightarrow> bool" where
  "covered d st \<longleftrightarrow> (\<forall>row \<in> set (st_jobs st). unfinished_row row \<longrightarrow> hm_get (dm_runs d) (jr_run_id (sj_row row)) \<noteq> None)"

lemma written_rows:
  "row \<in> set (st_jobs (fold (store_write_apply cd) ws st)) \<Longrightarrow>
     row \<in> set (st_jobs st) \<or> (\<exists>job node. UpsertJob (jr_run_id (sj_row row)) job node \<in> set ws)"
proof (induction ws arbitrary: st)
  case (Cons w ws)
  then have "row \<in> set (st_jobs (store_write_apply cd w st)) \<or> (\<exists>job node. UpsertJob (jr_run_id (sj_row row)) job node \<in> set ws)"
    by simp
  then show ?case
  proof
    assume row: "row \<in> set (st_jobs (store_write_apply cd w st))"
    show ?thesis
    proof (cases w)
      case (UpsertJob r job node)
      then have "row \<in> set (st_jobs st) \<or> jr_run_id (sj_row row) = r" using row by (auto simp: upsert_job_def row_of_job_def)
      then show ?thesis using UpsertJob by auto
    qed (use row in \<open>simp add: upsert_run_def\<close>)
  qed auto
qed simp

lemma covered_writes:
  assumes "covered d (database cd st d)" "dm_store d' = dm_store d @ ws"
    "\<And>r. hm_get (dm_runs d) r \<noteq> None \<Longrightarrow> hm_get (dm_runs d') r \<noteq> None"
    "\<And>r job node. UpsertJob r job node \<in> set ws \<Longrightarrow> hm_get (dm_runs d') r \<noteq> None"
  shows "covered d' (database cd st d')"
  unfolding covered_def
proof (intro ballI impI)
  fix row assume row: "row \<in> set (st_jobs (database cd st d'))" "unfinished_row row"
  have "database cd st d' = fold (store_write_apply cd) ws (database cd st d)" by (simp add: database_def assms(2))
  then have "row \<in> set (st_jobs (database cd st d)) \<or> (\<exists>job node. UpsertJob (jr_run_id (sj_row row)) job node \<in> set ws)"
    using written_rows [of row cd ws] row(1) by simp
  then show "hm_get (dm_runs d') (jr_run_id (sj_row row)) \<noteq> None"
    using assms(1,3,4) row(2) by (auto simp: covered_def)
qed

lemma flush_writes:
  assumes "flush_transitions at ws d = Some d'"
  shows "\<exists>us. dm_store d' = dm_store d @ us \<and> (\<forall>r job node. UpsertJob r job node \<in> set us \<longrightarrow> hm_get (dm_runs d) r \<noteq> None)"
  using assms
proof (induction ws arbitrary: d)
  case (Cons w ws)
  obtain r j where w: "w = (r, j)" by (cases w)
  show ?case
  proof (cases "get_job (dm_runs d) r j")
    case None
    then have "flush_transitions at ws d = Some d'" using Cons.prems by (auto simp: w get_job_def split: option.splits)
    then show ?thesis by (rule Cons.IH)
  next
    case (Some job)
    then obtain run where run: "hm_get (dm_runs d) r = Some run" "hm_get (wr_jobs run) j = Some job"
      by (auto simp: get_job_def bind_eq_Some_conv)
    from Cons.prems run obtain name where "flush_transitions at ws
      (d\<lparr>dm_store := dm_store d @ [UpsertJob r job name],
         dm_events := dm_events d @ [job_event_new (wr_run_seq run) (ji_job_seq job) (ji_state job) at]\<rparr>) = Some d'"
      by (auto simp: w bind_eq_Some_conv)
    from Cons.IH [OF this] obtain us where us: "dm_store d' = dm_store d @ UpsertJob r job name # us"
      "\<forall>r job node. UpsertJob r job node \<in> set us \<longrightarrow> hm_get (dm_runs d) r \<noteq> None" by auto
    then show ?thesis using run(1) by (intro exI [of _ "UpsertJob r job name # us"]) auto
  qed
qed simp

text \<open>Every job of the list is among what a flush appends.\<close>

lemma flush_logs:
  assumes "flush_transitions at ws d = Some d'" "dm_store d' = dm_store d @ us" "(r, j) \<in> set ws" "get_job (dm_runs d) r j = Some job"
  shows "\<exists>node. UpsertJob r job node \<in> set us"
  using assms
proof (induction ws arbitrary: d us)
  case (Cons w ws)
  obtain r' j' where w: "w = (r', j')" by (cases w)
  show ?case
  proof (cases "get_job (dm_runs d) r' j'")
    case None
    then have "flush_transitions at ws d = Some d'" using Cons.prems by (auto simp: w get_job_def split: option.splits)
    then show ?thesis using Cons None by (auto simp: w)
  next
    case (Some job')
    then obtain run where run: "hm_get (dm_runs d) r' = Some run" "hm_get (wr_jobs run) j' = Some job'"
      by (auto simp: get_job_def bind_eq_Some_conv)
    from Cons.prems(1) run obtain name where rest: "flush_transitions at ws
      (d\<lparr>dm_store := dm_store d @ [UpsertJob r' job' name],
         dm_events := dm_events d @ [job_event_new (wr_run_seq run) (ji_job_seq job') (ji_state job') at]\<rparr>) = Some d'"
      by (auto simp: w bind_eq_Some_conv)
    obtain vs where vs: "dm_store d' = dm_store d @ UpsertJob r' job' name # vs" using flush_writes [OF rest] by auto
    then have us: "us = UpsertJob r' job' name # vs" using Cons.prems(2) by simp
    show ?thesis
    proof (cases "(r, j) = (r', j')")
      case True
      then show ?thesis using Some Cons.prems(4) us by auto
    next
      case False
      then show ?thesis using Cons.IH [OF rest, of vs] Cons.prems(3,4) vs us by (auto simp: w)
    qed
  qed
qed simp

text \<open>A phase that keeps the headers, and its flush, keep the rows covered and the nodes as they are.\<close>

lemma phase_covered:
  assumes "covered d (database cd st d)" "headers (dm_runs d1) = headers (dm_runs d)" "dm_store d1 = dm_store d"
    "flush_transitions at ws d1 = Some d'"
  shows "covered d' (database cd st d')"
proof -
  obtain us where us: "dm_store d' = dm_store d1 @ us"
    "\<forall>r job node. UpsertJob r job node \<in> set us \<longrightarrow> hm_get (dm_runs d1) r \<noteq> None" using flush_writes [OF assms(4)] by blast
  have "dm_runs d' = dm_runs d1" using flush_keeps [OF assms(4)] by simp
  then show ?thesis
    using covered_writes [OF assms(1), of d' us] us assms(3) headers_get_none [OF assms(2)] by auto
qed

section \<open>Jobs taken from two states\<close>

definition override_jobs :: "(string \<Rightarrow> string \<Rightarrow> job_instance) \<Rightarrow> runs \<Rightarrow> runs" where
  "override_jobs f rs = map (\<lambda>(r, run). (r, run\<lparr>wr_jobs := map (\<lambda>(j, _). (j, f r j)) (wr_jobs run)\<rparr>)) rs"

lemma override_headers:
  assumes "headers rs' = headers rs"
  shows "override_jobs f rs' = override_jobs f rs"
proof -
  have "override_jobs f rs = map (\<lambda>(r, run, specs). (r, run\<lparr>wr_jobs := map (\<lambda>(j, _). (j, f r j)) specs\<rparr>)) (headers rs)" for rs
    by (simp add: override_jobs_def headers_def header_def job_specs_def comp_def case_prod_beta')
  then show ?thesis using assms by simp
qed

lemma override_get:
  "hm_get (override_jobs f rs) r = map_option (\<lambda>run. run\<lparr>wr_jobs := map (\<lambda>(j, _). (j, f r j)) (wr_jobs run)\<rparr>) (hm_get rs r)"
  by (induction rs) (auto simp: override_jobs_def)

lemma override_get_jobs: "hm_get (map (\<lambda>(j, _). (j, f j)) js) j = map_option (\<lambda>_. f j) (hm_get js j)"
  by (induction js) auto

lemma override_job: "get_job (override_jobs f rs) r j = map_option (\<lambda>_. f r j) (get_job rs r j)"
  by (cases "hm_get rs r") (simp_all add: get_job_def override_get override_get_jobs)

lemma override_ok:
  assumes ok: "runs_ok P rs" and f: "\<And>r j job. get_job rs r j = Some job \<Longrightarrow> ji_job_id (f r j) = j \<and> P (f r j)"
  shows "runs_ok P (override_jobs f rs)"
  unfolding runs_ok_def
proof (intro conjI allI impI)
  have "map fst (override_jobs f rs) = map fst rs" by (simp add: override_jobs_def comp_def case_prod_beta')
  then show "hm_wf (override_jobs f rs)" using ok by (simp add: runs_ok_def hm_wf_def)
next
  fix r run' assume "hm_get (override_jobs f rs) r = Some run'"
  then obtain run where run: "hm_get rs r = Some run" "run' = run\<lparr>wr_jobs := map (\<lambda>(j, _). (j, f r j)) (wr_jobs run)\<rparr>"
    by (auto simp: override_get)
  then have js: "wr_run_id run = r" "jobs_ok P (wr_jobs run)" using ok by (auto simp: runs_ok_def)
  have "map fst (wr_jobs run') = map fst (wr_jobs run)" by (simp add: run(2) comp_def case_prod_beta')
  then have "hm_wf (wr_jobs run')" using js(2) by (simp add: jobs_ok_def hm_wf_def)
  moreover have "ji_job_id job' = j \<and> P job'" if "hm_get (wr_jobs run') j = Some job'" for j job'
    using that f [of r j] run by (auto simp: override_get_jobs get_job_def)
  ultimately show "jobs_ok P (wr_jobs run')" by (simp add: jobs_ok_def)
  show "wr_run_id run' = r" using js(1) run(2) by simp
qed

lemma override_keeps_headers:
  assumes ok: "runs_ok P rs" and f: "\<And>r j job. get_job rs r j = Some job \<Longrightarrow> ji_spec (f r j) = ji_spec job"
  shows "headers (override_jobs f rs) = headers rs"
proof -
  have "header (run\<lparr>wr_jobs := map (\<lambda>(j, _). (j, f r j)) (wr_jobs run)\<rparr>) = header run" if run: "(r, run) \<in> set rs" for r run
  proof -
    have "hm_get rs r = Some run" "jobs_ok P (wr_jobs run)" using runs_ok_run [OF ok run] by auto
    then have "ji_spec (f r j) = ji_spec job" if "(j, job) \<in> set (wr_jobs run)" for j job
      using f [of r j job] jobs_ok_job [OF _ that] by (auto simp: get_job_def)
    then show ?thesis by (auto simp: header_def job_specs_def)
  qed
  then show ?thesis by (auto simp: headers_def override_jobs_def)
qed

text \<open>What a job holds: here as much as there, or nothing.\<close>

definition holds_less :: "runs \<Rightarrow> runs \<Rightarrow> bool" where
  "holds_less rs rs' \<longleftrightarrow> (\<forall>r j job job'. get_job rs r j = Some job \<longrightarrow> get_job rs' r j = Some job' \<longrightarrow>
     ji_executions job = ji_executions job' \<or> ji_executions job = [])"

lemma sum_list_less:
  fixes f g :: "'a \<Rightarrow> 'b multiset"
  shows "(\<And>x. x \<in> set xs \<Longrightarrow> f x \<subseteq># g x) \<Longrightarrow> sum_list (map f xs) \<subseteq># sum_list (map g xs)"
  by (induction xs) (auto intro: subset_mset.add_mono)

lemma override_held:
  assumes ok: "runs_ok P rs" and less: "holds_less (override_jobs f rs) rs"
  shows "runs_held (override_jobs f rs) i \<subseteq># runs_held rs i"
proof -
  have "jobs_held (map (\<lambda>(j, _). (j, f r j)) (wr_jobs run)) i \<subseteq># jobs_held (wr_jobs run) i" if run: "(r, run) \<in> set rs" for r run
  proof -
    have in_run: "hm_get rs r = Some run" "jobs_ok P (wr_jobs run)" using runs_ok_run [OF ok run] by auto
    have "exec_held (ji_executions (f r j)) i \<subseteq># exec_held (ji_executions job) i" if "(j, job) \<in> set (wr_jobs run)" for j job
    proof -
      have "get_job rs r j = Some job" using jobs_ok_job [OF in_run(2) that] in_run(1) by (simp add: get_job_def)
      then have "ji_executions (f r j) = ji_executions job \<or> ji_executions (f r j) = []"
        using less by (auto simp: holds_less_def override_job)
      then show ?thesis by (auto simp: exec_held_def)
    qed
    then show ?thesis by (auto simp: jobs_held_def comp_def case_prod_beta' intro!: sum_list_less)
  qed
  then show ?thesis by (auto simp: runs_held_def override_jobs_def comp_def case_prod_beta' intro!: sum_list_less)
qed

lemma daemon_ok_runs: "daemon_ok R (d\<lparr>dm_runs := rs\<rparr>) \<longleftrightarrow> length (dm_pools d) = length (dm_nodes d)
    \<and> accounts (dm_pools d) (\<lambda>i. runs_held rs i + R i) \<and> runs_ok (job_ok (length (dm_nodes d))) rs"
  by (simp add: daemon_ok_def)

text \<open>A daemon stays in order when jobs hold less: what they held counts as held elsewhere.\<close>

lemma override_daemon_ok:
  assumes ok: "daemon_ok R d" and f: "\<And>r j job. get_job (dm_runs d) r j = Some job \<Longrightarrow> ji_job_id (f r j) = j
      \<and> job_ok (length (dm_nodes d)) (f r j)"
    and less: "holds_less (override_jobs f (dm_runs d)) (dm_runs d)"
  shows "\<exists>R'. daemon_ok R' (d\<lparr>dm_runs := override_jobs f (dm_runs d)\<rparr>)"
proof -
  let ?rs = "override_jobs f (dm_runs d)"
  have runs: "runs_ok (job_ok (length (dm_nodes d))) (dm_runs d)" using ok by (simp add: daemon_ok_def)
  have eq: "runs_held ?rs i + (runs_held (dm_runs d) i - runs_held ?rs i + R i) = runs_held (dm_runs d) i + R i" for i
    using override_held [OF runs less, of i] by (metis add.assoc subset_mset.add_diff_inverse)
  have "accounts (dm_pools d) (\<lambda>i. runs_held ?rs i + (runs_held (dm_runs d) i - runs_held ?rs i + R i))"
    unfolding eq using ok by (simp add: daemon_ok_def)
  moreover have "runs_ok (job_ok (length (dm_nodes d))) ?rs" by (rule override_ok [OF runs f])
  ultimately have "daemon_ok (\<lambda>i. runs_held (dm_runs d) i - runs_held ?rs i + R i) (d\<lparr>dm_runs := ?rs\<rparr>)"
    unfolding daemon_ok_runs using ok by (simp only: daemon_ok_def simp_thms)
  then show ?thesis by blast
qed

section \<open>A phase and its writes\<close>

text \<open>What each phase of the scheduler does to the daemon, with the jobs it is about to write.\<close>

definition changes :: "daemon \<Rightarrow> writes \<Rightarrow> daemon \<Rightarrow> bool" where
  "changes d ws d1 \<longleftrightarrow> unwritten_same (dm_runs d) ws (dm_runs d1) \<and> headers (dm_runs d1) = headers (dm_runs d)
     \<and> jobs_follow (dm_runs d) (dm_runs d1) \<and> dm_nodes d1 = dm_nodes d \<and> dm_store d1 = dm_store d
     \<and> map total (dm_pools d1) = map total (dm_pools d)
     \<and> (holds_less (dm_runs d) (dm_runs d1) \<or> holds_less (dm_runs d1) (dm_runs d))
     \<and> (\<exists>R. daemon_ok R d) \<and> (\<exists>R. daemon_ok R d1)"

text \<open>The daemon on record once the jobs of \<open>vs\<close> are written.\<close>

definition written_job :: "writes \<Rightarrow> daemon \<Rightarrow> daemon \<Rightarrow> string \<Rightarrow> string \<Rightarrow> job_instance" where
  "written_job vs d d1 r j = the (get_job (dm_runs (if (r, j) \<in> set vs then d1 else d)) r j)"

lemma changes_get:
  assumes "changes d ws d1" "get_job (dm_runs d) r j = Some job"
  obtains job1 where "get_job (dm_runs d1) r j = Some job1" "job_follows (dm_runs d) r job job1"
  using assms unfolding changes_def jobs_follow_def by blast

lemma written_job_cases:
  assumes "changes d ws d1" "get_job (dm_runs d) r j = Some job"
  obtains (later) job1 where "get_job (dm_runs d1) r j = Some job1" "job_follows (dm_runs d) r job job1"
      "written_job vs d d1 r j = job1" "(r, j) \<in> set vs"
  | (before) "written_job vs d d1 r j = job" "(r, j) \<notin> set vs"
proof (cases "(r, j) \<in> set vs")
  case True
  obtain job1 where "get_job (dm_runs d1) r j = Some job1" "job_follows (dm_runs d) r job job1" by (rule changes_get [OF assms])
  then show ?thesis using True by (intro later) (simp_all add: written_job_def)
qed (use assms(2) in \<open>simp add: written_job_def before\<close>)

lemma headers_specs:
  assumes "headers rs' = headers rs"
  shows "map_option ji_spec (get_job rs' r j) = map_option ji_spec (get_job rs r j)"
proof (cases "hm_get rs' r")
  case None
  then show ?thesis using headers_get_none [OF assms, of r] by (simp add: get_job_def)
next
  case (Some run')
  obtain run where run: "hm_get rs r = Some run" "header run = header run'" by (rule headers_get_run [OF assms Some])
  then have "map_option ji_spec (hm_get (wr_jobs run) j) = map_option ji_spec (hm_get (wr_jobs run') j)"
    by (metis header_def job_specs_get prod.inject)
  then show ?thesis using Some run(1) by (simp add: get_job_def)
qed

lemma half_written:
  assumes ch: "changes d ws d1"
  shows "\<exists>dh. changes d vs dh \<and> (\<forall>r j. (r, j) \<in> set vs \<longrightarrow> get_job (dm_runs dh) r j = get_job (dm_runs d1) r j)"
proof -
  let ?f = "written_job vs d d1" and ?n = "length (dm_nodes d)"
  let ?rs = "override_jobs ?f (dm_runs d)"
  have heads: "headers (dm_runs d1) = headers (dm_runs d)" and nodes: "dm_nodes d1 = dm_nodes d"
    and oks: "runs_ok (job_ok ?n) (dm_runs d)" "runs_ok (job_ok ?n) (dm_runs d1)"
    using ch by (auto simp: changes_def daemon_ok_def)
  have rs: "override_jobs ?f (dm_runs d1) = ?rs" by (rule override_headers [OF heads])
  have f: "ji_job_id (?f r j) = j \<and> job_ok ?n (?f r j) \<and> ji_spec (?f r j) = ji_spec job \<and> job_follows (dm_runs d) r job (?f r j)"
    if job: "get_job (dm_runs d) r j = Some job" for r j job
  proof (rule written_job_cases [OF ch job, of vs])
    fix job1 assume "get_job (dm_runs d1) r j = Some job1" "job_follows (dm_runs d) r job job1" "?f r j = job1"
    then show ?thesis using runs_ok_get [OF oks(2), of r j job1] by (simp add: job_follows_def)
  next
    assume "?f r j = job"
    then show ?thesis using runs_ok_get [OF oks(1) job] by (simp add: job_follows_refl)
  qed
  have none: "get_job (dm_runs d1) r j = None \<longleftrightarrow> get_job (dm_runs d) r j = None" for r j by (rule headers_no_job [OF heads])
  have heads': "headers ?rs = headers (dm_runs d)" by (rule override_keeps_headers [OF oks(1)]) (use f in blast)
  have follow: "jobs_follow (dm_runs d) ?rs"
    unfolding jobs_follow_def
  proof (intro conjI allI impI)
    fix r assume "dag_ok (dm_runs d) r"
    then show "dag_ok ?rs r" using dag_ok_specs [of ?rs r "dm_runs d"] headers_specs [OF heads'] by simp
  qed (use f in \<open>auto simp: override_job\<close>)
  have job1: "get_job (dm_runs d1) r j = Some job1 \<Longrightarrow> \<exists>job. get_job (dm_runs d) r j = Some job" for r j job1
    using none [of r j] by auto
  have there: "get_job (dm_runs d) r j = Some job \<Longrightarrow> \<exists>job1. get_job (dm_runs d1) r j = Some job1" for r j job
    using none [of r j] by auto
  have key: "get_job ?rs r j = get_job (dm_runs d1) r j" if "(r, j) \<in> set vs" for r j
    using that none [of r j] by (cases "get_job (dm_runs d1) r j") (auto simp: override_job written_job_def)
  have same: "unwritten_same (dm_runs d) vs ?rs"
  proof -
    have "map_option (\<lambda>_. the x) x = x" for x :: "job_instance option" by (cases x) simp_all
    then show ?thesis by (auto simp: unwritten_same_def override_job written_job_def)
  qed
  from ch have "holds_less (dm_runs d) (dm_runs d1) \<or> holds_less (dm_runs d1) (dm_runs d)" by (simp add: changes_def)
  then have "\<exists>dh. dm_runs dh = ?rs \<and> dm_nodes dh = dm_nodes d \<and> dm_store dh = dm_store d
      \<and> map total (dm_pools dh) = map total (dm_pools d) \<and> (\<exists>R. daemon_ok R dh)
      \<and> (holds_less (dm_runs d) ?rs \<or> holds_less ?rs (dm_runs d))"
  proof
    assume less: "holds_less (dm_runs d) (dm_runs d1)"
    then have "holds_less ?rs (dm_runs d1)" "holds_less (dm_runs d) ?rs"
      unfolding holds_less_def by (auto simp: override_job written_job_def dest: there split: if_splits) (use there in fastforce)
    moreover obtain R where "daemon_ok R d1" using ch by (auto simp: changes_def)
    moreover have "ji_job_id (?f r j) = j \<and> job_ok ?n (?f r j)" if "get_job (dm_runs d1) r j = Some job" for r j job
      using job1 [OF that] f by blast
    ultimately obtain R' where "daemon_ok R' (d1\<lparr>dm_runs := ?rs\<rparr>)"
      using override_daemon_ok [of R d1 ?f] nodes unfolding rs by metis
    then show ?thesis using ch nodes \<open>holds_less (dm_runs d) ?rs\<close>
      by (intro exI [of _ "d1\<lparr>dm_runs := ?rs\<rparr>"]) (auto simp: changes_def)
  next
    assume less: "holds_less (dm_runs d1) (dm_runs d)"
    then have hl: "holds_less ?rs (dm_runs d)"
      unfolding holds_less_def using there by (fastforce simp: override_job written_job_def split: if_splits)
    moreover obtain R where "daemon_ok R d" using ch by (auto simp: changes_def)
    ultimately obtain R' where "daemon_ok R' (d\<lparr>dm_runs := ?rs\<rparr>)"
      using override_daemon_ok [of R d ?f] f by metis
    then show ?thesis using hl by (intro exI [of _ "d\<lparr>dm_runs := ?rs\<rparr>"]) auto
  qed
  then obtain dh where "dm_runs dh = ?rs" "dm_nodes dh = dm_nodes d" "dm_store dh = dm_store d"
      "map total (dm_pools dh) = map total (dm_pools d)" "\<exists>R. daemon_ok R dh"
      "holds_less (dm_runs d) ?rs \<or> holds_less ?rs (dm_runs d)" by blast
  then show ?thesis using ch same heads' follow key by (intro exI [of _ dh]) (simp add: changes_def)
qed

lemma changes_nodes: "changes d ws d1 \<Longrightarrow> dm_nodes d1 = dm_nodes d" "changes d ws d1 \<Longrightarrow> dm_store d1 = dm_store d"
  by (simp_all add: changes_def)

text \<open>The first writes of a flush are a flush of the first jobs.\<close>

lemma flush_prefix:
  assumes "flush_transitions at ws d = Some d'" "length (dm_store d) \<le> k" "k \<le> length (dm_store d')"
  shows "\<exists>vs dv. set vs \<subseteq> set ws \<and> flush_transitions at vs d = Some dv \<and> dm_store dv = take k (dm_store d')"
  using assms
proof (induction ws arbitrary: d)
  case Nil
  then show ?case by (intro exI [of _ "[]"]) simp
next
  case (Cons w ws)
  obtain r j where w: "w = (r, j)" by (cases w)
  show ?case
  proof (cases "k = length (dm_store d)")
    case True
    obtain us where "dm_store d' = dm_store d @ us" using flush_writes [OF Cons.prems(1)] by blast
    then show ?thesis using True by (intro exI [of _ "[]"]) simp
  next
    case more: False
    show ?thesis
    proof (cases "get_job (dm_runs d) r j")
      case None
      then have "flush_transitions at ws d = Some d'" using Cons.prems(1) by (auto simp: w get_job_def split: option.splits)
      from Cons.IH [OF this Cons.prems(2,3)] show ?thesis by (meson set_subset_Cons subset_trans)
    next
      case (Some job)
      then obtain run where run: "hm_get (dm_runs d) r = Some run" "hm_get (wr_jobs run) j = Some job"
        by (auto simp: get_job_def bind_eq_Some_conv)
      from Cons.prems(1) run obtain name where name: "(case ji_executions job of [] \<Rightarrow> Some None
          | e # _ \<Rightarrow> map_option (\<lambda>n. Some (nd_name n)) (vec_get (dm_nodes d) (ex_node e))) = Some name"
        and rest: "flush_transitions at ws
          (d\<lparr>dm_store := dm_store d @ [UpsertJob r job name],
             dm_events := dm_events d @ [job_event_new (wr_run_seq run) (ji_job_seq job) (ji_state job) at]\<rparr>) = Some d'"
        by (auto simp: w bind_eq_Some_conv)
      from Cons.IH [OF rest _ Cons.prems(3)] more Cons.prems(2) obtain vs dv where vs: "set vs \<subseteq> set ws"
        "flush_transitions at vs (d\<lparr>dm_store := dm_store d @ [UpsertJob r job name],
             dm_events := dm_events d @ [job_event_new (wr_run_seq run) (ji_job_seq job) (ji_state job) at]\<rparr>) = Some dv"
        "dm_store dv = take k (dm_store d')" by auto
      have "flush_transitions at (w # vs) d = Some dv" using run name vs(2) by (simp add: w)
      then show ?thesis using vs(1,3) by (intro exI [of _ "w # vs"]) auto
    qed
  qed
qed

text \<open>What a flush writes depends on the jobs it is about and on the nodes.\<close>

lemma flush_same:
  assumes "flush_transitions at vs d = Some d'" "\<forall>(r, j) \<in> set vs. get_job (dm_runs e) r j = get_job (dm_runs d) r j"
    "dm_nodes e = dm_nodes d" "dm_store e = dm_store d"
  shows "\<exists>e'. flush_transitions at vs e = Some e' \<and> dm_store e' = dm_store d'"
  using assms
proof (induction vs arbitrary: d e)
  case (Cons w vs)
  obtain r j where w: "w = (r, j)" by (cases w)
  have same: "get_job (dm_runs e) r j = get_job (dm_runs d) r j" using Cons.prems(2) by (simp add: w)
  show ?case
  proof (cases "get_job (dm_runs d) r j")
    case None
    then have "flush_transitions at vs d = Some d'" "flush_transitions at (w # vs) e = flush_transitions at vs e"
      using Cons.prems(1) same by (auto simp: w get_job_def split: option.splits)
    then show ?thesis using Cons.IH [of d e] Cons.prems by simp
  next
    case (Some job)
    then obtain run run' where run: "hm_get (dm_runs d) r = Some run" "hm_get (wr_jobs run) j = Some job"
      "hm_get (dm_runs e) r = Some run'" "hm_get (wr_jobs run') j = Some job"
      using same by (auto simp: get_job_def bind_eq_Some_conv)
    from Cons.prems(1) run obtain name where name: "(case ji_executions job of [] \<Rightarrow> Some None
        | e # _ \<Rightarrow> map_option (\<lambda>n. Some (nd_name n)) (vec_get (dm_nodes d) (ex_node e))) = Some name"
      and rest: "flush_transitions at vs
        (d\<lparr>dm_store := dm_store d @ [UpsertJob r job name],
           dm_events := dm_events d @ [job_event_new (wr_run_seq run) (ji_job_seq job) (ji_state job) at]\<rparr>) = Some d'"
      by (auto simp: w bind_eq_Some_conv)
    let ?e = "e\<lparr>dm_store := dm_store e @ [UpsertJob r job name],
           dm_events := dm_events e @ [job_event_new (wr_run_seq run') (ji_job_seq job) (ji_state job) at]\<rparr>"
    from Cons.IH [OF rest, of ?e] Cons.prems obtain e' where "flush_transitions at vs ?e = Some e'" "dm_store e' = dm_store d'" by auto
    moreover have "flush_transitions at (w # vs) e = flush_transitions at vs ?e"
      using run(3,4) name [folded Cons.prems(3)] by (simp add: w)
    ultimately show ?thesis by simp
  qed
qed simp

section \<open>What can be taken back\<close>

definition durable :: "codecs \<Rightarrow> store \<Rightarrow> daemon \<Rightarrow> bool" where
  "durable cd st d \<longleftrightarrow> dep_inv (dm_runs d) \<and> (\<forall>r. dag_ok (dm_runs d) r) \<and> specs_ok (dm_runs d)
     \<and> current cd d {} (database cd st d) \<and> covered d (database cd st d) \<and> distinct (map nd_name (dm_nodes d))"

lemma changes_durable:
  assumes ch: "changes d ws d1" and dur: "durable cd st d" and fl: "flush_transitions at ws d1 = Some d'"
  shows "durable cd st d'"
proof -
  have ch': "unwritten_same (dm_runs d) ws (dm_runs d1)" "headers (dm_runs d1) = headers (dm_runs d)"
    "jobs_follow (dm_runs d) (dm_runs d1)" "dm_nodes d1 = dm_nodes d" "dm_store d1 = dm_store d"
    "runs_ok (job_ok (length (dm_nodes d))) (dm_runs d)" "runs_ok (job_ok (length (dm_nodes d1))) (dm_runs d1)"
    using ch by (auto simp: changes_def daemon_ok_def)
  have d: "dep_inv (dm_runs d)" "\<And>r. dag_ok (dm_runs d) r" "specs_ok (dm_runs d)" "current cd d {} (database cd st d)"
    "covered d (database cd st d)" "distinct (map nd_name (dm_nodes d))" using dur by (simp_all add: durable_def)
  have runs: "dm_runs d' = dm_runs d1" "dm_nodes d' = dm_nodes d1" using flush_keeps [OF fl] by simp_all
  have "dag_ok (dm_runs d1) r" for r using ch'(3) d(2) by (simp add: jobs_follow_def)
  moreover have "current cd d' {} (database cd st d')"
    by (rule phase_then_flush [OF d(4) ch'(1,2,4,5,6,7) fl])
  moreover have "covered d' (database cd st d')" by (rule phase_covered [OF d(5) ch'(2,5) fl])
  ultimately show ?thesis
    using dep_inv_step [OF d(1) ch'(3)] specs_ok_headers [OF ch'(2) d(3)] d(6) by (simp add: durable_def runs ch'(4))
qed

text \<open>
  \<open>later d0 d\<close>: \<open>d\<close> is the daemon \<open>d0\<close> some writes later. Every job it has is one of \<open>d0\<close>, moved on
  along the transitions, and is as \<open>d0\<close> had it unless it has been written since.
\<close>

definition later :: "daemon \<Rightarrow> daemon \<Rightarrow> bool" where
  "later d0 d \<longleftrightarrow> headers (dm_runs d) = headers (dm_runs d0) \<and> dm_nodes d = dm_nodes d0
     \<and> map total (dm_pools d) = map total (dm_pools d0) \<and> (\<exists>us. dm_store d = dm_store d0 @ us
       \<and> (\<forall>r j job. get_job (dm_runs d) r j = Some job \<longrightarrow> get_job (dm_runs d0) r j = Some job \<or> (\<exists>node. UpsertJob r job node \<in> set us)))
     \<and> (\<forall>r j job. get_job (dm_runs d0) r j = Some job \<longrightarrow>
         (\<exists>job'. get_job (dm_runs d) r j = Some job' \<and> (ji_state job, ji_state job') \<in> job_moves\<^sup>*))"

lemma later_refl: "later d d"
  by (auto simp: later_def)

lemma later_trans:
  assumes "later d0 d1" "later d1 d2"
  shows "later d0 d2"
proof -
  obtain us1 where 1: "dm_store d1 = dm_store d0 @ us1"
    "\<And>r j job. get_job (dm_runs d1) r j = Some job \<Longrightarrow> get_job (dm_runs d0) r j = Some job \<or> (\<exists>node. UpsertJob r job node \<in> set us1)"
    using assms(1) unfolding later_def by blast
  obtain us2 where 2: "dm_store d2 = dm_store d1 @ us2"
    "\<And>r j job. get_job (dm_runs d2) r j = Some job \<Longrightarrow> get_job (dm_runs d1) r j = Some job \<or> (\<exists>node. UpsertJob r job node \<in> set us2)"
    using assms(2) unfolding later_def by blast
  have "\<exists>us. dm_store d2 = dm_store d0 @ us
       \<and> (\<forall>r j job. get_job (dm_runs d2) r j = Some job \<longrightarrow> get_job (dm_runs d0) r j = Some job \<or> (\<exists>node. UpsertJob r job node \<in> set us))"
    using 1 2 by (intro exI [of _ "us1 @ us2"]) fastforce
  moreover have "\<exists>job'. get_job (dm_runs d2) r j = Some job' \<and> (ji_state job, ji_state job') \<in> job_moves\<^sup>*"
    if "get_job (dm_runs d0) r j = Some job" for r j job
    using that assms unfolding later_def by (meson rtrancl_trans)
  ultimately show ?thesis using assms unfolding later_def by simp
qed

lemma changes_later:
  assumes ch: "changes d ws d1" and fl: "flush_transitions at ws d1 = Some d'"
  shows "later d d'"
proof -
  have same: "dm_runs d' = dm_runs d1" "dm_nodes d' = dm_nodes d1" "dm_pools d' = dm_pools d1" using flush_keeps [OF fl] by simp_all
  obtain us where us: "dm_store d' = dm_store d1 @ us" using flush_writes [OF fl] by blast
  have "get_job (dm_runs d) r j = Some job \<or> (\<exists>node. UpsertJob r job node \<in> set us)"
    if "get_job (dm_runs d1) r j = Some job" for r j job
  proof (cases "(r, j) \<in> set ws")
    case True
    then show ?thesis using that flush_logs [OF fl us] by blast
  qed (use that ch in \<open>simp add: changes_def unwritten_same_def\<close>)
  moreover have "\<exists>job'. get_job (dm_runs d1) r j = Some job' \<and> (ji_state job, ji_state job') \<in> job_moves\<^sup>*"
    if "get_job (dm_runs d) r j = Some job" for r j job
    by (rule changes_get [OF ch that]) (auto simp: job_follows_def)
  ultimately show ?thesis using ch same us by (simp add: later_def changes_def)
qed

section \<open>The phases of a turn\<close>

lemma evolves_holds_less:
  assumes "evolves M K rs rs'" "runs_ok (job_ok n) rs" "\<forall>(st, st') \<in> M. st \<noteq> Running"
  shows "holds_less rs rs'"
  unfolding holds_less_def
proof (intro allI impI)
  fix r j job job' assume job: "get_job rs r j = Some job" "get_job rs' r j = Some job'"
  then have "job' = job \<or> ji_state job \<noteq> Running"
    using assms(1) [unfolded evolves_def, rule_format, of "(r, j)"] assms(3) by (auto split: if_splits)
  then show "ji_executions job = ji_executions job' \<or> ji_executions job = []"
    using runs_ok_get(2) [OF assms(2) job(1)] by (auto simp: job_ok_def)
qed

lemma entry_holds_less: "apply_entry now e d = Some (d', ws) \<Longrightarrow> holds_less (dm_runs d') (dm_runs d)"
  by (auto simp: apply_entry_def Let_def holds_less_def bind_eq_Some_conv get_job_modify end_job_def
    split: option.splits sum.splits executor_error.splits poll_result.splits if_splits)

lemma entries_hold_less: "apply_entries now es d = Some (d', ws) \<Longrightarrow> holds_less (dm_runs d') (dm_runs d)"
proof (induction es arbitrary: d ws)
  case (Cons e es)
  then obtain d1 ws1 ws2 where 1: "apply_entry now e d = Some (d1, ws1)" "apply_entries now es d1 = Some (d', ws2)"
    by (auto simp: bind_eq_Some_conv)
  have "get_job (dm_runs d1) r j = None \<longleftrightarrow> get_job (dm_runs d) r j = None" for r j
    using headers_no_job entry_keeps [OF 1(1)] by blast
  then show ?case using Cons.IH [OF 1(2)] entry_holds_less [OF 1(1)] unfolding holds_less_def by (metis not_None_eq)
qed (simp add: holds_less_def)

lemma outcome_total: "apply_outcome env now out d = Some (d', ws) \<Longrightarrow> map total (dm_pools d') = map total (dm_pools d)"
  by (auto simp: apply_outcome_def Let_def bind_eq_Some_conv dest!: total_release_executions
    split: option.splits sum.splits executor_error.splits)

lemma outcomes_total: "apply_outcomes env now outs d = Some (d', ws) \<Longrightarrow> map total (dm_pools d') = map total (dm_pools d)"
proof (induction outs arbitrary: d ws)
  case (Cons out outs)
  then show ?case by (fastforce simp: bind_eq_Some_conv dest!: outcome_total)
qed simp

lemma entry_total: "apply_entry now e d = Some (d', ws) \<Longrightarrow> map total (dm_pools d') = map total (dm_pools d)"
  by (auto simp: apply_entry_def Let_def bind_eq_Some_conv dest!: total_release_executions
    split: option.splits sum.splits executor_error.splits poll_result.splits)

lemma entries_total: "apply_entries now es d = Some (d', ws) \<Longrightarrow> map total (dm_pools d') = map total (dm_pools d)"
proof (induction es arbitrary: d ws)
  case (Cons e es)
  then show ?case by (fastforce simp: bind_eq_Some_conv dest!: entry_total)
qed simp

lemma pending_changes:
  assumes inv: "sys_inv env (idle d c)"
  shows "changes d (snd (advance_pending d)) (fst (advance_pending d))"
proof -
  from inv have ok: "daemon_ok (in_hand (idle d c)) d" by (simp add: sys_inv_def)
  then have runs: "runs_ok (job_ok (length (dm_nodes d))) (dm_runs d)" by (simp add: daemon_ok_def)
  have "unwritten_same (dm_runs d) (snd (advance_pending d)) (dm_runs (fst (advance_pending d)))"
    using sweep_unwritten [OF runs, of queue_job to_queue] by (simp add: advance_pending_def case_prod_beta' Let_def)
  moreover have "jobs_follow (dm_runs d) (dm_runs (fst (advance_pending d)))"
    using step_jobs [OF inv st_pending [of d _ _ env c]] by (metis prod.collapse system.select_convs(1))
  moreover have "holds_less (dm_runs d) (dm_runs (fst (advance_pending d)))"
    by (rule evolves_holds_less [OF advance_pending_evolves [OF runs] runs]) auto
  moreover note advance_pending_ok [OF ok] ok headers_advance_pending [of d]
  ultimately show ?thesis unfolding changes_def by (auto simp: advance_pending_fst)
qed

lemma skipped_changes:
  assumes inv: "sys_inv env (idle d c)"
  shows "changes d (snd (cascade_skipped now d)) (fst (cascade_skipped now d))"
proof -
  from inv have ok: "daemon_ok (in_hand (idle d c)) d" by (simp add: sys_inv_def)
  then have runs: "runs_ok (job_ok (length (dm_nodes d))) (dm_runs d)" by (simp add: daemon_ok_def)
  have "unwritten_same (dm_runs d) (snd (cascade_skipped now d)) (dm_runs (fst (cascade_skipped now d)))"
    using sweep_unwritten [OF runs, of "skip_job now" to_skip] by (simp add: cascade_skipped_def case_prod_beta' Let_def)
  moreover have "jobs_follow (dm_runs d) (dm_runs (fst (cascade_skipped now d)))"
    using step_jobs [OF inv st_skip [of now d _ _ env c]] by (metis prod.collapse system.select_convs(1))
  moreover have "holds_less (dm_runs d) (dm_runs (fst (cascade_skipped now d)))"
    by (rule evolves_holds_less [OF cascade_skipped_evolves [OF runs] runs]) auto
  moreover note cascade_skipped_ok [OF ok, of now] ok headers_cascade_skipped [of now d]
  ultimately show ?thesis unfolding changes_def by (auto simp: cascade_skipped_fst)
qed

lemma launched_changes:
  assumes inv: "sys_inv env \<lparr>sy_daemon = d, sy_checks = c, sy_phase = PhLaunched outs\<rparr>"
    and ap: "apply_outcomes env now outs d = Some (d1, ws)"
  shows "changes d ws d1"
proof -
  have ok: "daemon_ok (\<lambda>i. outcomes_held outs i + quals_held (gc_qualifying c) i) d"
    "distinct (map outcome_key outs)" "env_home env \<noteq> None"
    "\<forall>out \<in> set outs. in_state (dm_runs d) Queued (outcome_key out) \<and> launched_ok (length (dm_nodes d)) out"
    using inv by (simp_all add: sys_inv_simps phase_ok_def)
  then have runs: "runs_ok (job_ok (length (dm_nodes d))) (dm_runs d)" by (simp add: daemon_ok_def)
  from apply_outcomes_result [OF ok(1,2,4,3), of now] ap have
    d1: "daemon_ok (quals_held (gc_qualifying c)) d1" "dm_nodes d1 = dm_nodes d"
      "evolves launch_moves (outcome_key ` set outs) (dm_runs d) (dm_runs d1)" by auto
  have "jobs_follow (dm_runs d) (dm_runs d1)" using step_jobs [OF inv st_launched [OF ap]] by simp
  moreover have "holds_less (dm_runs d) (dm_runs d1)" by (rule evolves_holds_less [OF d1(3) runs]) auto
  moreover note apply_outcomes_unwritten [OF ap] outcomes_keep [OF ap] outcomes_total [OF ap]
  ultimately show ?thesis unfolding changes_def using d1 ok(1) by auto
qed

lemma polled_changes:
  assumes inv: "sys_inv env \<lparr>sy_daemon = d, sy_checks = c, sy_phase = PhPolled es\<rparr>"
    and ap: "apply_entries now es d = Some (d1, ws)"
  shows "changes d ws d1"
proof -
  have ok: "daemon_ok (\<lambda>i. quals_held (gc_qualifying c) i) d" "distinct (map entry_key es)"
    "\<forall>e \<in> set es. in_state (dm_runs d) Running (entry_key e)"
    using inv by (simp_all add: sys_inv_simps phase_ok_def)
  from apply_entries_result [OF ok, of now] ap have
    d1: "daemon_ok (quals_held (gc_qualifying c)) d1" "dm_nodes d1 = dm_nodes d" by auto
  have "jobs_follow (dm_runs d) (dm_runs d1)" using step_jobs [OF inv st_polled [OF ap]] by simp
  moreover note apply_entries_unwritten [OF ap] entries_keep [OF ap] entries_hold_less [OF ap] entries_total [OF ap]
  ultimately show ?thesis unfolding changes_def using d1 ok(1) by auto
qed

text \<open>
  From \<open>d0\<close> on, whatever point the writes have come to, the database is the record of a daemon in
  order that can be taken back.
\<close>

definition survivable :: "codecs \<Rightarrow> store \<Rightarrow> daemon \<Rightarrow> daemon \<Rightarrow> bool" where
  "survivable cd st d0 d \<longleftrightarrow> durable cd st d \<and> later d0 d
     \<and> (\<forall>k. length (dm_store d0) \<le> k \<and> k \<le> length (dm_store d) \<longrightarrow>
         (\<exists>dk. dm_store dk = take k (dm_store d) \<and> later d0 dk \<and> durable cd st dk \<and> (\<exists>R. daemon_ok R dk)))"

lemma survivable_start: "durable cd st d \<Longrightarrow> daemon_ok R d \<Longrightarrow> survivable cd st d d"
  using later_refl by (auto simp: survivable_def)

lemma changes_survivable:
  assumes ch: "changes d ws d1" and surv: "survivable cd st d0 d" and fl: "flush_transitions at ws d1 = Some d'"
  shows "survivable cd st d0 d'"
  unfolding survivable_def
proof (intro conjI allI impI)
  have dur: "durable cd st d" and lat: "later d0 d" using surv by (simp_all add: survivable_def)
  show "durable cd st d'" by (rule changes_durable [OF ch dur fl])
  show "later d0 d'" by (rule later_trans [OF lat changes_later [OF ch fl]])
  fix k assume k: "length (dm_store d0) \<le> k \<and> k \<le> length (dm_store d')"
  obtain us where us: "dm_store d' = dm_store d @ us" using flush_writes [OF fl] changes_nodes [OF ch] by fastforce
  show "\<exists>dk. dm_store dk = take k (dm_store d') \<and> later d0 dk \<and> durable cd st dk \<and> (\<exists>R. daemon_ok R dk)"
  proof (cases "k \<le> length (dm_store d)")
    case True
    then have "take k (dm_store d') = take k (dm_store d)" by (simp add: us)
    then show ?thesis using surv k True by (simp add: survivable_def)
  next
    case False
    then obtain vs dv where vs: "flush_transitions at vs d1 = Some dv" "dm_store dv = take k (dm_store d')"
      using flush_prefix [OF fl, of k] k changes_nodes [OF ch] by auto
    obtain dh where dh: "changes d vs dh" "\<forall>r j. (r, j) \<in> set vs \<longrightarrow> get_job (dm_runs dh) r j = get_job (dm_runs d1) r j"
      using half_written [OF ch] by blast
    then obtain dk where dk: "flush_transitions at vs dh = Some dk" "dm_store dk = dm_store dv"
      using flush_same [OF vs(1), of dh] changes_nodes [OF ch] changes_nodes [OF dh(1)] by auto
    obtain R where "daemon_ok R dh" using dh(1) by (auto simp: changes_def)
    then have "daemon_ok R dk" using flush_keeps [OF dk(1)] by (simp add: daemon_ok_def)
    then show ?thesis
      using changes_durable [OF dh(1) dur dk(1)] later_trans [OF lat changes_later [OF dh(1) dk(1)]] dk(2) vs(2) by auto
  qed
qed

lemma durable_pools: "durable cd st (d\<lparr>dm_pools := pools, dm_requalify := requalify\<rparr>) = durable cd st d"
  by (simp add: durable_def database_def covered_def current_def)

lemma later_pools: "later d0 d \<Longrightarrow> map total pools = map total (dm_pools d)
    \<Longrightarrow> later d0 (d\<lparr>dm_pools := pools, dm_requalify := requalify\<rparr>)"
  by (simp add: later_def)

interpretation crash_turn: kept_by_phases env "survivable cd st d0" for env cd st d0
proof unfold_locales
  fix d :: daemon and pools :: "resource_pool list" and requalify
  assume "survivable cd st d0 d" "map total pools = map total (dm_pools d)"
  then show "survivable cd st d0 (d\<lparr>dm_pools := pools, dm_requalify := requalify\<rparr>)"
    using durable_pools later_pools by (simp add: survivable_def)
qed (fact changes_survivable [OF pending_changes] changes_survivable [OF skipped_changes]
  | (rule changes_survivable [OF launched_changes], assumption+)
  | (rule changes_survivable [OF polled_changes], assumption+))+

end
