(* ===== verification/Worker.thy ===== *)
theory Worker
  imports Shell
begin

text \<open>
  A node's side of the worker operations (src/src/worker.rs): the executions it started or found
  again, by run and job. The machine's answers are arguments of each operation; what an operation
  does to the machine is returned beside the reply. \<open>None\<close> is the panic when HOME is not set.
\<close>

section \<open>The operations\<close>

record job_process =
  jp_handle :: job_handle
  jp_exit_code :: "i32 option"

type_synonym processes = "((string \<times> string) \<times> job_process) list"

text \<open>An exit already known is not asked for again.\<close>

definition process_exit_code :: "machine \<Rightarrow> job_process
    \<Rightarrow> (executor_error + i32 option) \<times> machine_effect list \<times> job_process" where
  "process_exit_code m p =
     (case jp_exit_code p of
        Some code \<Rightarrow> (Inr (Some code), [], p)
      | None \<Rightarrow> (case shell_poll m (jp_handle p) of
          (Inl e, fx) \<Rightarrow> (Inl e, fx, p)
        | (Inr (Exited code), fx) \<Rightarrow> (Inr (Some code), fx, p\<lparr>jp_exit_code := Some code\<rparr>)
        | (Inr StillRunning, fx) \<Rightarrow> (Inr None, fx, p)))"

definition worker_launch :: "environment \<Rightarrow> machine \<Rightarrow> launch_answers \<Rightarrow> string \<Rightarrow> job_spec \<Rightarrow> allocation \<Rightarrow> processes
    \<Rightarrow> (response \<times> child_command option \<times> processes) option" where
  "worker_launch env m fs run_id job allocation w =
     (let key = (run_id, js_id job) in
      case hm_get w key of
        Some existing \<Rightarrow> Some (Launched (host_pid (jp_handle existing)), None, w)
      | None \<Rightarrow> do {
          (result, child) \<leftarrow> shell_launch env m fs run_id (job_instance_new job 0) allocation;
          Some (case result of
            Inr handle \<Rightarrow> (Launched (host_pid handle), child, hm_insert key \<lparr>jp_handle = handle, jp_exit_code = None\<rparr> w)
          | Inl (Rejected reason) \<Rightarrow> (RejectedReply reason, child, w)
          | Inl e \<Rightarrow> (ErrorReply (''launch failed: '' @ executor_error_display e), child, w)) })"

text \<open>The execution of a key: one this daemon knows, or one found by its scope or exit file.\<close>

definition known :: "environment \<Rightarrow> machine \<Rightarrow> string \<times> string \<Rightarrow> processes \<Rightarrow> (job_process option \<times> processes) option" where
  "known env m key w =
     (case hm_get w key of
        Some p \<Rightarrow> Some (Some p, w)
      | None \<Rightarrow> do {
          found \<leftarrow> shell_find env m (fst key) (snd key);
          Some (case found of
            None \<Rightarrow> (None, w)
          | Some handle \<Rightarrow>
              let p = \<lparr>jp_handle = handle, jp_exit_code = None\<rparr> in (Some p, hm_insert key p w)) })"

definition worker_poll :: "environment \<Rightarrow> machine \<Rightarrow> string \<Rightarrow> string \<Rightarrow> processes
    \<Rightarrow> (response \<times> machine_effect list \<times> processes) option" where
  "worker_poll env m run_id job_id w = do {
     (process, w1) \<leftarrow> known env m (run_id, job_id) w;
     Some (case process of
       None \<Rightarrow> (ErrorReply ''unknown execution'', [], w1)
     | Some p \<Rightarrow>
         let (result, fx, p') = process_exit_code m p;
             w2 = hm_modify (run_id, job_id) (\<lambda>_. p') w1 in
         (case result of
            Inr code \<Rightarrow> (Polled code, fx, w2)
          | Inl e \<Rightarrow> (ErrorReply (''poll failed: '' @ executor_error_display e), fx, w2))) }"

definition worker_kill :: "environment \<Rightarrow> machine \<Rightarrow> string option \<Rightarrow> string \<Rightarrow> string \<Rightarrow> processes
    \<Rightarrow> (response \<times> machine_effect list \<times> processes) option" where
  "worker_kill env m term_error run_id job_id w = do {
     (process, w1) \<leftarrow> known env m (run_id, job_id) w;
     Some (case process of
       None \<Rightarrow> (ErrorReply ''unknown execution'', [], w1)
     | Some p \<Rightarrow>
         if jp_exit_code p \<noteq> None then (Killed, [], w1)
         else case shell_cancel term_error (jp_handle p) of
           (Inr _, fx) \<Rightarrow> (Killed, fx, w1)
         | (Inl e, fx) \<Rightarrow> (ErrorReply (''kill failed: '' @ executor_error_display e), fx, w1)) }"

definition worker_tail :: "environment \<Rightarrow> (string \<Rightarrow> string + string) \<Rightarrow> string \<Rightarrow> string \<Rightarrow> u64 \<Rightarrow> response option" where
  "worker_tail env content run_id job_id bytes = do {
     result \<leftarrow> shell_tail env content run_id job_id bytes;
     Some (case result of
       Inr t \<Rightarrow> Log t
     | Inl e \<Rightarrow> ErrorReply (executor_error_display e)) }"

text \<open>Counting asks every process; one that cannot be checked counts as running.\<close>

fun worker_running :: "machine \<Rightarrow> processes \<Rightarrow> nat \<times> machine_effect list \<times> processes" where
  "worker_running m [] = (0, [], [])"
| "worker_running m ((key, p) # ps) =
     (let (result, fx, p') = process_exit_code m p;
          (n, fx', ps') = worker_running m ps in
      ((case result of Inr (Some _) \<Rightarrow> n | _ \<Rightarrow> Suc n), fx @ fx', (key, p') # ps'))"

section \<open>A worker over time\<close>

text \<open>
  What the daemon is asked, each time with what the machine answers then. \<open>WRunning\<close> is the
  count for a report on this machine.
\<close>

datatype worker_request =
    WLaunch launch_answers string job_spec allocation
  | WPoll string string
  | WKill "string option" string string
  | WTail "string \<Rightarrow> string + string" string string u64
  | WRunning

datatype worker_reply = Reply response | RunningCount nat

definition worker_serve :: "environment \<Rightarrow> machine \<Rightarrow> worker_request \<Rightarrow> processes
    \<Rightarrow> (worker_reply \<times> child_command option \<times> processes) option" where
  "worker_serve env m req w =
     (case req of
        WLaunch fs run_id job allocation \<Rightarrow>
          map_option (\<lambda>(r, child, w'). (Reply r, child, w')) (worker_launch env m fs run_id job allocation w)
      | WPoll run_id job_id \<Rightarrow> map_option (\<lambda>(r, fx, w'). (Reply r, None, w')) (worker_poll env m run_id job_id w)
      | WKill term_error run_id job_id \<Rightarrow>
          map_option (\<lambda>(r, fx, w'). (Reply r, None, w')) (worker_kill env m term_error run_id job_id w)
      | WTail content run_id job_id bytes \<Rightarrow>
          map_option (\<lambda>r. (Reply r, None, w)) (worker_tail env content run_id job_id bytes)
      | WRunning \<Rightarrow> (let (n, fx, w') = worker_running m w in Some (RunningCount n, None, w')))"

fun worker_session :: "environment \<Rightarrow> (machine \<times> worker_request) list \<Rightarrow> processes
    \<Rightarrow> ((worker_reply \<times> child_command option) list \<times> processes) option" where
  "worker_session env [] w = Some ([], w)"
| "worker_session env ((m, req) # rest) w = do {
     (reply, child, w1) \<leftarrow> worker_serve env m req w;
     (replies, w2) \<leftarrow> worker_session env rest w1;
     Some ((reply, child) # replies, w2) }"

section \<open>What a worker remembers\<close>

text \<open>Executions are never forgotten, keep their handle, and an exit code once known stays.\<close>

definition remembers :: "processes \<Rightarrow> processes \<Rightarrow> bool" where
  "remembers w w' \<longleftrightarrow> (\<forall>key p. hm_get w key = Some p \<longrightarrow>
     (\<exists>p'. hm_get w' key = Some p' \<and> jp_handle p' = jp_handle p
        \<and> (jp_exit_code p \<noteq> None \<longrightarrow> jp_exit_code p' = jp_exit_code p)))"

lemma remembers_refl: "remembers w w"
  by (simp add: remembers_def)

lemma remembers_trans: "remembers u v \<Longrightarrow> remembers v w \<Longrightarrow> remembers u w"
  unfolding remembers_def by metis

lemma remembers_insert: "hm_get w key = None \<Longrightarrow> remembers w (hm_insert key p w)"
  by (auto simp: remembers_def hm_get_insert)

lemma process_exit_code_keeps:
  "process_exit_code m p = (result, fx, p') \<Longrightarrow>
   jp_handle p' = jp_handle p \<and> (jp_exit_code p \<noteq> None \<longrightarrow> p' = p \<and> result = Inr (jp_exit_code p))
   \<and> (\<forall>code. result = Inr (Some code) \<longrightarrow> jp_exit_code p' = Some code)"
  unfolding process_exit_code_def
  by (auto split: option.splits prod.splits sum.splits poll_result.splits)

lemma known_keeps:
  assumes "known env m key w = Some (process, w')"
  shows "remembers w w'" "\<And>p. process = Some p \<Longrightarrow> hm_get w' key = Some p"
  using assms remembers_refl remembers_insert [of w key]
  by (auto simp: known_def Let_def hm_get_insert split: option.splits bind_splits)

lemma worker_launch_keeps:
  assumes "worker_launch env m fs run_id job allocation w = Some (reply, child, w')"
  shows "remembers w w'"
    "reply = Launched pid \<Longrightarrow> \<exists>p. hm_get w' (run_id, js_id job) = Some p \<and> host_pid (jp_handle p) = pid"
  using assms remembers_refl remembers_insert [of w "(run_id, js_id job)"]
  by (auto simp: worker_launch_def Let_def hm_get_insert split: option.splits bind_splits sum.splits executor_error.splits)

lemma known_same: "hm_get w key = Some p \<Longrightarrow> known env m key w = Some (Some p, w)"
  by (simp add: known_def)

lemma remembers_modify:
  assumes "hm_get w key = Some p" "jp_handle p' = jp_handle p"
    and "jp_exit_code p \<noteq> None \<longrightarrow> jp_exit_code p' = jp_exit_code p"
  shows "remembers w (hm_modify key (\<lambda>_. p') w)"
  using assms by (auto simp: remembers_def)

lemma worker_poll_keeps:
  assumes "worker_poll env m run_id job_id w = Some (reply, fx, w')"
  shows "remembers w w'"
    "reply = Polled (Some code) \<Longrightarrow> \<exists>p. hm_get w' (run_id, job_id) = Some p \<and> jp_exit_code p = Some code"
    "hm_get w (run_id, job_id) = Some q \<Longrightarrow> jp_exit_code q = Some code \<Longrightarrow> reply = Polled (Some code)"
    "hm_get w (run_id, job_id) = Some q \<Longrightarrow> reply \<noteq> ErrorReply ''unknown execution''"
proof -
  let ?key = "(run_id, job_id)"
  obtain process w1 where k: "known env m ?key w = Some (process, w1)"
    using assms by (auto simp: worker_poll_def split: bind_splits)
  note kept = known_keeps [OF k]
  have all: "remembers w w' \<and> (reply = Polled (Some code) \<longrightarrow>
        (\<exists>p. hm_get w' ?key = Some p \<and> jp_exit_code p = Some code))
      \<and> (hm_get w ?key = Some q \<longrightarrow> jp_exit_code q = Some code \<longrightarrow> reply = Polled (Some code))
      \<and> (hm_get w ?key = Some q \<longrightarrow> reply \<noteq> ErrorReply ''unknown execution'')"
  proof (cases process)
    case None
    then have eq: "reply = ErrorReply ''unknown execution''" "w' = w1"
      using assms k by (simp_all add: worker_poll_def)
    have "hm_get w ?key \<noteq> Some q" using known_same [of w ?key q env m] k None by auto
    with eq kept(1) show ?thesis by simp
  next
    case (Some p)
    obtain result gx p' where x: "process_exit_code m p = (result, gx, p')" by (cases "process_exit_code m p") auto
    note px = process_exit_code_keeps [OF x]
    have w': "w' = hm_modify ?key (\<lambda>_. p') w1"
      and reply: "reply = (case result of Inr code \<Rightarrow> Polled code
        | Inl e \<Rightarrow> ErrorReply (''poll failed: '' @ executor_error_display e))"
      using assms k Some x by (auto simp: worker_poll_def Let_def split: sum.splits)
    have at: "hm_get w1 ?key = Some p" by (rule kept(2) [OF Some])
    have "remembers w1 w'" unfolding w' by (rule remembers_modify [OF at]) (use px in auto)
    then have r: "remembers w w'" by (rule remembers_trans [OF kept(1)])
    have "q = p" if "hm_get w ?key = Some q" using known_same [OF that, of env m] k Some by simp
    then show ?thesis
      using r px at unfolding w' reply by (auto split: sum.splits)
  qed
  show "remembers w w'" using all by blast
  show "reply = Polled (Some code) \<Longrightarrow> \<exists>p. hm_get w' ?key = Some p \<and> jp_exit_code p = Some code" using all by blast
  show "hm_get w ?key = Some q \<Longrightarrow> jp_exit_code q = Some code \<Longrightarrow> reply = Polled (Some code)" using all by blast
  show "hm_get w ?key = Some q \<Longrightarrow> reply \<noteq> ErrorReply ''unknown execution''" using all by blast
qed

lemma worker_kill_keeps:
  "worker_kill env m term_error run_id job_id w = Some (reply, fx, w') \<Longrightarrow> remembers w w'"
  using known_keeps(1) by (auto simp: worker_kill_def split: bind_splits option.splits if_splits prod.splits sum.splits)

lemma worker_running_keeps: "worker_running m w = (n, fx, w') \<Longrightarrow> remembers w w'"
proof (induction w arbitrary: n fx w')
  case (Cons kp ps)
  obtain key p where kp: "kp = (key, p)" by (cases kp)
  obtain result gx p' where x: "process_exit_code m p = (result, gx, p')" by (cases "process_exit_code m p") auto
  obtain n' hx ps' where y: "worker_running m ps = (n', hx, ps')" by (cases "worker_running m ps") auto
  have "w' = (key, p') # ps'" using Cons.prems kp x y by (simp add: Let_def)
  then show ?case
    using Cons.IH [OF y] process_exit_code_keeps [OF x] kp unfolding remembers_def by auto
qed (simp add: remembers_refl)

lemma worker_serve_keeps: "worker_serve env m req w = Some (reply, child, w') \<Longrightarrow> remembers w w'"
  using worker_launch_keeps(1) worker_poll_keeps(1) worker_kill_keeps worker_running_keeps remembers_refl
  by (cases req) (auto simp: worker_serve_def split: prod.splits)

lemma session_at:
  "worker_session env reqs w = Some (out, w') \<Longrightarrow> j < length reqs \<Longrightarrow>
   \<exists>u v. worker_serve env (fst (reqs ! j)) (snd (reqs ! j)) u = Some (fst (out ! j), snd (out ! j), v) \<and> remembers w u"
proof (induction reqs arbitrary: w out j)
  case (Cons a rest)
  obtain m req where a: "a = (m, req)" by (cases a)
  obtain reply child w1 out' where s: "worker_serve env m req w = Some (reply, child, w1)"
    and r: "worker_session env rest w1 = Some (out', w')" and out: "out = (reply, child) # out'"
    using Cons.prems(1) a by (auto split: bind_splits)
  show ?case
  proof (cases j)
    case 0
    then show ?thesis using s out a remembers_refl by auto
  next
    case (Suc i)
    then obtain u v where "worker_serve env (fst (rest ! i)) (snd (rest ! i)) u = Some (fst (out' ! i), snd (out' ! i), v)"
      and "remembers w1 u" using Cons.IH [OF r, of i] Cons.prems(2) by auto
    then show ?thesis using Suc out worker_serve_keeps [OF s] remembers_trans by auto
  qed
qed simp

lemma session_two:
  "worker_session env reqs w = Some (out, w') \<Longrightarrow> i < j \<Longrightarrow> j < length reqs \<Longrightarrow>
   \<exists>u v u' v'. worker_serve env (fst (reqs ! i)) (snd (reqs ! i)) u = Some (fst (out ! i), snd (out ! i), v)
     \<and> worker_serve env (fst (reqs ! j)) (snd (reqs ! j)) u' = Some (fst (out ! j), snd (out ! j), v') \<and> remembers v u'"
proof (induction reqs arbitrary: w out i j)
  case (Cons a rest)
  obtain m req where a: "a = (m, req)" by (cases a)
  obtain reply child w1 out' where s: "worker_serve env m req w = Some (reply, child, w1)"
    and r: "worker_session env rest w1 = Some (out', w')" and out: "out = (reply, child) # out'"
    using Cons.prems(1) a by (auto split: bind_splits)
  obtain j' where j: "j = Suc j'" using Cons.prems(2) by (cases j) auto
  show ?case
  proof (cases i)
    case 0
    obtain u v where "worker_serve env (fst (rest ! j')) (snd (rest ! j')) u = Some (fst (out' ! j'), snd (out' ! j'), v)"
      and "remembers w1 u" using session_at [OF r, of j'] Cons.prems(3) j by auto
    with s show ?thesis unfolding 0 j a out by (intro exI [of _ w] exI [of _ w1] exI [of _ u] exI [of _ v]) simp
  next
    case (Suc i')
    then show ?thesis using Cons.IH [OF r, of i' j'] Cons.prems(2,3) j out by simp
  qed
qed simp

section \<open>Properties\<close>

text \<open>
  C17: a worker starts a job once and keeps its answer. In any sequence of requests, with whatever
  the machine answers to each: once a launch of an execution was answered with a process, every
  later launch of it is answered with the same process and starts nothing, and every later poll
  knows it; and once a poll reported an exit code, every later poll reports that code.
\<close>

theorem worker_starts_once:
  assumes "worker_session env reqs w = Some (out, w')" "i < j" "j < length reqs"
  shows "(snd (reqs ! i) = WLaunch fs run_id job a \<and> fst (out ! i) = Reply (Launched pid)
       \<and> snd (reqs ! j) = WLaunch fs' run_id job' a' \<and> js_id job' = js_id job \<longrightarrow> out ! j = (Reply (Launched pid), None))
    \<and> (snd (reqs ! i) = WLaunch fs run_id job a \<and> fst (out ! i) = Reply (Launched pid)
       \<and> snd (reqs ! j) = WPoll run_id (js_id job) \<longrightarrow> fst (out ! j) \<noteq> Reply (ErrorReply ''unknown execution''))
    \<and> (snd (reqs ! i) = WPoll run_id job_id \<and> fst (out ! i) = Reply (Polled (Some code))
       \<and> snd (reqs ! j) = WPoll run_id job_id \<longrightarrow> fst (out ! j) = Reply (Polled (Some code)))"
proof -
  obtain u v u' v' where i: "worker_serve env (fst (reqs ! i)) (snd (reqs ! i)) u = Some (fst (out ! i), snd (out ! i), v)"
    and j: "worker_serve env (fst (reqs ! j)) (snd (reqs ! j)) u' = Some (fst (out ! j), snd (out ! j), v')"
    and r: "remembers v u'" using session_two [OF assms] by blast
  have launched: "\<exists>p. hm_get u' (run_id, js_id job) = Some p \<and> host_pid (jp_handle p) = pid"
    if l: "snd (reqs ! i) = WLaunch fs run_id job a" and ans: "fst (out ! i) = Reply (Launched pid)"
  proof -
    have "worker_launch env (fst (reqs ! i)) fs run_id job a u = Some (Launched pid, snd (out ! i), v)"
      using i l ans by (auto simp: worker_serve_def)
    from worker_launch_keeps(2) [OF this refl] show ?thesis using r unfolding remembers_def by metis
  qed
  have polled: "\<exists>p. hm_get u' (run_id, job_id) = Some p \<and> jp_exit_code p = Some code"
    if l: "snd (reqs ! i) = WPoll run_id job_id" and ans: "fst (out ! i) = Reply (Polled (Some code))"
  proof -
    obtain fx where "worker_poll env (fst (reqs ! i)) run_id job_id u = Some (Polled (Some code), fx, v)"
      using i l ans by (auto simp: worker_serve_def)
    from worker_poll_keeps(2) [OF this refl] show ?thesis using r unfolding remembers_def by (metis option.distinct(1))
  qed
  show ?thesis
  proof (intro conjI impI; elim conjE)
    assume l: "snd (reqs ! i) = WLaunch fs run_id job a" "fst (out ! i) = Reply (Launched pid)"
      and again: "snd (reqs ! j) = WLaunch fs' run_id job' a'" "js_id job' = js_id job"
    show "out ! j = (Reply (Launched pid), None)"
      using j launched [OF l] again by (cases "out ! j") (auto simp: worker_serve_def worker_launch_def)
  next
    assume l: "snd (reqs ! i) = WLaunch fs run_id job a" "fst (out ! i) = Reply (Launched pid)"
      and p: "snd (reqs ! j) = WPoll run_id (js_id job)"
    show "fst (out ! j) \<noteq> Reply (ErrorReply ''unknown execution'')"
      using j launched [OF l] p worker_poll_keeps(4) by (fastforce simp: worker_serve_def)
  next
    assume l: "snd (reqs ! i) = WPoll run_id job_id" "fst (out ! i) = Reply (Polled (Some code))"
      and p: "snd (reqs ! j) = WPoll run_id job_id"
    show "fst (out ! j) = Reply (Polled (Some code))"
      using j polled [OF l] p worker_poll_keeps(3) by (fastforce simp: worker_serve_def)
  qed
qed

definition demo_machine :: machine where
  "demo_machine = \<lparr>mc_scopes = False, mc_wait = (\<lambda>_. ChildExited 3), mc_read = (\<lambda>_. None), mc_exists = (\<lambda>_. False),
     mc_executable = (\<lambda>p. p = ''/bin/true''), mc_systemctl_show = (\<lambda>_. None), mc_current_dir = Some ''/'',
     mc_path = Some ''/usr/bin:/bin'', mc_current_exe = None\<rparr>"

definition demo_answers :: launch_answers where
  "demo_answers = \<lparr>la_create_dir = (\<lambda>_. None), la_open_log = (\<lambda>_. None), la_clone_log = None, la_spawn = (\<lambda>_. Inr 41)\<rparr>"

definition demo_task :: job_spec where
  "demo_task = \<lparr>js_id = ''j'', js_command = ''true'', js_depends_on = [], js_resources = resource_spec_default\<rparr>"

definition demo_worker_requests :: "(machine \<times> worker_request) list" where
  "demo_worker_requests =
     (let start = WLaunch demo_answers ''r'' demo_task \<lparr>al_cpu = 1, al_memory_mb = 512, al_gpus = []\<rparr> in
      [(demo_machine, start), (demo_machine, start), (demo_machine, WPoll ''r'' ''j''), (demo_machine, WPoll ''r'' ''j'')])"

definition demo_worker_env :: environment where
  "demo_worker_env = \<lparr>env_home = Some ''/home'', env_xdg_runtime_dir = None\<rparr>"

lemma demo_check: "check_program demo_machine ''true'' = Inr ()"
  by code_simp

lemma demo_launch:
  "worker_launch demo_worker_env demo_machine demo_answers ''r'' demo_task \<lparr>al_cpu = 1, al_memory_mb = 512, al_gpus = []\<rparr> []
   = Some (Launched 41, Some \<lparr>cc_program = ''sh'', cc_args = [''-c'', ''true''],
       cc_env = job_environment demo_machine \<lparr>al_cpu = 1, al_memory_mb = 512, al_gpus = []\<rparr>,
       cc_log = ''/home/.local/share/roster/runs/r/j.log''\<rparr>,
       [((''r'', ''j''), \<lparr>jp_handle = job_handle_process 41 None None, jp_exit_code = None\<rparr>)])"
  using demo_check
  by (simp add: worker_launch_def shell_launch_def shell_find_def demo_task_def job_instance_new_def demo_answers_def
      job_command_def demo_worker_env_def job_log_path_def in_home_def job_log_relpath_def path_join_def
      job_handle_process_def demo_machine_def Let_def)

lemma demo_poll:
  "worker_poll demo_worker_env demo_machine ''r'' ''j''
     [((''r'', ''j''), \<lparr>jp_handle = job_handle_process 41 None None, jp_exit_code = None\<rparr>)]
   = Some (Polled (Some 3), [], [((''r'', ''j''), \<lparr>jp_handle = job_handle_process 41 None None, jp_exit_code = Some 3\<rparr>)])"
  by (simp add: worker_poll_def known_def process_exit_code_def shell_poll_def job_handle_process_def
      handle_scope_def handle_exit_file_def poll_child_def demo_machine_def Let_def)

lemma demo_session:
  "\<exists>out w'. worker_session demo_worker_env demo_worker_requests [] = Some (out, w')
     \<and> fst (out ! 0) = Reply (Launched 41) \<and> fst (out ! 2) = Reply (Polled (Some 3))"
proof -
  let ?p = "\<lambda>c. [((''r'', ''j''), \<lparr>jp_handle = job_handle_process 41 None None, jp_exit_code = c\<rparr>)]"
  have again: "worker_launch demo_worker_env demo_machine demo_answers ''r'' demo_task \<lparr>al_cpu = 1, al_memory_mb = 512, al_gpus = []\<rparr> (?p None)
     = Some (Launched 41, None, ?p None)"
    by (simp add: worker_launch_def demo_task_def job_handle_process_def)
  have last_poll: "worker_poll demo_worker_env demo_machine ''r'' ''j'' (?p (Some 3)) = Some (Polled (Some 3), [], ?p (Some 3))"
    by (simp add: worker_poll_def known_def process_exit_code_def Let_def)
  show ?thesis
    by (simp add: demo_worker_requests_def Let_def worker_serve_def demo_launch again demo_poll last_poll)
qed

theorem worker_starts_once_witness:
  "\<exists>out w'. worker_session demo_worker_env demo_worker_requests [] = Some (out, w')
     \<and> out ! 1 = (Reply (Launched 41), None) \<and> fst (out ! 3) = Reply (Polled (Some 3))"
proof -
  obtain out w' where s: "worker_session demo_worker_env demo_worker_requests [] = Some (out, w')"
    and a: "fst (out ! 0) = Reply (Launched 41)" "fst (out ! 2) = Reply (Polled (Some 3))"
    using demo_session by blast
  have "out ! 1 = (Reply (Launched 41), None)"
    using worker_starts_once [OF s, of 0 1] a by (simp add: demo_worker_requests_def Let_def)
  moreover have "fst (out ! 3) = Reply (Polled (Some 3))"
    using worker_starts_once [OF s, of 2 3] a by (simp add: demo_worker_requests_def Let_def)
  ultimately show ?thesis using s by blast
qed

end
