(* ===== verification/Restarts.thy ===== *)
theory Restarts
  imports Crash Worker
begin

text \<open>
  The life of a daemon over any number of restarts: turns of the scheduler's loop, requests and
  restarts from the database, in any order, after a daemon that ended between two turns as after
  one that died in the middle of one. What holds of one start holds through all of them.
\<close>

section \<open>Turns, requests and restarts\<close>

text \<open>
  Between two turns: the daemon, its card checks, and the database its process began with. A new
  run has an id the database does not know. A restart reads the database as it is then; after a
  crash in a turn that is what the turn's first writes have made of it.
\<close>

definition written_until :: "codecs \<Rightarrow> store \<Rightarrow> nat \<Rightarrow> daemon \<Rightarrow> store" where
  "written_until cd st k d = fold (store_write_apply cd) (take k (dm_store d)) st"

definition readable_runs :: "codecs \<Rightarrow> daemon \<Rightarrow> bool" where
  "readable_runs cd d \<longleftrightarrow> (\<forall>(_, run) \<in> set (dm_runs d). readable_run cd run)"

text \<open>The jobs a turn from \<open>d\<close> to \<open>d'\<close> had written at its \<open>k\<close>-th write can be read back.\<close>

definition readable_writes :: "codecs \<Rightarrow> nat \<Rightarrow> daemon \<Rightarrow> daemon \<Rightarrow> bool" where
  "readable_writes cd k d d' \<longleftrightarrow> (\<forall>w \<in> set (drop (length (dm_store d)) (take k (dm_store d'))).
     case w of UpsertJob r job node \<Rightarrow> readable_job cd job | UpsertRun run \<Rightarrow> True)"

record life =
  lf_checks :: gpu_checks
  lf_daemon :: daemon
  lf_begun :: store

inductive life_step :: "environment \<Rightarrow> codecs \<Rightarrow> life \<Rightarrow> life \<Rightarrow> bool" for env cd where
  lf_turn: "scheduler_turn tick_no env now utc at launch poll tail run_id local (c, d) = Some (c', d') \<Longrightarrow>
     life_step env cd \<lparr>lf_checks = c, lf_daemon = d, lf_begun = st\<rparr> \<lparr>lf_checks = c', lf_daemon = d', lf_begun = st\<rparr>"
| lf_submit: "hm_get (dm_runs d) r = None \<Longrightarrow> well_formed spec \<Longrightarrow> misfit (dm_pools d) spec = None \<Longrightarrow>
     r \<notin> rr_run_id ` set (st_runs (database cd st d)) \<Longrightarrow> \<forall>row \<in> set (st_jobs (database cd st d)). jr_run_id (sj_row row) \<noteq> r \<Longrightarrow>
     life_step env cd \<lparr>lf_checks = c, lf_daemon = d, lf_begun = st\<rparr> \<lparr>lf_checks = c, lf_daemon = start_run r now spec d, lf_begun = st\<rparr>"
| lf_cancel: "handle_cancel r d = (reply, handles, d') \<Longrightarrow>
     life_step env cd \<lparr>lf_checks = c, lf_daemon = d, lf_begun = st\<rparr> \<lparr>lf_checks = c, lf_daemon = d', lf_begun = st\<rparr>"
| lf_nodes: "map nd_name ns = map nd_name (dm_nodes d) \<Longrightarrow> map nd_ssh ns = map nd_ssh (dm_nodes d) \<Longrightarrow>
     life_step env cd \<lparr>lf_checks = c, lf_daemon = d, lf_begun = st\<rparr> \<lparr>lf_checks = c, lf_daemon = d\<lparr>dm_nodes := ns\<rparr>, lf_begun = st\<rparr>"
| lf_restart: "fresh_daemon d d0 \<Longrightarrow> readable_runs cd d \<Longrightarrow>
     take_back_runs cd env m now d0 (database cd st d) = Some (d', st') \<Longrightarrow>
     life_step env cd \<lparr>lf_checks = c, lf_daemon = d, lf_begun = st\<rparr>
       \<lparr>lf_checks = gpu_checks_default, lf_daemon = d', lf_begun = st'\<rparr>"
| lf_crash: "scheduler_turn tick_no env now utc at launch poll tail run_id local (c, d) = Some (c', d') \<Longrightarrow>
     length (dm_store d) \<le> k \<Longrightarrow> k \<le> length (dm_store d') \<Longrightarrow> fresh_daemon d d0 \<Longrightarrow>
     readable_runs cd d \<Longrightarrow> readable_writes cd k d d' \<Longrightarrow>
     take_back_runs cd env m again d0 (written_until cd st k d') = Some (d'', st'') \<Longrightarrow>
     life_step env cd \<lparr>lf_checks = c, lf_daemon = d, lf_begun = st\<rparr>
       \<lparr>lf_checks = gpu_checks_default, lf_daemon = d'', lf_begun = st''\<rparr>"

definition life_init :: "environment \<Rightarrow> life \<Rightarrow> bool" where
  "life_init env s \<longleftrightarrow> initial env (idle (lf_daemon s) (lf_checks s)) \<and> store_ok (lf_begun s)
     \<and> (\<forall>row \<in> set (st_jobs (lf_begun s)). \<not> unfinished_row row) \<and> distinct (map nd_name (dm_nodes (lf_daemon s)))"

definition life_inv :: "environment \<Rightarrow> codecs \<Rightarrow> life \<Rightarrow> bool" where
  "life_inv env cd s \<longleftrightarrow> sys_inv env (idle (lf_daemon s) (lf_checks s)) \<and> durable cd (lf_begun s) (lf_daemon s)"

lemma life_inv_safe: "life_inv env cd s \<Longrightarrow> safe env (idle (lf_daemon s) (lf_checks s))"
  by (simp add: life_inv_def durable_def safe_def)

lemma covered_restartable:
  assumes "current cd d {} st" "covered d st" "readable_runs cd d" "distinct (map nd_name (dm_nodes d))"
  shows "restartable cd d st"
proof -
  have "sr_run_id sr \<in> fst ` set (dm_runs d)" if sr: "sr \<in> set (unfinished_runs st)" for sr
  proof -
    have "list_ex unfinished_row (jobs_of (sr_run_id sr) st)"
      using sr by (auto simp: unfinished_runs_def unfinished_row_def [abs_def])
    then obtain row where "row \<in> set (st_jobs st)" "jr_run_id (sj_row row) = sr_run_id sr" "unfinished_row row"
      by (auto simp: list_ex_iff jobs_of_def)
    then show ?thesis using assms(2) by (force simp: covered_def map_of_eq_None_iff)
  qed
  then show ?thesis using assms(1,3,4) by (auto simp: restartable_def readable_runs_def)
qed

lemma came_back_run:
  assumes "came_back env m now d d'" "hm_get (dm_runs d') r = Some run'"
  obtains run where "hm_get (dm_runs d) r = Some run" "restored env m now (dm_nodes d') r run run'" "unfinished (dm_runs d) r"
  using assms unfolding came_back_def by (metis option.distinct(1) option.inject)

lemma came_back_job:
  assumes "came_back env m now d d'" "hm_get (dm_runs d') r \<noteq> None"
  shows "case get_job (dm_runs d) r j of None \<Rightarrow> get_job (dm_runs d') r j = None
    | Some job \<Rightarrow> (\<exists>seq. get_job (dm_runs d') r j = Some (taken_back env m now (dm_nodes d') r job (job_instance_new (ji_spec job) seq)))"
proof -
  obtain run' where run': "hm_get (dm_runs d') r = Some run'" using assms(2) by blast
  obtain run where "hm_get (dm_runs d) r = Some run" "restored env m now (dm_nodes d') r run run'"
    using came_back_run [OF assms(1) run'] by metis
  then show ?thesis using run' by (auto simp: get_job_def restored_def dest!: spec [of _ j] split: option.splits)
qed

lemma came_back_state:
  assumes "came_back env m now d d'" "hm_get (dm_runs d') r \<noteq> None" "in_state (dm_runs d) st (r, j)" "st \<noteq> Running"
  shows "in_state (dm_runs d') st (r, j)"
proof -
  obtain job where "get_job (dm_runs d) r j = Some job" "ji_state job = st" using assms(3) by (auto simp: in_state_def)
  then show ?thesis using came_back_job [OF assms(1,2), of j] assms(4)
    by (auto simp: in_state_def taken_back_def Let_def)
qed

lemma came_back_dag: "came_back env m now d d' \<Longrightarrow> dag_ok (dm_runs d) r \<Longrightarrow> dag_ok (dm_runs d') r"
proof (cases "hm_get (dm_runs d') r")
  case None
  then have "run_deps (dm_runs d') r = {}" by (auto simp: run_deps_def get_job_def)
  then show ?thesis by (simp add: dag_ok_def acyclic_def)
next
  case (Some run')
  assume came: "came_back env m now d d'" and ok: "dag_ok (dm_runs d) r"
  have "map_option ji_spec (get_job (dm_runs d') r j) = map_option ji_spec (get_job (dm_runs d) r j)" for j
    using came_back_job [OF came, of r j] Some by (auto simp: job_instance_new_def split: option.splits)
  then show ?thesis using ok dag_ok_specs by blast
qed

lemma came_back_deps:
  assumes came: "came_back env m now d d'" and inv: "dep_inv (dm_runs d)"
  shows "dep_inv (dm_runs d')"
  unfolding dep_inv_def
proof (intro allI impI)
  fix r j job' assume job': "get_job (dm_runs d') r j = Some job'"
  then have r: "hm_get (dm_runs d') r \<noteq> None" by (auto simp: get_job_def bind_eq_Some_conv)
  obtain job seq where job: "get_job (dm_runs d) r j = Some job"
    "job' = taken_back env m now (dm_nodes d') r job (job_instance_new (ji_spec job) seq)"
    using came_back_job [OF came r, of j] job' by (auto split: option.splits)
  have spec: "ji_spec job' = ji_spec job" by (simp add: job(2) job_instance_new_def)
  have old: "ji_state job \<notin> {Pending, Skipped} \<longrightarrow> deps_done (dm_runs d) r job" "ji_state job = Skipped \<longrightarrow> dep_failed (dm_runs d) r job"
    using inv job(1) by (auto simp: dep_inv_def)
  have "ji_state job \<notin> {Pending, Skipped}" if "ji_state job' \<notin> {Pending, Skipped}"
    using that by (auto simp: job(2) taken_back_def Let_def split: if_splits)
  moreover have "deps_done (dm_runs d') r job'" if "deps_done (dm_runs d) r job"
    using that came_back_state [OF came r, of Succeeded] by (simp add: deps_done_def spec)
  moreover have "ji_state job = Skipped" if "ji_state job' = Skipped"
    using that by (auto simp: job(2) taken_back_def Let_def split: if_splits)
  moreover have "dep_failed (dm_runs d') r job'" if "dep_failed (dm_runs d) r job"
    using that came_back_state [OF came r] by (fastforce simp: dep_failed_def spec)
  ultimately show "(ji_state job' \<notin> {Pending, Skipped} \<longrightarrow> deps_done (dm_runs d') r job')
      \<and> (ji_state job' = Skipped \<longrightarrow> dep_failed (dm_runs d') r job')"
    using old by blast
qed

lemma came_back_specs:
  assumes came: "came_back env m now d d'" and specs: "specs_ok (dm_runs d)"
  shows "specs_ok (dm_runs d')"
  unfolding specs_ok_def
proof (intro allI impI)
  fix r run' assume "hm_get (dm_runs d') r = Some run'"
  then obtain run where run: "hm_get (dm_runs d) r = Some run" "restored env m now (dm_nodes d') r run run'"
    using came_back_run [OF came] by metis
  have "map_option ji_spec (hm_get (wr_jobs run') j) = map_option ji_spec (hm_get (wr_jobs run) j)" for j
    using run(2) by (auto simp: restored_def job_instance_new_def dest!: spec [of _ j] split: option.splits)
  then show "built_from_spec run'" using specs run by (simp add: specs_ok_def built_from_spec_def restored_def)
qed

lemma came_back_covered:
  assumes came: "came_back env m now d d'" and cur: "current cd d {} st" and ok: "runs_ok P (dm_runs d)" and cov: "covered d st"
  shows "covered d' (mark_rows cd now G st)"
  unfolding covered_def
proof (intro ballI impI)
  fix row assume "row \<in> set (st_jobs (mark_rows cd now G st))" and un: "unfinished_row row"
  then have row: "row \<in> set (st_jobs st)"
    by (auto simp: mark_rows_def interrupted_row_def unfinished_row_def split: if_splits)
  let ?r = "jr_run_id (sj_row row)"
  obtain run where run: "hm_get (dm_runs d) ?r = Some run" using cov row un by (auto simp: covered_def)
  obtain jl where jl: "jobs_of ?r st = map (saved_of cd (dm_nodes d) ?r) jl" "mset jl = mset (map snd (wr_jobs run))"
    using run_rows [OF cur ok run] by blast
  have "row \<in> set (jobs_of ?r st)" using row by (simp add: jobs_of_def)
  then obtain job where job: "job \<in> set jl" "row = saved_of cd (dm_nodes d) ?r job" using jl(1) by auto
  have "set jl = set (map snd (wr_jobs run))" using jl(2) by (metis set_mset_mset)
  then obtain j where "(j, job) \<in> set (wr_jobs run)" using job(1) by auto
  then have "get_job (dm_runs d) ?r j = Some job"
    using jobs_ok_job runs_ok_run [OF ok map_of_SomeD [OF run]] run by (fastforce simp: get_job_def)
  moreover have "sj_row row = row_of_job cd ?r job" using job(2) by (metis saved_of_def saved_job.select_convs(1))
  then have "ji_state job \<in> {Pending, Queued, Running}"
    using un finished_state [of cd ?r job] by (simp only: unfinished_row_def)
  ultimately have "unfinished (dm_runs d) ?r" unfolding unfinished_def by blast
  then show "hm_get (dm_runs d') ?r \<noteq> None" using spec [OF came [unfolded came_back_def], of ?r] by (auto split: if_splits)
qed

text \<open>A restart from the record of a daemon in order comes to its end, and leaves one in order again.\<close>

lemma restart_keeps:
  assumes home: "env_home env \<noteq> None" and ok: "daemon_ok R d" and dur: "durable cd st d"
    and fresh: "fresh_daemon d d0" and read: "readable_runs cd d"
  shows "\<exists>d' st'. take_back_runs cd env m now d0 (database cd st d) = Some (d', st') \<and> came_back env m now d d'
    \<and> accounts (dm_pools d') (runs_held (dm_runs d'))
    \<and> life_inv env cd \<lparr>lf_checks = gpu_checks_default, lf_daemon = d', lf_begun = st'\<rparr>"
proof -
  let ?db = "database cd st d"
  have deps: "dep_inv (dm_runs d)" "\<And>r. dag_ok (dm_runs d) r" and specs: "specs_ok (dm_runs d)" and cur: "current cd d {} ?db"
    and cov: "covered d ?db" and names: "distinct (map nd_name (dm_nodes d))"
    using dur by (simp_all add: durable_def)
  note re = covered_restartable [OF cur cov read names]
  from restart_takes_back [OF home ok specs re fresh, of m now] obtain d' G where
    d': "take_back_runs cd env m now d0 ?db = Some (d', mark_rows cd now G ?db)" "dm_nodes d' = dm_nodes d0" "dm_store d' = []"
      "daemon_ok (\<lambda>_. {#}) d'" "came_back env m now d d'" "current cd d' {} (mark_rows cd now G ?db)" by blast
  let ?st = "mark_rows cd now G ?db"
  have db: "database cd ?st d' = ?st" by (simp add: database_def d'(3))
  have "sys_inv env (idle d' gpu_checks_default)"
    using d'(4) home by (simp add: sys_inv_simps gpu_checks_default_def quals_held_def)
  moreover have "covered d' ?st" using came_back_covered [OF d'(5) cur _ cov] ok by (auto simp: daemon_ok_def)
  moreover have "distinct (map nd_name (dm_nodes d'))" using names fresh d'(2) by (simp add: fresh_daemon_def)
  ultimately have "life_inv env cd \<lparr>lf_checks = gpu_checks_default, lf_daemon = d', lf_begun = ?st\<rparr>"
    using came_back_deps [OF d'(5) deps(1)] came_back_dag [OF d'(5) deps(2)] came_back_specs [OF d'(5) specs] d'(6) db
    by (simp add: life_inv_def durable_def)
  then show ?thesis using d'(1,4,5) by (auto simp: daemon_ok_def)
qed

text \<open>A crash in a turn leaves such a record.\<close>

lemma later_readable:
  assumes lat: "later d dk" and store: "dm_store dk = take k (dm_store d')" and ok: "daemon_ok R d" "daemon_ok Q dk"
    and read: "readable_runs cd d" and writes: "readable_writes cd k d d'"
  shows "readable_runs cd dk"
  unfolding readable_runs_def
proof (intro ballI, clarify)
  fix r run' assume run': "(r, run') \<in> set (dm_runs dk)"
  have runs: "runs_ok (job_ok (length (dm_nodes d))) (dm_runs d)" "runs_ok (job_ok (length (dm_nodes dk))) (dm_runs dk)"
    using ok by (simp_all add: daemon_ok_def)
  have get': "hm_get (dm_runs dk) r = Some run'" "jobs_ok (job_ok (length (dm_nodes dk))) (wr_jobs run')"
    using runs_ok_run [OF runs(2) run'] by auto
  obtain us where us: "dm_store dk = dm_store d @ us" "\<And>j job. get_job (dm_runs dk) r j = Some job \<Longrightarrow>
      get_job (dm_runs d) r j = Some job \<or> (\<exists>node. UpsertJob r job node \<in> set us)"
    using lat unfolding later_def by blast
  obtain run where run: "hm_get (dm_runs d) r = Some run" "header run = header run'"
    using headers_get_run [OF _ get'(1)] lat unfolding later_def by blast
  have old: "readable_run cd run" using read map_of_SomeD [OF run(1)] by (auto simp: readable_runs_def)
  have "readable_job cd job" if "(j, job) \<in> set (wr_jobs run')" for j job
  proof -
    have "get_job (dm_runs dk) r j = Some job" using jobs_ok_job [OF get'(2) that] get'(1) by (simp add: get_job_def)
    from us(2) [OF this] show ?thesis
    proof
      assume "get_job (dm_runs d) r j = Some job"
      then have "(j, job) \<in> set (wr_jobs run)" using run(1) by (auto simp: get_job_def dest: map_of_SomeD)
      then show ?thesis using old by (auto simp: readable_run_def)
    next
      assume "\<exists>node. UpsertJob r job node \<in> set us"
      moreover have "us = drop (length (dm_store d)) (take k (dm_store d'))" using us(1) store by (metis append_eq_conv_conj)
      ultimately show ?thesis using writes by (fastforce simp: readable_writes_def)
    qed
  qed
  moreover have "wr_spec run' = wr_spec run" "wr_created_at run' = wr_created_at run"
    using run(2) by (cases run; cases run'; simp add: header_def)+
  ultimately show "readable_run cd run'" using old by (auto simp: readable_run_def)
qed

lemma crash_keeps:
  assumes inv: "life_inv env cd s"
    and turn: "scheduler_turn tick_no env now utc at launch poll tail run_id local (lf_checks s, lf_daemon s) = Some (c', d')"
    and k: "length (dm_store (lf_daemon s)) \<le> k" "k \<le> length (dm_store d')"
    and fresh: "fresh_daemon (lf_daemon s) d0" and read: "readable_runs cd (lf_daemon s)" "readable_writes cd k (lf_daemon s) d'"
  shows "\<exists>dk d'' st''. later (lf_daemon s) dk \<and> dm_store dk = take k (dm_store d') \<and> (\<exists>R. daemon_ok R dk) \<and> current cd dk {} (written_until cd (lf_begun s) k d')
    \<and> take_back_runs cd env m again d0 (written_until cd (lf_begun s) k d') = Some (d'', st'') \<and> came_back env m again dk d''
    \<and> accounts (dm_pools d'') (runs_held (dm_runs d''))
    \<and> life_inv env cd \<lparr>lf_checks = gpu_checks_default, lf_daemon = d'', lf_begun = st''\<rparr>"
proof -
  let ?d = "lf_daemon s" and ?c = "lf_checks s" and ?st = "lf_begun s"
  have sys: "sys_inv env (idle ?d ?c)" and dur: "durable cd ?st ?d" using inv by (simp_all add: life_inv_def)
  then have ok: "daemon_ok (in_hand (idle ?d ?c)) ?d" and home: "env_home env \<noteq> None" by (simp_all add: sys_inv_def)
  from crash_turn.turn_keeps [OF sys survivable_start [OF dur ok], of tick_no now utc at launch poll tail run_id local] turn
  have "survivable cd ?st ?d d'" by auto
  then obtain dk R where dk: "dm_store dk = take k (dm_store d')" "later ?d dk" "durable cd ?st dk" "daemon_ok R dk"
    using k unfolding survivable_def by blast
  have db: "database cd ?st dk = written_until cd (lf_begun s) k d'" by (simp add: database_def written_until_def dk(1))
  have "fresh_daemon dk d0" using fresh dk(2) by (simp add: fresh_daemon_def later_def)
  from restart_keeps [OF home dk(4,3) this later_readable [OF dk(2,1) ok dk(4) read], of m again] show ?thesis
    using dk unfolding db durable_def by blast
qed

lemma start_run_covered:
  assumes "covered d (database cd st d)"
  shows "covered (start_run r now spec d) (database cd st (start_run r now spec d))"
proof (rule covered_writes [OF assms])
  show "dm_store (start_run r now spec d) = dm_store d @ UpsertRun (workflow_run_new now r (dm_run_counter d) spec (dm_job_counter d))
      # map (\<lambda>(_, job). UpsertJob r job None) (wr_jobs (workflow_run_new now r (dm_run_counter d) spec (dm_job_counter d)))"
    by (simp add: start_run_def Let_def)
qed (auto simp: start_run_def Let_def hm_get_insert)

lemma life_inv_step:
  assumes inv: "life_inv env cd s" and step: "life_step env cd s t"
  shows "life_inv env cd t"
  using step
proof cases
  case (lf_turn tick_no now utc at launch poll tail run_id local c d c' d' st)
  have sys: "sys_inv env (idle d c)" and dur: "durable cd st d" using inv by (simp_all add: life_inv_def lf_turn(1))
  then have "daemon_ok (in_hand (idle d c)) d" by (simp add: sys_inv_def)
  from crash_turn.turn_keeps [OF sys survivable_start [OF dur this], of tick_no now utc at launch poll tail run_id local] lf_turn(3)
  show ?thesis by (auto simp: life_inv_def lf_turn(2) goes_def survivable_def)
next
  case (lf_submit d r spec st c now)
  let ?d = "start_run r now spec d"
  have sys: "sys_inv env (idle d c)" and dur: "durable cd st d" using inv by (simp_all add: life_inv_def lf_submit(1))
  have safe: "safe env (idle d c)" using sys dur by (simp add: safe_def durable_def)
  have "step env (idle d c) (idle ?d c)" using lf_submit by (intro st_submit) auto
  from safety.inv_step [OF safe this] have "safe env (idle ?d c)" .
  moreover have "current cd ?d {} (database cd st ?d)"
    by (rule start_run_current) (use lf_submit dur in \<open>auto simp: job_key_def durable_def\<close>)
  ultimately show ?thesis using start_run_covered start_run_specs dur
    by (simp add: life_inv_def lf_submit(2) durable_def safe_def)
next
  case (lf_cancel r d reply handles d' c st)
  have sys: "sys_inv env (idle d c)" and dur: "durable cd st d" using inv by (simp_all add: life_inv_def lf_cancel(1))
  have cur: "current cd d {} (database cd st d)" and cov: "covered d (database cd st d)" and specs: "specs_ok (dm_runs d)"
    and names: "distinct (map nd_name (dm_nodes d))" using dur by (simp_all add: durable_def)
  have safe: "safe env (idle d c)" using sys dur by (simp add: safe_def durable_def)
  have runs: "runs_ok (job_ok (length (dm_nodes d))) (dm_runs d)" using sys by (simp add: sys_inv_def daemon_ok_def)
  have step: "step env (idle d c) (idle d' c)" by (rule st_cancel [OF lf_cancel(3)])
  have d': "dm_store d' = dm_store d" "dm_nodes d' = dm_nodes d" "headers (dm_runs d') = headers (dm_runs d)"
    using lf_cancel(3) by (auto simp: handle_cancel_def split: option.splits)
  have "covered d' (database cd st d')"
    using covered_writes [OF cov, of d' "[]"] d' headers_get_none [OF d'(3)] by simp
  moreover have "current cd d' {} (database cd st d')"
    using cancel_current [OF cur lf_cancel(3) runs] by (simp add: database_def d'(1))
  ultimately show ?thesis using safety.inv_step [OF safe step] specs_ok_headers [OF d'(3) specs] names
    by (simp add: life_inv_def lf_cancel(2) d'(2) durable_def safe_def)
next
  case (lf_nodes ns d c st)
  let ?d = "d\<lparr>dm_nodes := ns\<rparr>"
  have sys: "sys_inv env (idle d c)" and dur: "durable cd st d" using inv by (simp_all add: life_inv_def lf_nodes(1))
  have cur: "current cd d {} (database cd st d)" using dur by (simp add: durable_def)
  have safe: "safe env (idle d c)" using sys dur by (simp add: safe_def durable_def)
  have runs: "runs_ok (job_ok (length (dm_nodes d))) (dm_runs d)" using sys by (simp add: sys_inv_def daemon_ok_def)
  have step: "step env (idle d c) (idle ?d c)" by (rule st_nodes [OF lf_nodes(3,4)])
  have "current cd ?d {} (database cd st d)"
    using current_change [OF cur, of "[]" ?d] runs lf_nodes(3) by (simp add: unwritten_same_def)
  then show ?thesis using safety.inv_step [OF safe step] dur lf_nodes(3)
    by (simp add: life_inv_def lf_nodes(2) database_def covered_def durable_def safe_def)
next
  case (lf_restart d d0 m now st d' st' c)
  have "daemon_ok (in_hand (idle d c)) d" "env_home env \<noteq> None" "durable cd st d"
    using inv by (simp_all add: life_inv_def sys_inv_def lf_restart(1))
  from restart_keeps [OF this(2,1,3) lf_restart(3,4), of m now] lf_restart(2,5) show ?thesis by auto
next
  case (lf_crash tick_no now utc at launch poll tail run_id local c d c' d' k d0 m again st d'' st'')
  have s: "lf_checks s = c" "lf_daemon s = d" "lf_begun s = st" by (simp_all add: lf_crash(1))
  from crash_keeps [OF inv, unfolded s, OF lf_crash(3-8), of m again] lf_crash(2,9) show ?thesis by auto
qed

interpretation lives: invariant_system "life_init env" "life_step env cd" "life_inv env cd" for env cd
proof unfold_locales
  fix s assume init: "life_init env s"
  then obtain r ns ps where d: "lf_daemon s = daemon_new r ns ps" by (auto simp: life_init_def initial_def)
  have "safe env (idle (lf_daemon s) (lf_checks s))" using init safety.inv_init by (simp add: life_init_def)
  then show "life_inv env cd s" using init
    by (simp add: life_inv_def life_init_def d daemon_new_def specs_ok_def current_def database_def covered_def get_job_def
      durable_def safe_def)
qed (rule life_inv_step)

section \<open>What survives\<close>

lemma current_holds:
  assumes cur: "current cd d {} st" and ok: "runs_ok P (dm_runs d)" and run: "hm_get (dm_runs d) r = Some run"
  shows "holds_run cd run st"
proof -
  have id: "wr_run_id run = r" using runs_ok_run [OF ok map_of_SomeD [OF run]] by simp
  obtain jl where jl: "jobs_of r st = map (saved_of cd (dm_nodes d) r) jl" "mset jl = mset (map snd (wr_jobs run))"
    using run_rows [OF cur ok run] by blast
  have "set jl = snd ` set (wr_jobs run)" using jl(2) by (metis set_map set_mset_mset)
  then have "sj_row ` set (jobs_of r st) = (\<lambda>(_, job). row_of_job cd r job) ` set (wr_jobs run)"
    by (simp add: jl(1) image_image case_prod_beta' saved_of_def)
  then show ?thesis using cur run id by (simp add: holds_run_def current_def)
qed

text \<open>
  C8: The database never falls behind the daemon, over any number of turns, requests and restarts:
  between two turns it has a record of every run the daemon has, with exactly one row for each of
  its jobs, holding the job's present state, results, node and allocation, so that a query for the
  run is answered with the status its jobs have now.
\<close>

theorem database_never_behind:
  assumes "reach (life_init env) (life_step env cd) s" and "db = database cd (lf_begun s) (lf_daemon s)"
    and "hm_get (dm_runs (lf_daemon s)) r = Some run"
  shows "record_of_run cd run \<in> set (st_runs db)
    \<and> (\<exists>jobs. mset jobs = mset (map snd (wr_jobs run)) \<and> jobs_of r db = map (saved_of cd (dm_nodes (lf_daemon s)) r) jobs)
    \<and> get_run r db = Some \<lparr>rw_run_id = r, rw_workflow_name = wr_workflow_name run,
        rw_status = run_state_as_str (run_status run), rw_created_at = cd_time cd (wr_created_at run)\<rparr>"
proof -
  have inv: "current cd (lf_daemon s) {} db" "runs_ok (job_ok (length (dm_nodes (lf_daemon s)))) (dm_runs (lf_daemon s))"
    using lives.inv_reach [OF assms(1)] by (simp_all add: life_inv_def durable_def assms(2) sys_inv_def daemon_ok_def)
  have id: "wr_run_id run = r" using runs_ok_run [OF inv(2) map_of_SomeD [OF assms(3)]] by simp
  have holds: "holds_run cd run db" by (rule current_holds [OF inv assms(3)])
  have ok: "store_ok db" using inv(1) by (simp add: current_def)
  have rec: "record_of_run cd run \<in> set (st_runs db)" using holds by (simp add: holds_run_def)
  have "derive_run_state (read_states r db) = run_status run"
    unfolding run_status_def using read_states_holds [OF holds] id by (subst (1 2) derive_run_state_set) simp
  then have "get_run r db = Some \<lparr>rw_run_id = r, rw_workflow_name = wr_workflow_name run,
        rw_status = run_state_as_str (run_status run), rw_created_at = cd_time cd (wr_created_at run)\<rparr>"
    using get_run_summary [OF ok rec] id by (simp add: record_of_run_def summary_of_def)
  then show ?thesis using rec run_rows [OF inv assms(3)] by blast
qed

definition demo_codecs :: codecs where
  "demo_codecs = \<lparr>cd_time = dec_int, cd_parse_time = parse_i32, cd_spec = ws_name,
     cd_parse_spec = (\<lambda>name. if name = ws_name diamond then Some diamond else None),
     cd_allocation = (\<lambda>_. ''a''), cd_parse_allocation = (\<lambda>_. None)\<rparr>"

definition demo_life :: life where
  "demo_life = \<lparr>lf_checks = gpu_checks_default, lf_daemon = demo_submitted, lf_begun = \<lparr>st_runs = [], st_jobs = []\<rparr>\<rparr>"

lemma demo_life_reach: "reach (life_init demo_env) (life_step demo_env demo_codecs) demo_life"
proof -
  let ?s = "\<lparr>lf_checks = gpu_checks_default, lf_daemon = demo_daemon, lf_begun = \<lparr>st_runs = [], st_jobs = []\<rparr>\<rparr>"
  have "\<forall>p \<in> set [pool_new demo_resources]. ledger p {#}" using ledger_new [OF demo_dense] by simp
  then have "initial demo_env (idle demo_daemon gpu_checks_default)"
    unfolding initial_def demo_daemon_def
    by (intro conjI exI [of _ demo_resources] exI [of _ "[demo_node]"] exI [of _ "[pool_new demo_resources]"])
      (simp_all add: demo_env_def)
  then have "life_init demo_env ?s" by (simp add: life_init_def store_ok_def demo_daemon_def daemon_new_def)
  moreover have "misfit (dm_pools demo_daemon) diamond = None" by code_simp
  then have "life_step demo_env demo_codecs ?s demo_life"
    unfolding demo_life_def demo_submitted_def
    by (intro lf_submit diamond_well_formed) (simp_all add: demo_daemon_def daemon_new_def database_def)
  ultimately show ?thesis by (blast intro: reach_init reach_step)
qed

lemma demo_life_run: "hm_get (dm_runs (lf_daemon demo_life)) ''r1'' = Some (workflow_run_new 0 ''r1'' 0 diamond 0)"
  by (simp add: demo_life_def demo_submitted_def demo_daemon_def start_run_def daemon_new_def Let_def)

theorem database_never_behind_witness:
  "map_option rw_status (get_run ''r1'' (database demo_codecs (lf_begun demo_life) (lf_daemon demo_life))) = Some ''Pending''"
proof -
  have "run_state_as_str (run_status (workflow_run_new 0 ''r1'' 0 diamond 0)) = ''Pending''" by code_simp
  then show ?thesis using database_never_behind [OF demo_life_reach refl demo_life_run] by simp
qed

text \<open>
  C6: Runs survive a restart, however many there were before: from the database of a daemon that
  stopped between two turns, a daemon with the same node names and inventories takes back exactly
  the runs with a job that had not ended, without a panic. Each job comes back with its spec, state
  and results; a running job is running again with the same node and allocation when it can be
  found, else it is interrupted. The new daemon's pools account for exactly what the jobs taken
  back hold, its dependencies are in order, and its state is again one of those the theorems here speak of.
\<close>

theorem runs_survive_restarts:
  assumes "reach (life_init env) (life_step env cd) s" and "fresh_daemon (lf_daemon s) d0" and "readable_runs cd (lf_daemon s)"
  shows "\<exists>d' st'. take_back_runs cd env m now d0 (database cd (lf_begun s) (lf_daemon s)) = Some (d', st')
    \<and> came_back env m now (lf_daemon s) d'
    \<and> accounts (dm_pools d') (runs_held (dm_runs d')) \<and> safe env (idle d' gpu_checks_default)
    \<and> reach (life_init env) (life_step env cd) \<lparr>lf_checks = gpu_checks_default, lf_daemon = d', lf_begun = st'\<rparr>"
proof -
  have "daemon_ok (in_hand (idle (lf_daemon s) (lf_checks s))) (lf_daemon s)" "env_home env \<noteq> None" "durable cd (lf_begun s) (lf_daemon s)"
    using lives.inv_reach [OF assms(1)] by (simp_all add: life_inv_def sys_inv_def)
  from restart_keeps [OF this(2,1,3) assms(2,3), of m now] obtain d' st' where
    d': "take_back_runs cd env m now d0 (database cd (lf_begun s) (lf_daemon s)) = Some (d', st')"
      "came_back env m now (lf_daemon s) d'" "accounts (dm_pools d') (runs_held (dm_runs d'))"
      "life_inv env cd \<lparr>lf_checks = gpu_checks_default, lf_daemon = d', lf_begun = st'\<rparr>" by blast
  have "life_step env cd s \<lparr>lf_checks = gpu_checks_default, lf_daemon = d', lf_begun = st'\<rparr>"
    using lf_restart [OF assms(2,3) d'(1), of "lf_checks s"] by (cases s) simp
  then have "reach (life_init env) (life_step env cd) \<lparr>lf_checks = gpu_checks_default, lf_daemon = d', lf_begun = st'\<rparr>"
    by (rule reach_step [OF assms(1)])
  then show ?thesis using d' life_inv_safe [OF d'(4)] by auto
qed

theorem runs_survive_restarts_witness:
  "\<exists>d' st' job. take_back_runs demo_codecs demo_env demo_machine 5 demo_daemon (database demo_codecs (lf_begun demo_life) demo_submitted)
      = Some (d', st')
    \<and> get_job (dm_runs d') ''r1'' ''root'' = Some job \<and> ji_state job = Pending \<and> ji_spec job = mk_job ''root'' []"
proof -
  have fresh: "fresh_daemon (lf_daemon demo_life) demo_daemon"
    using ledger_new [OF demo_dense]
    by (simp add: fresh_daemon_def demo_life_def demo_submitted_def start_run_def Let_def demo_daemon_def daemon_new_def)
  have jobs: "\<forall>(_, job) \<in> set (wr_jobs (workflow_run_new 0 ''r1'' 0 diamond 0)). readable_job demo_codecs job"
    by (simp add: workflow_run_new_def, rule collect_jobs_all) (simp_all add: readable_job_def job_instance_new_def)
  have time: "parse_i32 (dec_int 0) = Some 0" by code_simp
  have "dm_runs (lf_daemon demo_life) = [(''r1'', workflow_run_new 0 ''r1'' 0 diamond 0)]"
    by (simp add: demo_life_def demo_submitted_def demo_daemon_def start_run_def daemon_new_def Let_def)
  then have read: "readable_runs demo_codecs (lf_daemon demo_life)"
    using jobs time by (simp add: readable_runs_def readable_run_def workflow_run_new_def demo_codecs_def)
  from runs_survive_restarts [OF demo_life_reach fresh read, of demo_machine 5] obtain d' st' where
    d': "take_back_runs demo_codecs demo_env demo_machine 5 demo_daemon
        (database demo_codecs (lf_begun demo_life) (lf_daemon demo_life)) = Some (d', st')"
      "came_back demo_env demo_machine 5 (lf_daemon demo_life) d'" by blast
  have job: "get_job (dm_runs (lf_daemon demo_life)) ''r1'' ''root'' = Some (job_instance_new (mk_job ''root'' []) 0)"
    using demo_job by (simp add: demo_life_def)
  then have "unfinished (dm_runs (lf_daemon demo_life)) ''r1''" by (force simp: unfinished_def job_instance_new_def)
  then have "hm_get (dm_runs d') ''r1'' \<noteq> None" using spec [OF d'(2) [unfolded came_back_def], of "''r1''"] by (auto split: if_splits)
  from came_back_job [OF d'(2) this, of "''root''"] job obtain seq where
    "get_job (dm_runs d') ''r1'' ''root'' = Some (taken_back demo_env demo_machine 5 (dm_nodes d') ''r1''
      (job_instance_new (mk_job ''root'' []) 0) (job_instance_new (mk_job ''root'' []) seq))"
    by (auto simp: job_instance_new_def)
  moreover have "lf_daemon demo_life = demo_submitted" by (simp add: demo_life_def)
  ultimately show ?thesis using d'(1) by (auto simp: taken_back_def job_instance_new_def Let_def)
qed

end
