(* ===== verification/Instance.thy ===== *)
theory Instance
  imports Restarts
begin

text \<open>
  One daemon per user (src/src/daemon/mod.rs, src/src/error.rs): the pid file and its lock, the
  socket, and what a daemon does with them from its start to its end. A process is named by its
  pid; a file is a link to an inode, which lives on while a process has it open.
\<close>

section \<open>Errors\<close>

datatype roster_error = AlreadyRunning u32 | NotRunning | IoError string | SerdeError string

definition roster_error_display :: "roster_error \<Rightarrow> string" where
  "roster_error_display e =
     (case e of
        AlreadyRunning pid \<Rightarrow> ''daemon is already running (pid '' @ dec (unat pid) @ '')''
      | NotRunning \<Rightarrow> ''daemon is not running''
      | IoError text' \<Rightarrow> ''io error: '' @ text'
      | SerdeError text' \<Rightarrow> ''serialization error: '' @ text')"

section \<open>The pid file and the socket\<close>

text \<open>
  \<open>ho_pid\<close> is the inode the path of the pid file leads to, \<open>ho_socket\<close> the process that bound the
  socket file, which stays when the process dies. \<open>ho_lock\<close> is the holder of the lock of an inode.
\<close>

record host =
  ho_pid :: "nat option"
  ho_text :: "nat \<Rightarrow> string"
  ho_lock :: "nat \<Rightarrow> u32 option"
  ho_socket :: "u32 option"
  ho_next :: nat

definition open_pid_file :: "host \<Rightarrow> nat \<times> host" where
  "open_pid_file h =
     (case ho_pid h of
        Some i \<Rightarrow> (i, h)
      | None \<Rightarrow> (ho_next h, h\<lparr>ho_pid := Some (ho_next h), ho_text := (ho_text h)(ho_next h := []), ho_next := Suc (ho_next h)\<rparr>))"

text \<open>The pid a refused start reports is read through the path.\<close>

definition running_pid :: "host \<Rightarrow> u32" where
  "running_pid h =
     (case ho_pid h of
        None \<Rightarrow> 0
      | Some i \<Rightarrow> (case parse_uint 32 (trim (ho_text h i)) of Some n \<Rightarrow> of_nat n | None \<Rightarrow> 0))"

definition flock :: "u32 \<Rightarrow> nat \<Rightarrow> host \<Rightarrow> (roster_error + unit) \<times> host" where
  "flock p i h =
     (if ho_lock h i = None
      then (Inr (), h\<lparr>ho_lock := (ho_lock h)(i := Some p)\<rparr>)
      else (Inl (AlreadyRunning (running_pid h)), h))"

definition truncate_pid_file :: "nat \<Rightarrow> host \<Rightarrow> host" where
  "truncate_pid_file i h = h\<lparr>ho_text := (ho_text h)(i := [])\<rparr>"

definition write_pid :: "u32 \<Rightarrow> nat \<Rightarrow> host \<Rightarrow> host" where
  "write_pid p i h = h\<lparr>ho_text := (ho_text h)(i := ho_text h i @ dec (unat p))\<rparr>"

definition lock_pid_file :: "u32 \<Rightarrow> host \<Rightarrow> (roster_error + nat) \<times> host" where
  "lock_pid_file p h =
     (let (i, h1) = open_pid_file h; (result, h2) = flock p i h1 in
      case result of Inl e \<Rightarrow> (Inl e, h2) | Inr _ \<Rightarrow> (Inr i, write_pid p i (truncate_pid_file i h2)))"

definition cleanup_stale_socket :: "host \<Rightarrow> host" where
  "cleanup_stale_socket h = h\<lparr>ho_socket := None\<rparr>"

definition remove_pid_file :: "host \<Rightarrow> host" where
  "remove_pid_file h = h\<lparr>ho_pid := None\<rparr>"

definition remove_socket :: "host \<Rightarrow> host" where
  "remove_socket h = h\<lparr>ho_socket := None\<rparr>"

definition cleanup :: "host \<Rightarrow> host" where
  "cleanup h = remove_socket (remove_pid_file h)"

text \<open>\<open>bind\<close> fails when the path exists.\<close>

definition bind_socket :: "u32 \<Rightarrow> host \<Rightarrow> host option" where
  "bind_socket p h = (if ho_socket h = None then Some (h\<lparr>ho_socket := Some p\<rparr>) else None)"

text \<open>The end of a process: the kernel drops its locks.\<close>

definition drop_locks :: "u32 \<Rightarrow> host \<Rightarrow> host" where
  "drop_locks p h = h\<lparr>ho_lock := (\<lambda>i. if ho_lock h i = Some p then None else ho_lock h i)\<rparr>"

section \<open>The daemon's run\<close>

text \<open>
  What reaches the listening loop, and how many connections it takes: failures to accept are
  logged, and a signal ends the loop. \<open>None\<close> is a loop that has not ended yet.
\<close>

datatype listen_event = ConnAccepted | AcceptFailed | Sigterm | Sigint

fun listen_loop :: "listen_event list \<Rightarrow> nat \<Rightarrow> nat option" where
  "listen_loop [] served = None"
| "listen_loop (e # es) served =
     (case e of
        ConnAccepted \<Rightarrow> listen_loop es (Suc served)
      | AcceptFailed \<Rightarrow> listen_loop es served
      | Sigterm \<Rightarrow> Some served
      | Sigint \<Rightarrow> Some served)"

text \<open>Errors are their texts, as the caller prints them.\<close>

definition daemon_listen :: "u32 \<Rightarrow> string option \<Rightarrow> listen_event list \<Rightarrow> host \<Rightarrow> (string + nat option) \<times> host" where
  "daemon_listen p create_dir_error es h =
     (case create_dir_error of
        Some e \<Rightarrow> (Inl e, h)
      | None \<Rightarrow> (case bind_socket p h of
          None \<Rightarrow> (Inl ''Address already in use (os error 98)'', h)
        | Some h' \<Rightarrow> (Inr (listen_loop es 0), h')))"

text \<open>
  The whole run; the second result is the systemctl call that caps the jobs' memory, where one is
  made. A database that cannot be opened or read ends the run before the cleanup; the lock goes
  with the process. \<open>None\<close> is a panic while taking runs back.
\<close>

definition daemon_run :: "codecs \<Rightarrow> environment \<Rightarrow> machine \<Rightarrow> datetime \<Rightarrow> u32 \<Rightarrow> system_resources \<Rightarrow> node list \<Rightarrow> resource_pool list
    \<Rightarrow> string + store \<Rightarrow> string option \<Rightarrow> string option \<Rightarrow> listen_event list \<Rightarrow> host
    \<Rightarrow> ((string + daemon \<times> store) \<times> string list option \<times> host) option" where
  "daemon_run cd env m now p resources ns ps db read_error create_dir_error es h =
     (case lock_pid_file p h of
        (Inl e, h1) \<Rightarrow> Some (Inl (roster_error_display e), None, h1)
      | (Inr i, h1) \<Rightarrow>
          let h2 = cleanup_stale_socket h1; cap = limit_jobs m (memory_mb resources) in
          (case db of
             Inl e \<Rightarrow> Some (Inl e, cap, drop_locks p h2)
           | Inr st \<Rightarrow> (case read_error of
               Some e \<Rightarrow> Some (Inl e, cap, drop_locks p h2)
             | None \<Rightarrow> do {
                 taken \<leftarrow> take_back_runs cd env m now (daemon_new resources ns ps) st;
                 let (result, h3) = daemon_listen p create_dir_error es h2;
                 Some ((case result of Inl e \<Rightarrow> Inl e | Inr _ \<Rightarrow> Inr taken), cap, drop_locks p (cleanup h3)) })))"

section \<open>Daemons side by side\<close>

text \<open>
  Where a daemon stands; the number is the inode it has open. A process that is \<open>Absent\<close> has not
  started or has ended.
\<close>

datatype stage = Absent | Opened nat | Acquired nat | Emptied nat | Locked nat | Cleaned nat | Serving nat | Stopping nat | Unlinked nat | Finished nat

record hosted =
  hd_host :: host
  hd_stage :: "u32 \<Rightarrow> stage"

definition alone :: "u32 \<Rightarrow> (u32 \<Rightarrow> stage) \<Rightarrow> bool" where
  "alone p st \<longleftrightarrow> (\<forall>q. q \<noteq> p \<longrightarrow> st q = Absent)"

text \<open>
  The steps of daemons that run on one host, each a system call; a process can die at any point.
  With \<open>apart\<close> no daemon starts while another removes its files at its end.
\<close>

inductive host_step :: "bool \<Rightarrow> hosted \<Rightarrow> hosted \<Rightarrow> bool" for apart where
  hs_open: "st p = Absent \<Longrightarrow> open_pid_file h = (i, h') \<Longrightarrow>
     host_step apart \<lparr>hd_host = h, hd_stage = st\<rparr> \<lparr>hd_host = h', hd_stage = st(p := Opened i)\<rparr>"
| hs_refused: "st p = Opened i \<Longrightarrow> flock p i h = (Inl e, h') \<Longrightarrow>
     host_step apart \<lparr>hd_host = h, hd_stage = st\<rparr> \<lparr>hd_host = h', hd_stage = st(p := Absent)\<rparr>"
| hs_locked: "st p = Opened i \<Longrightarrow> flock p i h = (Inr (), h') \<Longrightarrow>
     host_step apart \<lparr>hd_host = h, hd_stage = st\<rparr> \<lparr>hd_host = h', hd_stage = st(p := Acquired i)\<rparr>"
| hs_truncate: "st p = Acquired i \<Longrightarrow>
     host_step apart \<lparr>hd_host = h, hd_stage = st\<rparr> \<lparr>hd_host = truncate_pid_file i h, hd_stage = st(p := Emptied i)\<rparr>"
| hs_write: "st p = Emptied i \<Longrightarrow>
     host_step apart \<lparr>hd_host = h, hd_stage = st\<rparr> \<lparr>hd_host = write_pid p i h, hd_stage = st(p := Locked i)\<rparr>"
| hs_clear: "st p = Locked i \<Longrightarrow>
     host_step apart \<lparr>hd_host = h, hd_stage = st\<rparr> \<lparr>hd_host = cleanup_stale_socket h, hd_stage = st(p := Cleaned i)\<rparr>"
| hs_bind: "st p = Cleaned i \<Longrightarrow> bind_socket p h = Some h' \<Longrightarrow>
     host_step apart \<lparr>hd_host = h, hd_stage = st\<rparr> \<lparr>hd_host = h', hd_stage = st(p := Serving i)\<rparr>"
| hs_bind_failed: "st p = Cleaned i \<Longrightarrow> bind_socket p h = None \<Longrightarrow>
     host_step apart \<lparr>hd_host = h, hd_stage = st\<rparr> \<lparr>hd_host = h, hd_stage = st(p := Stopping i)\<rparr>"
| hs_signal: "st p = Serving i \<Longrightarrow>
     host_step apart \<lparr>hd_host = h, hd_stage = st\<rparr> \<lparr>hd_host = h, hd_stage = st(p := Stopping i)\<rparr>"
| hs_remove_pid: "st p = Stopping i \<Longrightarrow> (apart \<longrightarrow> alone p st) \<Longrightarrow>
     host_step apart \<lparr>hd_host = h, hd_stage = st\<rparr> \<lparr>hd_host = remove_pid_file h, hd_stage = st(p := Unlinked i)\<rparr>"
| hs_remove_socket: "st p = Unlinked i \<Longrightarrow> (apart \<longrightarrow> alone p st) \<Longrightarrow>
     host_step apart \<lparr>hd_host = h, hd_stage = st\<rparr> \<lparr>hd_host = remove_socket h, hd_stage = st(p := Finished i)\<rparr>"
| hs_end: "st p \<noteq> Absent \<Longrightarrow>
     host_step apart \<lparr>hd_host = h, hd_stage = st\<rparr> \<lparr>hd_host = drop_locks p h, hd_stage = st(p := Absent)\<rparr>"

text \<open>At first no daemon runs; files may be left of one that died, with any contents.\<close>

definition host_init :: "hosted \<Rightarrow> bool" where
  "host_init s \<longleftrightarrow> hd_stage s = (\<lambda>_. Absent) \<and> ho_lock (hd_host s) = (\<lambda>_. None)
     \<and> (\<forall>i. ho_pid (hd_host s) = Some i \<longrightarrow> i < ho_next (hd_host s))"

section \<open>At most one\<close>

definition running_on :: "stage \<Rightarrow> nat option" where
  "running_on s = (case s of Acquired i \<Rightarrow> Some i | Emptied i \<Rightarrow> Some i | Locked i \<Rightarrow> Some i | Cleaned i \<Rightarrow> Some i | Serving i \<Rightarrow> Some i | Stopping i \<Rightarrow> Some i | _ \<Rightarrow> None)"

text \<open>Its pid is in the file.\<close>

definition written :: "stage \<Rightarrow> nat option" where
  "written s = (case s of Acquired i \<Rightarrow> None | Emptied i \<Rightarrow> None | _ \<Rightarrow> running_on s)"

definition leaving :: "stage \<Rightarrow> nat option" where
  "leaving s = (case s of Unlinked i \<Rightarrow> Some i | Finished i \<Rightarrow> Some i | _ \<Rightarrow> None)"

definition holding :: "stage \<Rightarrow> nat option" where
  "holding s = (case running_on s of Some i \<Rightarrow> Some i | None \<Rightarrow> leaving s)"

definition host_inv :: "hosted \<Rightarrow> bool" where
  "host_inv s \<longleftrightarrow> (let h = hd_host s; st = hd_stage s in
     (\<forall>i. ho_pid h = Some i \<longrightarrow> i < ho_next h)
     \<and> (\<forall>i p. ho_lock h i = Some p \<longleftrightarrow> holding (st p) = Some i)
     \<and> (\<forall>p i. holding (st p) = Some i \<longrightarrow> i < ho_next h)
     \<and> (\<forall>p i. st p = Opened i \<longrightarrow> ho_pid h = Some i)
     \<and> (\<forall>p i. running_on (st p) = Some i \<longrightarrow> ho_pid h = Some i)
     \<and> (\<forall>p i. written (st p) = Some i \<longrightarrow> ho_text h i = dec (unat p))
     \<and> (\<forall>p i. st p = Emptied i \<longrightarrow> ho_text h i = [])
     \<and> (\<forall>p i. leaving (st p) = Some i \<longrightarrow> ho_pid h \<noteq> Some i)
     \<and> (\<forall>p i. st p = Cleaned i \<longrightarrow> ho_socket h = None)
     \<and> (\<forall>p i. st p = Serving i \<longrightarrow> ho_socket h = Some p))"

lemmas stage_defs = running_on_def written_def leaving_def holding_def

lemma running_stage [simp]:
  "running_on Absent = None" "running_on (Opened i) = None" "running_on (Acquired i) = Some i" "running_on (Emptied i) = Some i"
  "running_on (Locked i) = Some i" "running_on (Cleaned i) = Some i" "running_on (Serving i) = Some i"
  "running_on (Stopping i) = Some i" "running_on (Unlinked i) = None" "running_on (Finished i) = None"
  by (simp_all add: stage_defs)

lemma written_stage [simp]:
  "written Absent = None" "written (Opened i) = None" "written (Acquired i) = None" "written (Emptied i) = None"
  "written (Locked i) = Some i" "written (Cleaned i) = Some i" "written (Serving i) = Some i"
  "written (Stopping i) = Some i" "written (Unlinked i) = None" "written (Finished i) = None"
  by (simp_all add: stage_defs)

lemma leaving_stage [simp]:
  "leaving Absent = None" "leaving (Opened i) = None" "leaving (Acquired i) = None" "leaving (Emptied i) = None"
  "leaving (Locked i) = None" "leaving (Cleaned i) = None" "leaving (Serving i) = None"
  "leaving (Stopping i) = None" "leaving (Unlinked i) = Some i" "leaving (Finished i) = Some i"
  by (simp_all add: stage_defs)

lemma holding_stage [simp]:
  "holding Absent = None" "holding (Opened i) = None" "holding (Acquired i) = Some i" "holding (Emptied i) = Some i"
  "holding (Locked i) = Some i" "holding (Cleaned i) = Some i" "holding (Serving i) = Some i"
  "holding (Stopping i) = Some i" "holding (Unlinked i) = Some i" "holding (Finished i) = Some i"
  by (simp_all add: stage_defs)

lemma stage_kinds:
  "running_on s = Some i \<Longrightarrow> holding s = Some i \<and> leaving s = None \<and> s \<noteq> Opened j"
  "written s = Some i \<Longrightarrow> running_on s = Some i"
  "leaving s = Some i \<Longrightarrow> holding s = Some i"
  by (cases s; simp)+

lemma host_invI:
  assumes "\<And>i. ho_pid h = Some i \<Longrightarrow> i < ho_next h" "\<And>i p. ho_lock h i = Some p \<longleftrightarrow> holding (st p) = Some i"
    "\<And>p i. holding (st p) = Some i \<Longrightarrow> i < ho_next h" "\<And>p i. st p = Opened i \<Longrightarrow> ho_pid h = Some i"
    "\<And>p i. running_on (st p) = Some i \<Longrightarrow> ho_pid h = Some i" "\<And>p i. written (st p) = Some i \<Longrightarrow> ho_text h i = dec (unat p)"
    "\<And>p i. st p = Emptied i \<Longrightarrow> ho_text h i = []"
    "\<And>p i. leaving (st p) = Some i \<Longrightarrow> ho_pid h \<noteq> Some i" "\<And>p i. st p = Cleaned i \<Longrightarrow> ho_socket h = None"
    "\<And>p i. st p = Serving i \<Longrightarrow> ho_socket h = Some p"
  shows "host_inv \<lparr>hd_host = h, hd_stage = st\<rparr>"
  using assms unfolding host_inv_def Let_def hosted.select_convs by blast

lemma host_invD:
  assumes "host_inv \<lparr>hd_host = h, hd_stage = st\<rparr>"
  shows "\<And>i. ho_pid h = Some i \<Longrightarrow> i < ho_next h" "\<And>i p. ho_lock h i = Some p \<longleftrightarrow> holding (st p) = Some i"
    "\<And>p i. holding (st p) = Some i \<Longrightarrow> i < ho_next h" "\<And>p i. st p = Opened i \<Longrightarrow> ho_pid h = Some i"
    "\<And>p i. running_on (st p) = Some i \<Longrightarrow> ho_pid h = Some i" "\<And>p i. written (st p) = Some i \<Longrightarrow> ho_text h i = dec (unat p)"
    "\<And>p i. st p = Emptied i \<Longrightarrow> ho_text h i = []"
    "\<And>p i. leaving (st p) = Some i \<Longrightarrow> ho_pid h \<noteq> Some i" "\<And>p i. st p = Cleaned i \<Longrightarrow> ho_socket h = None"
    "\<And>p i. st p = Serving i \<Longrightarrow> ho_socket h = Some p"
  using assms unfolding host_inv_def Let_def hosted.select_convs by blast+

text \<open>Two daemons past the lock are one.\<close>

lemma one_running:
  assumes "host_inv \<lparr>hd_host = h, hd_stage = st\<rparr>" "running_on (st p) = Some i" "running_on (st q) = Some j"
  shows "p = q"
proof -
  note inv = host_invD [OF assms(1)]
  have "i = j" using inv(5) [OF assms(2)] inv(5) [OF assms(3)] by simp
  then have "ho_lock h i = Some p" "ho_lock h i = Some q"
    using inv(2) [of i] stage_kinds(1) assms(2,3) by simp_all
  then show ?thesis by simp
qed

lemma host_inv_open:
  assumes inv: "host_inv \<lparr>hd_host = h, hd_stage = st\<rparr>" and p: "st p = Absent" and opened: "open_pid_file h = (i, h')"
  shows "host_inv \<lparr>hd_host = h', hd_stage = st(p := Opened i)\<rparr>"
proof -
  note old = host_invD [OF inv]
  show ?thesis
  proof (cases "ho_pid h")
    case (Some j)
    then have h: "h' = h" "i = j" using opened by (simp_all add: open_pid_file_def)
    show ?thesis
      by (rule host_invI) (use old p Some in \<open>auto simp: h split: if_splits\<close>)
  next
    case None
    then have h: "h' = h\<lparr>ho_pid := Some (ho_next h), ho_text := (ho_text h)(ho_next h := []), ho_next := Suc (ho_next h)\<rparr>"
      "i = ho_next h" using opened by (auto simp: open_pid_file_def)
    have idle: "running_on (st q) = None" for q using old(5) [of q] None by (cases "running_on (st q)") auto
    then have "written (st q) = None" "st q \<noteq> Emptied k" for q k
      using idle [of q] stage_kinds(2) [of "st q"] by (cases "written (st q)"; auto)+
    moreover have "st q \<noteq> Opened k" for q k using old(4) [of q k] None by auto
    moreover have "leaving (st q) \<noteq> Some (ho_next h)" for q using old(3) [of q "ho_next h"] stage_kinds(3) by auto
    ultimately show ?thesis
      by (intro host_invI) (use old(1-4,8-10) p idle in \<open>auto simp: h less_Suc_eq split: if_splits\<close>)
  qed
qed

lemma host_inv_lock:
  assumes inv: "host_inv \<lparr>hd_host = h, hd_stage = st\<rparr>" and p: "st p = Opened i" and l: "flock p i h = (Inr (), h')"
  shows "host_inv \<lparr>hd_host = h', hd_stage = st(p := Acquired i)\<rparr>"
proof -
  note old = host_invD [OF inv]
  have free: "ho_lock h i = None" and h: "h' = h\<lparr>ho_lock := (ho_lock h)(i := Some p)\<rparr>"
    using l by (auto simp: flock_def split: if_splits)
  have link: "ho_pid h = Some i" by (rule old(4) [OF p])
  have none: "holding (st q) \<noteq> Some i" for q using old(2) [of i q] free by simp
  let ?st = "st(p := Acquired i)"
  have at: "ho_pid h' = ho_pid h" "ho_next h' = ho_next h" "ho_socket h' = ho_socket h" "ho_text h' = ho_text h"
    "ho_lock h' = (ho_lock h)(i := Some p)" by (simp_all add: h)
  show ?thesis
  proof (rule host_invI, unfold at)
    fix q j
    show "((ho_lock h)(i := Some p)) j = Some q \<longleftrightarrow> holding (?st q) = Some j"
      using old(2) [of j q] none [of q] p by (cases "q = p"; cases "j = i") auto
    show "holding (?st q) = Some j \<Longrightarrow> j < ho_next h"
      using old(1) [OF link] old(3) [of q j] by (cases "q = p") auto
    show "running_on (?st q) = Some j \<Longrightarrow> ho_pid h = Some j" using old(5) [of q j] link by (cases "q = p") auto
  qed (use old(1,4,6-10) in \<open>auto split: if_splits\<close>)
qed

text \<open>From the lock to the end of its service a daemon changes nothing but its pid in the file and the socket.\<close>

lemma host_inv_running:
  assumes inv: "host_inv \<lparr>hd_host = h, hd_stage = st\<rparr>" and p: "running_on (st p) = Some i" "running_on s = Some i"
    and s: "written s = Some i \<Longrightarrow> txt' = dec (unat p)" "s = Emptied i \<Longrightarrow> txt' = []"
      "s = Cleaned i \<Longrightarrow> k = None" "s = Serving i \<Longrightarrow> k = Some p"
  shows "host_inv \<lparr>hd_host = h\<lparr>ho_text := (ho_text h)(i := txt'), ho_socket := k\<rparr>, hd_stage = st(p := s)\<rparr>"
proof -
  note old = host_invD [OF inv]
  have only: "running_on (st q) = None" if "q \<noteq> p" for q
    using one_running [OF inv p(1), of q] that by (cases "running_on (st q)") auto
  have no_stage: "st q \<noteq> Cleaned j" "st q \<noteq> Serving j" "st q \<noteq> Emptied j" "written (st q) = None" if "q \<noteq> p" for q j
    using only [OF that] stage_kinds(2) [of "st q"] by (auto, cases "written (st q)", auto)
  have sj: "s = Cleaned j \<Longrightarrow> j = i" "s = Serving j \<Longrightarrow> j = i" "s = Emptied j \<Longrightarrow> j = i" "s \<noteq> Opened j"
    "written s = Some j \<Longrightarrow> j = i" for j using p(2) stage_kinds(2) [of s j] by auto
  have hold: "holding s = Some i" "leaving s = None" "holding (st p) = Some i"
    using stage_kinds(1) [OF p(1)] stage_kinds(1) [OF p(2)] by simp_all
  let ?st = "st(p := s)" and ?h = "h\<lparr>ho_text := (ho_text h)(i := txt'), ho_socket := k\<rparr>"
  have at: "ho_pid ?h = ho_pid h" "ho_next ?h = ho_next h" "ho_socket ?h = k" "ho_lock ?h = ho_lock h"
    "ho_text ?h = (ho_text h)(i := txt')" by simp_all
  show ?thesis
  proof (rule host_invI, unfold at)
    fix q j
    show "ho_lock h j = Some q \<longleftrightarrow> holding (?st q) = Some j" using old(2) [of j q] hold by (cases "q = p") simp_all
    show "holding (?st q) = Some j \<Longrightarrow> j < ho_next h" using old(3) [of q j] hold by (cases "q = p") simp_all
    show "?st q = Opened j \<Longrightarrow> ho_pid h = Some j" using old(4) [of q j] sj(4) [of j] by (cases "q = p") auto
    show "running_on (?st q) = Some j \<Longrightarrow> ho_pid h = Some j" using old(5) [of q j] old(5) [OF p(1)] p(2) by (cases "q = p") simp_all
    show "written (?st q) = Some j \<Longrightarrow> ((ho_text h)(i := txt')) j = dec (unat q)"
      using no_stage(4) [of q] s(1) sj(5) [of j] by (cases "q = p") auto
    show "?st q = Emptied j \<Longrightarrow> ((ho_text h)(i := txt')) j = []"
      using no_stage(3) [of q j] s(2) sj(3) [of j] by (cases "q = p") auto
    show "leaving (?st q) = Some j \<Longrightarrow> ho_pid h \<noteq> Some j" using old(8) [of q j] hold(2) by (cases "q = p") simp_all
    show "?st q = Cleaned j \<Longrightarrow> k = None" using no_stage(1) [of q j] s(3) sj(1) [of j] by (cases "q = p") auto
    show "?st q = Serving j \<Longrightarrow> k = Some q" using no_stage(2) [of q j] s(4) sj(2) [of j] by (cases "q = p") auto
  qed (rule old(1))
qed

lemma host_inv_end:
  assumes inv: "host_inv \<lparr>hd_host = h, hd_stage = st\<rparr>"
  shows "host_inv \<lparr>hd_host = drop_locks p h, hd_stage = st(p := Absent)\<rparr>"
proof -
  note old = host_invD [OF inv]
  have other: "q = p" if "holding (st p) = Some i" "holding (st q) = Some i" for q i
    using old(2) [of i q] old(2) [of i p] that by simp
  show ?thesis
    by (rule host_invI) (use old in \<open>auto simp: drop_locks_def dest: other split: if_splits\<close>)
qed

lemma host_inv_remove:
  assumes inv: "host_inv \<lparr>hd_host = h, hd_stage = st\<rparr>" and al: "alone p st"
  shows "st p = Stopping i \<Longrightarrow> host_inv \<lparr>hd_host = remove_pid_file h, hd_stage = st(p := Unlinked i)\<rparr>"
    and "st p = Unlinked i \<Longrightarrow> host_inv \<lparr>hd_host = remove_socket h, hd_stage = st(p := Finished i)\<rparr>"
proof -
  note old = host_invD [OF inv]
  have others: "st q = Absent" if "q \<noteq> p" for q using al that by (simp add: alone_def)
  show "host_inv \<lparr>hd_host = remove_pid_file h, hd_stage = st(p := Unlinked i)\<rparr>" if "st p = Stopping i"
    by (rule host_invI) (use old(1,2) old(3) [of p i] that others in \<open>auto simp: remove_pid_file_def split: if_splits\<close>)
  show "host_inv \<lparr>hd_host = remove_socket h, hd_stage = st(p := Finished i)\<rparr>" if "st p = Unlinked i"
    by (rule host_invI) (use old(1,2) old(3) [of p i] old(8) [of p i] that others in \<open>auto simp: remove_socket_def split: if_splits\<close>)
qed

lemma host_inv_step:
  assumes inv: "host_inv s" and step: "host_step True s t"
  shows "host_inv t"
  using step
proof cases
  case (hs_open st p h i h')
  then show ?thesis using host_inv_open inv by simp
next
  case (hs_refused st p i h e h')
  then have "h' = h" by (auto simp: flock_def split: if_splits)
  moreover have "drop_locks p h = h"
  proof -
    have "ho_lock h j \<noteq> Some p" for j using host_invD(2) [OF inv [unfolded hs_refused(1)], of j p] hs_refused(3) by simp
    then show ?thesis by (simp add: drop_locks_def)
  qed
  ultimately show ?thesis using host_inv_end [of h st p] inv hs_refused by simp
next
  case (hs_locked st p i h h')
  then show ?thesis using host_inv_lock inv by simp
next
  case (hs_truncate st p i h)
  then show ?thesis using host_inv_running [of h st p i "Emptied i" "[]" "ho_socket h"] inv by (simp add: truncate_pid_file_def)
next
  case (hs_write st p i h)
  have "ho_text h i = []" using host_invD(7) [OF inv [unfolded hs_write(1)] hs_write(3)] .
  then show ?thesis using hs_write host_inv_running [of h st p i "Locked i" "dec (unat p)" "ho_socket h"] inv
    by (simp add: write_pid_def)
next
  case (hs_clear st p i h)
  then have "ho_text h i = dec (unat p)" using host_invD(6) [OF inv [unfolded hs_clear(1)], of p i] by simp
  then have "(ho_text h)(i := dec (unat p)) = ho_text h" by auto
  then show ?thesis using hs_clear host_inv_running [of h st p i "Cleaned i" "dec (unat p)" None] inv
    by (simp add: cleanup_stale_socket_def)
next
  case (hs_bind st p i h h')
  then have "ho_text h i = dec (unat p)" using host_invD(6) [OF inv [unfolded hs_bind(1)], of p i] by simp
  then have "(ho_text h)(i := dec (unat p)) = ho_text h" by auto
  then show ?thesis using hs_bind host_inv_running [of h st p i "Serving i" "dec (unat p)" "Some p"] inv
    by (auto simp: bind_socket_def split: if_splits)
next
  case (hs_bind_failed st p i h)
  then have "ho_text h i = dec (unat p)" using host_invD(6) [OF inv [unfolded hs_bind_failed(1)], of p i] by simp
  then have "(ho_text h)(i := dec (unat p)) = ho_text h" by auto
  then show ?thesis using hs_bind_failed host_inv_running [of h st p i "Stopping i" "dec (unat p)" "ho_socket h"] inv by simp
next
  case (hs_signal st p i h)
  then have "ho_text h i = dec (unat p)" using host_invD(6) [OF inv [unfolded hs_signal(1)], of p i] by simp
  then have "(ho_text h)(i := dec (unat p)) = ho_text h" by auto
  then show ?thesis using hs_signal host_inv_running [of h st p i "Stopping i" "dec (unat p)" "ho_socket h"] inv by simp
next
  case (hs_remove_pid st p i h)
  then show ?thesis using host_inv_remove(1) inv by simp
next
  case (hs_remove_socket st p i h)
  then show ?thesis using host_inv_remove(2) inv by simp
next
  case (hs_end st p h)
  then show ?thesis using host_inv_end inv by simp
qed

interpretation instances: invariant_system host_init "host_step True" host_inv
proof unfold_locales
  fix s assume "host_init s"
  then show "host_inv s" by (auto simp: host_init_def host_inv_def)
qed (rule host_inv_step)

section \<open>Properties\<close>

lemma trim_dec [simp]: "trim (dec n) = dec n"
proof -
  have digit: "\<not> is_ws c" if "is_digit c" for c
    using that by (auto simp: is_ws_def is_digit_def)
  have all: "list_all (\<lambda>c. \<not> is_ws c) (dec n)" using dec_digits [of n] digit by (auto simp: list_all_iff)
  have keep: "dropWhile is_ws s = s" if "list_all (\<lambda>c. \<not> is_ws c) s" for s using that by (cases s) auto
  show ?thesis using keep [OF all] keep [of "rev (dec n)"] all by (simp add: trim_def)
qed

lemma running_pid_read: "ho_pid h = Some i \<Longrightarrow> ho_text h i = dec (unat p) \<Longrightarrow> running_pid h = p"
  using parse_uint_dec [of "unat p" 32] unsigned_less [where 'a=nat and w=p] by (simp add: running_pid_def)

lemma flock_cases:
  "ho_lock h i = Some q \<Longrightarrow> flock p i h = (Inl (AlreadyRunning (running_pid h)), h)"
  "ho_lock h i = None \<Longrightarrow> flock p i h = (Inr (), h\<lparr>ho_lock := (ho_lock h)(i := Some p)\<rparr>)"
  by (simp_all add: flock_def)


text \<open>A start that nothing stands in the way of.\<close>

lemma start_serves:
  assumes r: "reach host_init (host_step apart) \<lparr>hd_host = h, hd_stage = st\<rparr>" and p: "st p = Opened i" "ho_lock h i = None"
  obtains h' where "reach host_init (host_step apart) \<lparr>hd_host = h', hd_stage = st(p := Serving i)\<rparr>"
    "ho_pid h' = ho_pid h" "ho_lock h' = (ho_lock h)(i := Some p)" "ho_socket h' = Some p" "ho_next h' = ho_next h"
proof -
  define h1 where "h1 = h\<lparr>ho_lock := (ho_lock h)(i := Some p)\<rparr>"
  define h2 where "h2 = cleanup_stale_socket (write_pid p i (truncate_pid_file i h1))"
  have "reach host_init (host_step apart) \<lparr>hd_host = h1, hd_stage = st(p := Acquired i)\<rparr>"
    using reach_step [OF r hs_locked [where p = p and i = i]] p flock_cases(2) [OF p(2), of p] by (simp add: h1_def)
  from reach_step [OF this hs_truncate [where p = p and i = i]]
  have "reach host_init (host_step apart) \<lparr>hd_host = truncate_pid_file i h1, hd_stage = st(p := Emptied i)\<rparr>" by simp
  from reach_step [OF this hs_write [where p = p and i = i]]
  have "reach host_init (host_step apart) \<lparr>hd_host = write_pid p i (truncate_pid_file i h1), hd_stage = st(p := Locked i)\<rparr>" by simp
  from reach_step [OF this hs_clear [where p = p and i = i]]
  have "reach host_init (host_step apart) \<lparr>hd_host = h2, hd_stage = st(p := Cleaned i)\<rparr>" by (simp add: h2_def)
  from reach_step [OF this hs_bind [where p = p and i = i and h' = "h2\<lparr>ho_socket := Some p\<rparr>"]]
  have "reach host_init (host_step apart) \<lparr>hd_host = h2\<lparr>ho_socket := Some p\<rparr>, hd_stage = st(p := Serving i)\<rparr>"
    by (simp add: bind_socket_def h2_def cleanup_stale_socket_def)
  then show thesis
    by (rule that) (simp_all add: h2_def h1_def cleanup_stale_socket_def write_pid_def truncate_pid_file_def)
qed

definition empty_host :: host where
  "empty_host = \<lparr>ho_pid = None, ho_text = (\<lambda>_. []), ho_lock = (\<lambda>_. None), ho_socket = None, ho_next = 0\<rparr>"

lemma first_serves:
  obtains h where "reach host_init (host_step apart) \<lparr>hd_host = h, hd_stage = (\<lambda>_. Absent)(1 := Serving 0)\<rparr>"
    "ho_pid h = Some 0" "ho_lock h = (\<lambda>_. None)(0 := Some 1)" "ho_socket h = Some 1" "ho_next h = 1"
proof -
  let ?h = "snd (open_pid_file empty_host)"
  have "reach host_init (host_step apart) \<lparr>hd_host = empty_host, hd_stage = \<lambda>_. Absent\<rparr>"
    by (rule reach_init) (simp add: host_init_def empty_host_def)
  from reach_step [OF this hs_open [where p = 1]]
  have "reach host_init (host_step apart) \<lparr>hd_host = ?h, hd_stage = (\<lambda>_. Absent)(1 := Opened 0)\<rparr>"
    by (simp add: open_pid_file_def empty_host_def)
  then show thesis
    by (rule start_serves [where p = 1 and i = 0]) (auto simp: open_pid_file_def empty_host_def intro: that)
qed


text \<open>
  C29: A start during another daemon's end breaks this. The pid file is removed while the lock is
  still held and before the socket is: a daemon that opened it before that locks an inode no path
  leads to, so the next one is not refused and both serve, the second having removed the first one's
  socket; and one that starts between the two removals loses the socket it just bound.
\<close>

theorem shutdown_race:
  "(\<exists>h. reach host_init (host_step False) \<lparr>hd_host = h, hd_stage = (\<lambda>_. Absent)(2 := Serving 0, 3 := Serving 1)\<rparr> \<and> ho_socket h = Some 3)
   \<and> (\<exists>h. reach host_init (host_step False) \<lparr>hd_host = h, hd_stage = (\<lambda>_. Absent)(1 := Finished 0, 2 := Serving 1)\<rparr> \<and> ho_socket h = None)"
proof
  obtain h where h: "reach host_init (host_step False) \<lparr>hd_host = h, hd_stage = (\<lambda>_. Absent)(1 := Serving 0)\<rparr>"
    "ho_pid h = Some 0" "ho_lock h = (\<lambda>_. None)(0 := Some 1)" "ho_socket h = Some 1" "ho_next h = 1"
    by (rule first_serves)
  from reach_step [OF h(1) hs_signal [where p = 1 and i = 0]]
  have stopping: "reach host_init (host_step False) \<lparr>hd_host = h, hd_stage = (\<lambda>_. Absent)(1 := Stopping 0)\<rparr>" by simp
  from reach_step [OF stopping hs_remove_pid [where p = 1 and i = 0]]
  have unlinked: "reach host_init (host_step False) \<lparr>hd_host = remove_pid_file h, hd_stage = (\<lambda>_. Absent)(1 := Unlinked 0)\<rparr>" by simp
  let ?st = "(\<lambda>_. Absent)(1 := Unlinked 0, 2 := Opened 1)" and ?h = "snd (open_pid_file (remove_pid_file h))"
  from reach_step [OF unlinked hs_open [where p = 2]]
  have "reach host_init (host_step False) \<lparr>hd_host = ?h, hd_stage = ?st\<rparr>"
    using h(5) by (simp add: open_pid_file_def remove_pid_file_def)
  then obtain h2 where "reach host_init (host_step False) \<lparr>hd_host = h2, hd_stage = ?st(2 := Serving 1)\<rparr>"
    by (rule start_serves [where p = 2 and i = 1]) (use h(3) in \<open>auto simp: open_pid_file_def remove_pid_file_def\<close>)
  from reach_step [OF this hs_remove_socket [where p = 1 and i = 0]]
  have "reach host_init (host_step False) \<lparr>hd_host = remove_socket h2, hd_stage = (\<lambda>_. Absent)(1 := Finished 0, 2 := Serving 1)\<rparr>"
    by (simp add: fun_upd_twist)
  then show "\<exists>h. reach host_init (host_step False) \<lparr>hd_host = h, hd_stage = (\<lambda>_. Absent)(1 := Finished 0, 2 := Serving 1)\<rparr> \<and> ho_socket h = None"
    by (intro exI [of _ "remove_socket h2"]) (simp add: remove_socket_def)
  from reach_step [OF stopping hs_open [where p = 2]]
  have "reach host_init (host_step False) \<lparr>hd_host = h, hd_stage = (\<lambda>_. Absent)(1 := Stopping 0, 2 := Opened 0)\<rparr>"
    using h(2) by (simp add: open_pid_file_def)
  from reach_step [OF this hs_remove_pid [where p = 1 and i = 0]]
  have "reach host_init (host_step False) \<lparr>hd_host = remove_pid_file h, hd_stage = (\<lambda>_. Absent)(1 := Unlinked 0, 2 := Opened 0)\<rparr>"
    by (simp add: fun_upd_twist)
  from reach_step [OF this hs_end [where p = 1]]
  have "reach host_init (host_step False) \<lparr>hd_host = drop_locks 1 (remove_pid_file h), hd_stage = (\<lambda>_. Absent)(2 := Opened 0)\<rparr>"
    by (simp add: fun_upd_twist fun_upd_idem)
  then obtain h3 where h3: "reach host_init (host_step False) \<lparr>hd_host = h3, hd_stage = ((\<lambda>_. Absent)(2 := Opened 0))(2 := Serving 0)\<rparr>"
    "ho_pid h3 = None" "ho_lock h3 1 = None" "ho_next h3 = 1"
    by (rule start_serves [where p = 2 and i = 0]) (use h(3,5) in \<open>auto simp: drop_locks_def remove_pid_file_def\<close>)
  let ?h3 = "snd (open_pid_file h3)" and ?st3 = "(\<lambda>_. Absent)(2 := Serving 0, 3 := Opened 1)"
  from reach_step [OF h3(1) hs_open [where p = 3]]
  have "reach host_init (host_step False) \<lparr>hd_host = ?h3, hd_stage = ?st3\<rparr>"
    using h3(2,4) by (simp add: open_pid_file_def)
  then obtain h4 where "reach host_init (host_step False) \<lparr>hd_host = h4, hd_stage = ?st3(3 := Serving 1)\<rparr>" "ho_socket h4 = Some 3"
    by (rule start_serves [where p = 3 and i = 1]) (use h3(2,3) in \<open>auto simp: open_pid_file_def\<close>)
  then show "\<exists>h. reach host_init (host_step False) \<lparr>hd_host = h, hd_stage = (\<lambda>_. Absent)(2 := Serving 0, 3 := Serving 1)\<rparr> \<and> ho_socket h = Some 3"
    by auto
qed

end
