(* ===== verification/Cuda.thy ===== *)
theory Cuda
  imports Prelude
begin

unbundle bit_operations_syntax

text \<open>
  The card test of src/src/resource/cuda.rs: the three PTX kernels, register by register at their
  widths, and the driver calls around them. The CUDA driver is outside the repository: the
  status each call returns is a parameter, and so is the card, which may compute or store wrongly.
  A \<open>None\<close> of a kernel is a thread that never ends.
\<close>

text \<open>
  The card: what one round of the hash arithmetic gives on it, and what a word of its memory
  reads after a store.
\<close>

record cuda_card =
  cd_round :: "u32 \<Rightarrow> u32"
  cd_word :: "u64 \<Rightarrow> u32 \<Rightarrow> u32"

section \<open>The kernels\<close>

definition hash_round :: "u32 \<Rightarrow> u32" where
  "hash_round x = (let y = x * 1664525 + 1013904223 in y XOR drop_bit 13 y)"

lemma counter_step: "(c :: 'a::len word) < n \<Longrightarrow> unat (c + 1) = Suc (unat c)"
  using unat_add_le [of c 1 n] by (simp add: word_less_nat_alt)

text \<open>The PTX loop \<open>hash_loop\<close>: \<open>r1\<close> the rounds, \<open>r7\<close> the counter, \<open>r6\<close> the value.\<close>

function hash_kernel_loop :: "(u32 \<Rightarrow> u32) \<Rightarrow> u32 \<Rightarrow> u32 \<Rightarrow> u32 \<Rightarrow> u32" where
  "hash_kernel_loop round r1 r7 r6 = (if r7 \<ge> r1 then r6 else hash_kernel_loop round r1 (r7 + 1) (round r6))"
  by auto

termination
  by (relation "measure (\<lambda>(round, r1, r7, r6). unat r1 - unat r7)")
    (auto simp: counter_step not_le word_less_nat_alt)

declare hash_kernel_loop.simps [simp del]

definition hash_kernel :: "cuda_card \<Rightarrow> u32 \<Rightarrow> u32 \<Rightarrow> u32" where
  "hash_kernel dev rounds index = hash_kernel_loop (cd_round dev) rounds 0 index"

definition fill_pattern :: "u64 \<Rightarrow> u32 \<Rightarrow> u32" where
  "fill_pattern i seed = (ucast i * 1664525) XOR seed"

partial_function (option) fill_loop :: "u64 \<Rightarrow> u64 \<Rightarrow> u32 \<Rightarrow> u64 \<Rightarrow> (u64 \<Rightarrow> u32) \<Rightarrow> (u64 \<Rightarrow> u32) option" where
  "fill_loop words stride seed i mem =
     (if i \<ge> words then Some mem
      else fill_loop words stride seed (i + stride) (mem(i := fill_pattern i seed)))"

partial_function (option) check_loop ::
    "cuda_card \<Rightarrow> u64 \<Rightarrow> u64 \<Rightarrow> u32 \<Rightarrow> (u64 \<Rightarrow> u32) \<Rightarrow> u64 \<Rightarrow> u32 \<Rightarrow> u32 option" where
  "check_loop dev words stride seed mem i errors =
     (if i \<ge> words then Some errors
      else check_loop dev words stride seed mem (i + stride)
             (if cd_word dev i (mem i) = fill_pattern i seed then errors else errors + 1))"

definition THREADS :: u32 where "THREADS = 256"

text \<open>
  The threads of a launch, as \<open>ctaid * ntid + tid\<close>, and the stride \<open>nctaid * ntid\<close>. The threads
  of one launch write different words and the counter is atomic, so they run here one after
  another.
\<close>

definition grid_threads :: "u32 \<Rightarrow> u32 list" where
  "grid_threads blocks =
     concat (map (\<lambda>ctaid. map (\<lambda>tid. of_nat ctaid * THREADS + of_nat tid) [0..<unat THREADS]) [0..<unat blocks])"

fun fill_threads :: "u64 \<Rightarrow> u64 \<Rightarrow> u32 \<Rightarrow> u32 list \<Rightarrow> (u64 \<Rightarrow> u32) \<Rightarrow> (u64 \<Rightarrow> u32) option" where
  "fill_threads words stride seed [] mem = Some mem"
| "fill_threads words stride seed (r5 # threads) mem = do {
     mem' \<leftarrow> fill_loop words stride seed (ucast r5) mem;
     fill_threads words stride seed threads mem' }"

fun check_threads :: "cuda_card \<Rightarrow> u64 \<Rightarrow> u64 \<Rightarrow> u32 \<Rightarrow> (u64 \<Rightarrow> u32) \<Rightarrow> u32 list \<Rightarrow> u32 \<Rightarrow> u32 option" where
  "check_threads dev words stride seed mem [] errors = Some errors"
| "check_threads dev words stride seed mem (r5 # threads) errors = do {
     errors' \<leftarrow> check_loop dev words stride seed mem (ucast r5) errors;
     check_threads dev words stride seed mem threads errors' }"

definition fill_kernel :: "u32 \<Rightarrow> u64 \<Rightarrow> u32 \<Rightarrow> (u64 \<Rightarrow> u32) \<Rightarrow> (u64 \<Rightarrow> u32) option" where
  "fill_kernel blocks words seed mem = fill_threads words (ucast (blocks * THREADS)) seed (grid_threads blocks) mem"

definition check_kernel :: "cuda_card \<Rightarrow> u32 \<Rightarrow> u64 \<Rightarrow> u32 \<Rightarrow> (u64 \<Rightarrow> u32) \<Rightarrow> u32 \<Rightarrow> u32 option" where
  "check_kernel dev blocks words seed mem errors =
     check_threads dev words (ucast (blocks * THREADS)) seed mem (grid_threads blocks) errors"

section \<open>The driver calls\<close>

text \<open>
  Loading the driver: the library, if there is one, and the address of every call, without any of
  which there is no driver. \<open>dlsym\<close> is a null pointer for a name the library lacks.
\<close>

definition DRIVER_CALLS :: "string list" where
  "DRIVER_CALLS = [''cuInit'', ''cuDeviceGet'', ''cuDeviceGetAttribute'', ''cuCtxCreate_v2'', ''cuCtxDestroy_v2'',
     ''cuModuleLoadData'', ''cuModuleGetFunction'', ''cuMemGetInfo_v2'', ''cuMemAlloc_v2'', ''cuMemsetD32_v2'',
     ''cuMemcpyDtoH_v2'', ''cuLaunchKernel'', ''cuCtxSynchronize'']"

definition driver_load :: "(string \<Rightarrow> u64) option \<Rightarrow> (string \<times> u64) list option" where
  "driver_load library =
     (case library of
        None \<Rightarrow> None
      | Some dlsym \<Rightarrow> those (map (\<lambda>name. if dlsym name = 0 then None else Some (name, dlsym name)) DRIVER_CALLS))"

lemma those_eq_None: "those xs = None \<longleftrightarrow> None \<in> set xs"
  by (induction xs) (auto split: option.splits)

lemma driver_load_none: "driver_load library = None \<longleftrightarrow>
    library = None \<or> (\<exists>dlsym. library = Some dlsym \<and> (\<exists>name \<in> set DRIVER_CALLS. dlsym name = 0))"
  by (cases library) (auto simp: driver_load_def those_eq_None image_iff)

text \<open>What the driver answers: a status per call, and the values the queries write.\<close>

record cuda_driver =
  dr_init :: i32
  dr_device_get :: i32
  dr_attribute :: i32
  dr_sms :: u32
  dr_ctx_create :: i32
  dr_module_load :: i32
  dr_function :: "string \<Rightarrow> u32 \<Rightarrow> i32"
  dr_launch :: "string \<Rightarrow> u32 \<Rightarrow> i32"
  dr_synchronize :: "string \<Rightarrow> u32 \<Rightarrow> i32"
  dr_alloc_out :: i32
  dr_copy_results :: i32
  dr_mem_info :: i32
  dr_free :: u64
  dr_alloc_buffer :: i32
  dr_alloc_errors :: i32
  dr_memset :: i32
  dr_copy_errors :: i32

definition cuda_check :: "i32 \<Rightarrow> string \<Rightarrow> string + unit" where
  "cuda_check status call =
     (if status = 0 then Inr () else Inl (call @ '' failed with CUDA error '' @ dec_int status))"

definition HASH_ROUNDS :: u32 where "HASH_ROUNDS = 1000"

definition MAX_TEST_BYTES :: u64 where "MAX_TEST_BYTES = 1073741824"

text \<open>The CPU side of the hash kernel.\<close>

fun hash_from :: "nat \<Rightarrow> u32 \<Rightarrow> u32" where
  "hash_from 0 value = value"
| "hash_from (Suc n) value = hash_from n (hash_round value)"

definition hash :: "u32 \<Rightarrow> u32 \<Rightarrow> u32" where
  "hash index rounds = hash_from (unat rounds) index"

text \<open>The bytes of the memory pattern test.\<close>

definition test_bytes :: "u64 \<Rightarrow> u64" where
  "test_bytes free = min (free div 2) MAX_TEST_BYTES AND NOT 3"

fun check_all :: "(i32 \<times> string) list \<Rightarrow> string + unit" where
  "check_all [] = Inr ()"
| "check_all ((status, call) # calls) =
     (case cuda_check status call of Inl e \<Rightarrow> Inl e | Inr _ \<Rightarrow> check_all calls)"

text \<open>
  One pass of the pattern test: fill with a seed, then check. The memory after the fill and the
  counter after the check; an error of a driver call on the left.
\<close>

definition pattern_pass :: "cuda_driver \<Rightarrow> cuda_card \<Rightarrow> u32 \<Rightarrow> u64 \<Rightarrow> u32 \<Rightarrow> (u64 \<Rightarrow> u32) \<times> u32
    \<Rightarrow> (string + (u64 \<Rightarrow> u32) \<times> u32) option" where
  "pattern_pass cuda dev blocks words seed s =
     (case check_all [(dr_function cuda ''fill'' seed, ''cuModuleGetFunction''),
                      (dr_launch cuda ''fill'' seed, ''fill kernel''),
                      (dr_synchronize cuda ''fill'' seed, ''fill kernel'')] of
        Inl e \<Rightarrow> Some (Inl e)
      | Inr _ \<Rightarrow> do {
          mem \<leftarrow> fill_kernel blocks words seed (fst s);
          case check_all [(dr_function cuda ''check'' seed, ''cuModuleGetFunction''),
                          (dr_launch cuda ''check'' seed, ''check kernel''),
                          (dr_synchronize cuda ''check'' seed, ''check kernel'')] of
            Inl e \<Rightarrow> Some (Inl e)
          | Inr _ \<Rightarrow> do {
              errors \<leftarrow> check_kernel dev blocks words seed mem (snd s);
              Some (Inr (mem, errors)) } })"

definition hash_test :: "cuda_driver \<Rightarrow> cuda_card \<Rightarrow> u32 \<Rightarrow> string + unit" where
  "hash_test cuda dev blocks =
     (let count = unat (blocks * THREADS) in
      case check_all [(dr_alloc_out cuda, ''cuMemAlloc''),
                      (dr_function cuda ''hash'' 0, ''cuModuleGetFunction''),
                      (dr_launch cuda ''hash'' 0, ''hash kernel''),
                      (dr_synchronize cuda ''hash'' 0, ''hash kernel''),
                      (dr_copy_results cuda, ''cuMemcpyDtoH'')] of
        Inl e \<Rightarrow> Inl e
      | Inr _ \<Rightarrow>
          (let wrong = length (filter (\<lambda>index. hash_kernel dev HASH_ROUNDS index \<noteq> hash index HASH_ROUNDS)
                                      (map of_nat [0..<count])) in
           if wrong > 0 then Inl (dec wrong @ '' of '' @ dec count @ '' hash chains wrong'') else Inr ()))"

definition pattern_test :: "cuda_driver \<Rightarrow> cuda_card \<Rightarrow> u32 \<Rightarrow> (u64 \<Rightarrow> u32) \<Rightarrow> (string + unit) option" where
  "pattern_test cuda dev blocks mem =
     (let words = test_bytes (dr_free cuda) div 4 in
      case check_all [(dr_mem_info cuda, ''cuMemGetInfo''), (dr_alloc_buffer cuda, ''cuMemAlloc''),
                      (dr_alloc_errors cuda, ''cuMemAlloc''), (dr_memset cuda, ''cuMemsetD32'')] of
        Inl e \<Rightarrow> Some (Inl e)
      | Inr _ \<Rightarrow> do {
          first \<leftarrow> pattern_pass cuda dev blocks words 0 (mem, 0);
          case first of
            Inl e \<Rightarrow> Some (Inl e)
          | Inr s \<Rightarrow> do {
              second \<leftarrow> pattern_pass cuda dev blocks words (- 1) s;
              case second of
                Inl e \<Rightarrow> Some (Inl e)
              | Inr (_, mismatches) \<Rightarrow>
                  (case cuda_check (dr_copy_errors cuda) ''cuMemcpyDtoH'' of
                     Inl e \<Rightarrow> Some (Inl e)
                   | Inr _ \<Rightarrow>
                       Some (if mismatches > 0
                             then Inl (dec (unat mismatches) @ '' of '' @ dec (unat (words * 2)) @ '' VRAM words read back wrong'')
                             else Inr ())) } })"

definition cuda_test :: "cuda_driver \<Rightarrow> cuda_card \<Rightarrow> (u64 \<Rightarrow> u32) \<Rightarrow> u32 \<Rightarrow> (string + unit) option" where
  "cuda_test cuda dev mem sms =
     (let blocks = sms * 4 in
      case check_all [(dr_module_load cuda, ''cuModuleLoadData'')] of
        Inl e \<Rightarrow> Some (Inl e)
      | Inr _ \<Rightarrow> (case hash_test cuda dev blocks of
          Inl e \<Rightarrow> Some (Inl e)
        | Inr _ \<Rightarrow> pattern_test cuda dev blocks mem))"

definition with_context :: "cuda_driver \<Rightarrow> cuda_card \<Rightarrow> (u64 \<Rightarrow> u32) \<Rightarrow> (string + unit) option" where
  "with_context cuda dev mem =
     (case check_all [(dr_init cuda, ''cuInit''), (dr_device_get cuda, ''cuDeviceGet''),
                      (dr_attribute cuda, ''cuDeviceGetAttribute''), (dr_ctx_create cuda, ''cuCtxCreate'')] of
        Inl e \<Rightarrow> Some (Inl e)
      | Inr _ \<Rightarrow> cuda_test cuda dev mem (dr_sms cuda))"

text \<open>\<open>kernel_test\<close>: the inner \<open>None\<close> is a machine without a driver.\<close>

definition kernel_test :: "cuda_driver option \<Rightarrow> cuda_card \<Rightarrow> (u64 \<Rightarrow> u32) \<Rightarrow> (string + unit) option option" where
  "kernel_test driver dev mem =
     (case driver of None \<Rightarrow> Some None
      | Some cuda \<Rightarrow> map_option Some (with_context cuda dev mem))"

section \<open>What the kernels compute\<close>

lemma hash_kernel_loop_rounds:
  "hash_kernel_loop hash_round r1 r7 x = hash_from (unat r1 - unat r7) x"
proof (induction "unat r1 - unat r7" arbitrary: r7 x)
  case 0
  then show ?case by (subst hash_kernel_loop.simps) (simp add: word_le_nat_alt)
next
  case (Suc n)
  then have lt: "r7 < r1" by (simp add: word_less_nat_alt)
  then have "n = unat r1 - unat (r7 + 1)" "unat r1 - unat r7 = Suc (unat r1 - unat (r7 + 1))"
    using Suc.hyps(2) by (simp_all add: counter_step)
  then show ?case using lt Suc.hyps(1) [of "r7 + 1"]
    by (subst hash_kernel_loop.simps) (simp add: not_le [symmetric])
qed

lemma hash_kernel_healthy: "cd_round dev = hash_round \<Longrightarrow> hash_kernel dev rounds index = hash index rounds"
  by (simp add: hash_kernel_def hash_kernel_loop_rounds hash_def)

text \<open>A strided loop, on natural numbers: the words it visits.\<close>

definition visited :: "nat \<Rightarrow> nat \<Rightarrow> nat \<Rightarrow> nat set" where
  "visited W s i = {k. k < W \<and> (\<exists>m. k = i + m * s)}"

lemma visited_done: "W \<le> i \<Longrightarrow> visited W s i = {}"
  by (auto simp: visited_def)

lemma visited_step:
  assumes "i < W" "0 < s"
  shows "visited W s i = insert i (visited W s (i + s))" "i \<notin> visited W s (i + s)"
proof -
  have "(\<exists>m. k = i + m * s) \<longleftrightarrow> k = i \<or> (\<exists>m. k = i + s + m * s)" for k
  proof
    assume "\<exists>m. k = i + m * s"
    then obtain m where "k = i + m * s" by blast
    then show "k = i \<or> (\<exists>m. k = i + s + m * s)" by (cases m) auto
  qed (metis add.assoc mult_Suc add.right_neutral mult_0)
  then show "visited W s i = insert i (visited W s (i + s))" using assms by (auto simp: visited_def)
  show "i \<notin> visited W s (i + s)" using assms(2) by (simp add: visited_def)
qed

lemma visited_finite [simp]: "finite (visited W s i)"
  by (rule finite_subset [of _ "{..<W}"]) (auto simp: visited_def)

lemma visited_thread: "t < s \<Longrightarrow> visited W s t = {k. k < W \<and> k mod s = t}"
  by (auto simp: visited_def) (metis mod_mult_div_eq mult.commute)

lemma of_nat_u64_inject: "i < 2 ^ 64 \<Longrightarrow> unat (of_nat i :: u64) = i"
  by (simp add: unat_of_nat take_bit_nat_eq_self)

lemma u64_eq_iff: "(x :: u64) = of_nat i \<longleftrightarrow> unat x = i" if "i < 2 ^ 64"
  using that by (auto simp: word_unat_eq_iff of_nat_u64_inject)

lemma fill_loop_visits:
  assumes s: "0 < s" "W + s < 2 ^ 64" and "i < W + s"
  shows "fill_loop (of_nat W) (of_nat s) seed (of_nat i) mem =
    Some (\<lambda>x. if unat x \<in> visited W s i then fill_pattern x seed else mem x)"
  using assms(3)
proof (induction "W - i" arbitrary: i mem rule: less_induct)
  case less
  have small: "unat (of_nat i :: u64) = i" "unat (of_nat W :: u64) = W"
    using s less.prems by (auto intro!: of_nat_u64_inject)
  show ?case
  proof (cases "W \<le> i")
    case True
    then show ?thesis by (subst fill_loop.simps) (simp add: small word_le_nat_alt visited_done)
  next
    case False
    let ?mem = "mem(of_nat i := fill_pattern (of_nat i) seed)"
    have "fill_loop (of_nat W) (of_nat s) seed (of_nat (i + s)) ?mem =
      Some (\<lambda>x. if unat x \<in> visited W s (i + s) then fill_pattern x seed else ?mem x)"
      using s False by (intro less.hyps) auto
    moreover have "(x :: u64) = of_nat i \<longleftrightarrow> unat x = i" for x
      using s(2) less.prems by (intro u64_eq_iff) simp
    ultimately show ?thesis using False visited_step [of i W s] s(1)
      by (subst fill_loop.simps) (auto simp: small word_le_nat_alt fun_eq_iff)
  qed
qed

text \<open>The words of a set that read back wrong.\<close>

definition bad_words :: "cuda_card \<Rightarrow> u32 \<Rightarrow> (u64 \<Rightarrow> u32) \<Rightarrow> nat set \<Rightarrow> nat set" where
  "bad_words dev seed mem S =
     {k \<in> S. cd_word dev (of_nat k) (mem (of_nat k)) \<noteq> fill_pattern (of_nat k) seed}"

lemma check_loop_counts:
  assumes s: "0 < s" "W + s < 2 ^ 64" and "i < W + s"
  shows "check_loop dev (of_nat W) (of_nat s) seed mem (of_nat i) errors =
    Some (errors + of_nat (card (bad_words dev seed mem (visited W s i))))"
  using assms(3)
proof (induction "W - i" arbitrary: i errors rule: less_induct)
  case less
  have small: "unat (of_nat i :: u64) = i" "unat (of_nat W :: u64) = W"
    using s less.prems by (auto intro!: of_nat_u64_inject)
  show ?case
  proof (cases "W \<le> i")
    case True
    then show ?thesis by (subst check_loop.simps) (simp add: small word_le_nat_alt visited_done bad_words_def)
  next
    case False
    let ?bad = "cd_word dev (of_nat i) (mem (of_nat i)) \<noteq> fill_pattern (of_nat i) seed"
    have IH: "check_loop dev (of_nat W) (of_nat s) seed mem (of_nat (i + s)) e =
      Some (e + of_nat (card (bad_words dev seed mem (visited W s (i + s)))))" for e
      using s False by (intro less.hyps) auto
    have "bad_words dev seed mem (visited W s i) =
      (if ?bad then insert i (bad_words dev seed mem (visited W s (i + s))) else bad_words dev seed mem (visited W s (i + s)))"
      using False visited_step(1) [of i W s] s(1) by (auto simp: bad_words_def)
    moreover have "i \<notin> bad_words dev seed mem (visited W s (i + s))"
      using False visited_step(2) [of i W s] s(1) by (simp add: bad_words_def)
    moreover have "finite (bad_words dev seed mem (visited W s (i + s)))" by (simp add: bad_words_def)
    ultimately show ?thesis using False IH
      by (subst check_loop.simps) (simp add: small word_le_nat_alt)
  qed
qed

section \<open>The grid covers the buffer\<close>

lemma concat_rows: "concat (map (\<lambda>c. map (\<lambda>t. f (c * n + t)) [0..<n]) [0..<b]) = map f [0..<b * (n::nat)]"
proof (induction b)
  case (Suc b)
  have "[b * n..<b * n + n] = map (\<lambda>t. t + b * n) [0..<n]" by (simp add: map_add_upt add.commute)
  then have "map f [b * n..<b * n + n] = map (\<lambda>t. f (b * n + t)) [0..<n]" by (simp add: add.commute)
  moreover have "[0..<Suc b * n] = [0..<b * n] @ [b * n..<b * n + n]"
    using upt_add_eq_append [of 0 "b * n" n] by (simp add: add.commute)
  ultimately show ?case using Suc by (simp only: map_append upt_Suc_append concat_append list.map concat.simps append_Nil2 le0)
qed simp

lemma grid_threads_all: "grid_threads blocks = map of_nat [0..<unat blocks * 256]"
  using concat_rows [of "of_nat :: nat \<Rightarrow> u32" 256 "unat blocks"]
  by (simp add: grid_threads_def THREADS_def)

text \<open>The launch fits when its threads can be numbered in 32 bits and there is one.\<close>

definition launchable :: "u32 \<Rightarrow> bool" where
  "launchable blocks \<longleftrightarrow> 0 < blocks \<and> unat blocks * 256 < 2 ^ 32"

lemma u32_as_u64: "ucast (x :: u32) = (of_nat (unat x) :: u64)"
proof -
  have "unat x < 2 ^ 32" using unsigned_less [of x] by simp
  then show ?thesis by (simp add: word_unat_eq_iff unat_ucast_u64 of_nat_u64_inject)
qed

lemma launchable_stride:
  assumes "launchable blocks"
  shows "ucast (blocks * THREADS) = (of_nat (unat blocks * 256) :: u64)" "0 < unat blocks * 256"
proof -
  have eq: "unat (blocks * THREADS) = unat blocks * 256"
    using assms by (simp add: launchable_def THREADS_def unat_word_ariths)
  show "ucast (blocks * THREADS) = (of_nat (unat blocks * 256) :: u64)"
    unfolding u32_as_u64 eq by (rule refl)
  show "0 < unat blocks * 256" using assms by (simp add: launchable_def word_greater_zero_iff unat_gt_0)
qed

lemma ucast_thread: "t < 2 ^ 32 \<Longrightarrow> ucast (of_nat t :: u32) = (of_nat t :: u64)"
  by (simp add: u32_as_u64 unat_of_nat take_bit_nat_eq_self)

lemma fill_threads_cover:
  assumes "0 < s" "W + s < 2 ^ 64" "s < 2 ^ 32" "set ts \<subseteq> {..<s}"
  shows "fill_threads (of_nat W) (of_nat s) seed (map of_nat ts) mem =
    Some (\<lambda>x. if unat x < W \<and> unat x mod s \<in> set ts then fill_pattern x seed else mem x)"
  using assms(4)
proof (induction ts arbitrary: mem)
  case (Cons t ts)
  then have t: "t < s" by simp
  then have "fill_loop (of_nat W) (of_nat s) seed (ucast (of_nat t :: u32)) mem =
      Some (\<lambda>x. if unat x \<in> visited W s t then fill_pattern x seed else mem x)"
    using assms by (simp add: ucast_thread fill_loop_visits)
  then show ?case using Cons t by (simp add: visited_thread) (auto simp: fun_eq_iff)
qed simp

lemma card_bad_split:
  assumes "distinct (t # ts)" "set (t # ts) \<subseteq> {..<s}"
  shows "card (bad_words dev seed mem {k. k < W \<and> k mod s = t}) + card (bad_words dev seed mem {k. k < W \<and> k mod s \<in> set ts})
    = card (bad_words dev seed mem {k. k < W \<and> k mod s \<in> set (t # ts)})"
proof -
  have "finite (bad_words dev seed mem {k. k < W \<and> P k})" for P
    by (rule finite_subset [of _ "{..<W}"]) (auto simp: bad_words_def)
  moreover have "bad_words dev seed mem {k. k < W \<and> k mod s \<in> set (t # ts)} =
    bad_words dev seed mem {k. k < W \<and> k mod s = t} \<union> bad_words dev seed mem {k. k < W \<and> k mod s \<in> set ts}"
    by (auto simp: bad_words_def)
  moreover have "bad_words dev seed mem {k. k < W \<and> k mod s = t} \<inter> bad_words dev seed mem {k. k < W \<and> k mod s \<in> set ts} = {}"
    using assms(1) by (auto simp: bad_words_def)
  ultimately show ?thesis by (simp add: card_Un_disjoint)
qed

lemma check_threads_count:
  assumes "0 < s" "W + s < 2 ^ 64" "s < 2 ^ 32" "set ts \<subseteq> {..<s}" "distinct ts"
  shows "check_threads dev (of_nat W) (of_nat s) seed mem (map of_nat ts) errors =
    Some (errors + of_nat (card (bad_words dev seed mem {k. k < W \<and> k mod s \<in> set ts})))"
  using assms(4,5)
proof (induction ts arbitrary: errors)
  case (Cons t ts)
  then have t: "t < s" by simp
  then have "check_loop dev (of_nat W) (of_nat s) seed mem (ucast (of_nat t :: u32)) errors =
      Some (errors + of_nat (card (bad_words dev seed mem {k. k < W \<and> k mod s = t})))"
    using assms(1-3) by (simp add: ucast_thread check_loop_counts visited_thread [OF t, symmetric])
  moreover have "(of_nat (card (bad_words dev seed mem {k. k < W \<and> k mod s \<in> set (t # ts)})) :: u32) =
    of_nat (card (bad_words dev seed mem {k. k < W \<and> k mod s = t})) + of_nat (card (bad_words dev seed mem {k. k < W \<and> k mod s \<in> set ts}))"
    unfolding card_bad_split [OF Cons.prems(2,1), symmetric] by simp
  ultimately show ?case using Cons by (simp add: algebra_simps)
qed (simp add: bad_words_def)

lemma kernels_cover:
  assumes "launchable blocks" "unat words \<le> 2 ^ 28"
  shows "fill_kernel blocks words seed mem = Some (\<lambda>x. if x < words then fill_pattern x seed else mem x)"
    and "check_kernel dev blocks words seed mem errors =
      Some (errors + of_nat (card (bad_words dev seed mem {..<unat words})))"
proof -
  define s where "s = unat blocks * 256"
  have s: "0 < s" "unat words + s < 2 ^ 64" "s < 2 ^ 32"
    using launchable_stride(2) [OF assms(1)] assms by (auto simp: s_def launchable_def)
  have W: "of_nat (unat words) = words" by simp
  have ts: "set [0..<s] \<subseteq> {..<s}" "distinct [0..<s]" by auto
  have all: "k mod s \<in> set [0..<s]" for k using s(1) by simp
  show "fill_kernel blocks words seed mem = Some (\<lambda>x. if x < words then fill_pattern x seed else mem x)"
    using fill_threads_cover [OF s ts(1), of seed mem] launchable_stride(1) [OF assms(1)] all
    by (simp add: fill_kernel_def grid_threads_all s_def [symmetric] word_less_nat_alt)
  have "{k. k < unat words \<and> k mod s \<in> set [0..<s]} = {..<unat words}" using s(1) by auto
  then show "check_kernel dev blocks words seed mem errors =
      Some (errors + of_nat (card (bad_words dev seed mem {..<unat words})))"
    using check_threads_count [OF s ts, of dev seed mem errors] launchable_stride(1) [OF assms(1)]
    by (simp add: check_kernel_def grid_threads_all s_def [symmetric])
qed

section \<open>Properties of the card test\<close>

definition driver_ok :: "cuda_driver \<Rightarrow> bool" where
  "driver_ok cuda \<longleftrightarrow> dr_init cuda = 0 \<and> dr_device_get cuda = 0 \<and> dr_attribute cuda = 0 \<and> dr_ctx_create cuda = 0
     \<and> dr_module_load cuda = 0 \<and> dr_alloc_out cuda = 0 \<and> dr_copy_results cuda = 0 \<and> dr_mem_info cuda = 0
     \<and> dr_alloc_buffer cuda = 0 \<and> dr_alloc_errors cuda = 0 \<and> dr_memset cuda = 0 \<and> dr_copy_errors cuda = 0
     \<and> (\<forall>name seed. dr_function cuda name seed = 0 \<and> dr_launch cuda name seed = 0 \<and> dr_synchronize cuda name seed = 0)"

text \<open>The hash chains and the memory words of the test come out right on the card.\<close>

definition chains_right :: "cuda_card \<Rightarrow> u32 \<Rightarrow> bool" where
  "chains_right dev blocks \<longleftrightarrow>
     (\<forall>i < unat (blocks * THREADS). hash_kernel dev HASH_ROUNDS (of_nat i) = hash (of_nat i) HASH_ROUNDS)"

definition words_right :: "cuda_card \<Rightarrow> u64 \<Rightarrow> bool" where
  "words_right dev words \<longleftrightarrow>
     (\<forall>x < words. \<forall>seed \<in> {0, - 1}. cd_word dev x (fill_pattern x seed) = fill_pattern x seed)"

lemma test_words_bound: "unat (test_bytes free div 4) \<le> 2 ^ 28"
proof -
  have "test_bytes free \<le> MAX_TEST_BYTES"
    unfolding test_bytes_def by (rule order_trans [OF word_and_le2]) simp
  then have "unat (test_bytes free) \<le> 2 ^ 30" by (simp add: MAX_TEST_BYTES_def word_le_nat_alt)
  then show ?thesis by (simp add: unat_div)
qed

lemma hash_test_ok:
  assumes "driver_ok cuda"
  shows "hash_test cuda dev blocks = Inr () \<longleftrightarrow> chains_right dev blocks"
proof -
  have "hash_test cuda dev blocks = Inr () \<longleftrightarrow>
      filter (\<lambda>index. hash_kernel dev HASH_ROUNDS index \<noteq> hash index HASH_ROUNDS) (map of_nat [0..<unat (blocks * THREADS)]) = []"
    using assms by (simp add: hash_test_def driver_ok_def cuda_check_def Let_def del: length_filter_map)
  also have "\<dots> \<longleftrightarrow> chains_right dev blocks" by (auto simp: filter_empty_conv chains_right_def)
  finally show ?thesis .
qed

lemma pattern_pass_ok:
  assumes "driver_ok cuda" "launchable blocks" "unat words \<le> 2 ^ 28"
  shows "\<exists>mem'. pattern_pass cuda dev blocks words seed (mem, errors) =
    Some (Inr (mem', errors + of_nat (card {k. k < unat words \<and>
      cd_word dev (of_nat k) (fill_pattern (of_nat k) seed) \<noteq> fill_pattern (of_nat k) seed})))"
proof -
  let ?mem = "\<lambda>x. if x < words then fill_pattern x seed else mem x"
  have "of_nat k < words" if "k < unat words" for k
    using that assms(3) by (simp add: word_less_nat_alt of_nat_u64_inject)
  then have "bad_words dev seed ?mem {..<unat words} =
      {k. k < unat words \<and> cd_word dev (of_nat k) (fill_pattern (of_nat k) seed) \<noteq> fill_pattern (of_nat k) seed}"
    by (auto simp: bad_words_def)
  then show ?thesis using assms kernels_cover [OF assms(2,3)]
    by (simp add: pattern_pass_def driver_ok_def cuda_check_def)
qed

lemma bad_seed_zero_iff:
  "card {k. k < unat words \<and> cd_word dev (of_nat k) (fill_pattern (of_nat k) seed) \<noteq> fill_pattern (of_nat k) seed} = 0 \<longleftrightarrow>
     (\<forall>x < words. cd_word dev x (fill_pattern x seed) = fill_pattern x seed)" (is "card ?B = 0 \<longleftrightarrow> ?R")
proof -
  have fin: "card ?B = 0 \<longleftrightarrow> ?B = {}"
    by (rule card_0_eq) (rule finite_subset [of _ "{..<unat words}"], auto)
  have one: "?R" if "?B = {}"
  proof (intro allI impI)
    fix x assume "x < words"
    then have "unat x < unat words" by (simp add: word_less_nat_alt)
    then show "cd_word dev x (fill_pattern x seed) = fill_pattern x seed" using that by (force dest: spec [of _ "unat x"])
  qed
  have two: "?B = {}" if ?R
  proof -
    have "of_nat k < words" if "k < unat words" for k
    proof -
      have "unat words < 2 ^ LENGTH(64)" by (rule unsigned_less)
      then have "k < 2 ^ 64" using that by simp
      then show ?thesis using that by (simp add: word_less_nat_alt of_nat_u64_inject)
    qed
    with that show ?thesis by auto
  qed
  show ?thesis unfolding fin by (rule iffI [OF one two])
qed

lemma pattern_test_ok:
  assumes "driver_ok cuda" "launchable blocks"
  shows "\<exists>r. pattern_test cuda dev blocks mem = Some r
    \<and> (r = Inr () \<longleftrightarrow> words_right dev (test_bytes (dr_free cuda) div 4))"
proof -
  let ?words = "test_bytes (dr_free cuda) div 4"
  let ?bad = "\<lambda>seed. card {k. k < unat ?words \<and> cd_word dev (of_nat k) (fill_pattern (of_nat k) seed) \<noteq> fill_pattern (of_nat k) seed}"
  note W = test_words_bound [of "dr_free cuda"]
  obtain m1 where p1: "pattern_pass cuda dev blocks ?words 0 (mem, 0) = Some (Inr (m1, 0 + of_nat (?bad 0)))"
    using pattern_pass_ok [OF assms W] by blast
  obtain m2 where p2: "pattern_pass cuda dev blocks ?words (- 1) (m1, 0 + of_nat (?bad 0)) =
      Some (Inr (m2, 0 + of_nat (?bad 0) + of_nat (?bad (- 1))))"
    using pattern_pass_ok [OF assms W] by blast
  have "?bad seed \<le> 2 ^ 28" for seed
  proof -
    have "?bad seed \<le> card {..<unat ?words}" by (rule card_mono) auto
    also have "\<dots> \<le> 2 ^ 28" using W by simp
    finally show ?thesis .
  qed
  from this [of 0] this [of "- 1"] have "?bad 0 + ?bad (- 1) < 2 ^ 32" by simp
  then have "(of_nat (?bad 0 + ?bad (- 1)) :: u32) = 0 \<longleftrightarrow> ?bad 0 = 0 \<and> ?bad (- 1) = 0"
    by (simp only: word_unat_eq_iff unat_of_nat take_bit_nat_eq_self unat_0) auto
  also have "\<dots> \<longleftrightarrow> words_right dev ?words" unfolding bad_seed_zero_iff words_right_def by auto
  finally have right: "0 < (0 + of_nat (?bad 0) + of_nat (?bad (- 1)) :: u32) \<longleftrightarrow> \<not> words_right dev ?words"
    by (simp only: of_nat_add add_0 word_neq_0_conv [symmetric])
  show ?thesis using assms(1) p1 p2 right
    by (simp add: pattern_test_def Let_def driver_ok_def cuda_check_def)
qed

lemma stuck_bit_wrong:
  assumes "b < 32" "\<And>v. bit (cd_word dev x v) b = c" "x < words"
  shows "\<not> words_right dev words"
proof
  assume "words_right dev words"
  then have "cd_word dev x (fill_pattern x 0) = fill_pattern x 0" "cd_word dev x (fill_pattern x (- 1)) = fill_pattern x (- 1)"
    using assms(3) by (simp_all add: words_right_def)
  then have "bit (fill_pattern x 0) b = c" "bit (fill_pattern x (- 1)) b = c" using assms(2) by metis+
  then show False using assms(1) by (simp add: fill_pattern_def bit_simps)
qed


definition demo_driver :: cuda_driver where
  "demo_driver = \<lparr>dr_init = 0, dr_device_get = 0, dr_attribute = 0, dr_sms = 80, dr_ctx_create = 0, dr_module_load = 0,
     dr_function = (\<lambda>_ _. 0), dr_launch = (\<lambda>_ _. 0), dr_synchronize = (\<lambda>_ _. 0), dr_alloc_out = 0, dr_copy_results = 0,
     dr_mem_info = 0, dr_free = 17179869184, dr_alloc_buffer = 0, dr_alloc_errors = 0, dr_memset = 0, dr_copy_errors = 0\<rparr>"


end
