(* ===== verification/Qualify.thy ===== *)
theory Qualify
  imports Cuda Health
begin

text \<open>
  \<open>roster qualify\<close> (src/src/resource/qualify.rs): the kernel test, then DCGM's diagnostic where it
  is installed. What \<open>dcgmi\<close> prints is an argument; its JSON is serde's value type.
\<close>

datatype json =
    JNull | JBool bool | JNumber int | JString string
  | JArray "json list"
  | JObject "(string \<times> json) list"

definition as_str_json :: "json \<Rightarrow> string option" where
  "as_str_json v = (case v of JString s \<Rightarrow> Some s | _ \<Rightarrow> None)"

definition ascii_lower :: "char \<Rightarrow> char" where
  "ascii_lower c = (if is_upper c then char_of ((of_char c :: nat) + 32) else c)"

definition eq_ignore_ascii_case :: "string \<Rightarrow> string \<Rightarrow> bool" where
  "eq_ignore_ascii_case s t \<longleftrightarrow> map ascii_lower s = map ascii_lower t"

text \<open>What \<open>walk\<close> reads of an object: the name in force there, and whether it reports a failure.\<close>

definition object_name :: "(string \<times> json) list \<Rightarrow> string option \<Rightarrow> string option" where
  "object_name obj name =
     (case Option.bind (hm_get obj ''name'') as_str_json of Some n \<Rightarrow> Some n | None \<Rightarrow> name)"

definition object_fails :: "(string \<times> json) list \<Rightarrow> bool" where
  "object_fails obj =
     (case Option.bind (hm_get obj ''status'') as_str_json of
        Some status \<Rightarrow> eq_ignore_ascii_case status ''fail'' | None \<Rightarrow> False)"

definition push_new :: "string \<Rightarrow> string list \<Rightarrow> string list" where
  "push_new n failed = (if n \<in> set failed then failed else failed @ [n])"

fun walk :: "json \<Rightarrow> string option \<Rightarrow> string list \<Rightarrow> string list"
  and walk_fields :: "(string \<times> json) list \<Rightarrow> string option \<Rightarrow> string list \<Rightarrow> string list"
  and walk_items :: "json list \<Rightarrow> string option \<Rightarrow> string list \<Rightarrow> string list" where
  "walk (JObject obj) name failed =
     (let name' = object_name obj name;
          failed' = (if object_fails obj then push_new (unwrap_or name' ''unnamed test'') failed else failed)
      in walk_fields obj name' failed')"
| "walk (JArray items) name failed = walk_items items name failed"
| "walk JNull name failed = failed"
| "walk (JBool b) name failed = failed"
| "walk (JNumber n) name failed = failed"
| "walk (JString s) name failed = failed"
| "walk_fields [] name failed = failed"
| "walk_fields ((k, child) # obj) name failed = walk_fields obj name (walk child name failed)"
| "walk_items [] name failed = failed"
| "walk_items (child # items) name failed = walk_items items name (walk child name failed)"

definition failed_tests :: "json \<Rightarrow> string list" where
  "failed_tests report = walk report None []"

text \<open>The rows of the discovery table: \<open>str::lines\<close> drops a final empty line and each \<open>\r\<close> before a newline.\<close>

definition strip_cr :: "string \<Rightarrow> string" where
  "strip_cr l = (if l \<noteq> [] \<and> last l = char_of (13 :: nat) then butlast l else l)"

definition str_lines :: "string \<Rightarrow> string list" where
  "str_lines s = (let ls = split_on (\<lambda>c. c = newline) s in map strip_cr (if last ls = [] then butlast ls else ls))"

definition first_cell :: "string \<Rightarrow> string" where
  "first_cell line = trim (hd (split_on (\<lambda>c. c = CHR ''|'') (dropWhile (\<lambda>c. c = CHR ''|'') (trim line))))"

fun discovery_rows :: "string list \<Rightarrow> string \<Rightarrow> nat option \<Rightarrow> nat option" where
  "discovery_rows [] uuid current = None"
| "discovery_rows (line # rows) uuid current =
     (let current' = (case parse_uint 32 (first_cell line) of Some n \<Rightarrow> Some n | None \<Rightarrow> current) in
      if contains line uuid then current' else discovery_rows rows uuid current')"

definition discovery_id :: "string \<Rightarrow> string \<Rightarrow> nat option" where
  "discovery_id table uuid = discovery_rows (str_lines table) uuid None"

text \<open>What running \<open>dcgmi\<close> gave: \<open>None\<close> or an error where it could not be started.\<close>

record dcgm_answers =
  dcgm_discovery :: "(bool \<times> string) option"
  dcgm_diag_run :: "nat \<Rightarrow> nat \<Rightarrow> string + (bool \<times> string \<times> json)"

definition dcgm_gpu_id :: "dcgm_answers \<Rightarrow> u32 \<Rightarrow> string option \<Rightarrow> nat option" where
  "dcgm_gpu_id dcgm index uuid =
     (case dcgm_discovery dcgm of
        None \<Rightarrow> None
      | Some (success, stdout) \<Rightarrow>
          if \<not> success then None
          else (case uuid of Some u \<Rightarrow> discovery_id stdout u | None \<Rightarrow> Some (unat index)))"

definition dcgm_diag :: "dcgm_answers \<Rightarrow> nat \<Rightarrow> nat \<Rightarrow> string + unit" where
  "dcgm_diag dcgm gpu level =
     (case dcgm_diag_run dcgm level gpu of
        Inl error \<Rightarrow> Inl (''dcgmi: '' @ error)
      | Inr (success, status, report) \<Rightarrow>
          (let failed = failed_tests report in
           if failed \<noteq> [] then Inl (''DCGM level '' @ dec level @ '' failed: '' @ join '', '' failed)
           else if \<not> success then Inl (''DCGM level '' @ dec level @ '' exited with '' @ status)
           else Inr ()))"

definition qualify_test :: "(string + unit) option \<Rightarrow> dcgm_answers \<Rightarrow> u32 \<Rightarrow> string option \<Rightarrow> bool \<Rightarrow> string + string" where
  "qualify_test kt dcgm index uuid retest =
     (let level = (if retest then 2 else 1);
          dcgm_part = (\<lambda>passed.
            case dcgm_gpu_id dcgm index uuid of
              None \<Rightarrow> Inr passed
            | Some gpu \<Rightarrow> (case dcgm_diag dcgm gpu level of
                Inl e \<Rightarrow> Inl e
              | Inr _ \<Rightarrow> Inr (passed @ [''DCGM level '' @ dec level])));
          finish = (\<lambda>r. case r of
              Inl e \<Rightarrow> Inl e
            | Inr passed \<Rightarrow> if passed = [] then Inr ''no test available here''
                            else Inr (join '' and '' passed @ '' passed'')) in
      case kt of
        Some (Inr _) \<Rightarrow> finish (dcgm_part [''kernel test''])
      | Some (Inl reason) \<Rightarrow> Inl (''kernel test: '' @ reason)
      | None \<Rightarrow> finish (dcgm_part []))"

text \<open>
  \<open>run\<close>: the report sent to the daemon as \<open>GpuQualified\<close>, its two obj the verdict and the
  reason, and the command's own result given the reply, \<open>None\<close> an unexpected one.
\<close>

definition qualify_report :: "string + string \<Rightarrow> bool \<times> string" where
  "qualify_report result = (case result of Inr tests \<Rightarrow> (True, tests) | Inl reason \<Rightarrow> (False, reason))"

definition qualify_run :: "u32 \<Rightarrow> string + string \<Rightarrow> string + unit \<Rightarrow> string + string" where
  "qualify_run index result reply =
     (let (passed, reason) = qualify_report result in
      case reply of
        Inl other \<Rightarrow> Inl other
      | Inr _ \<Rightarrow> if \<not> passed then Inl (''GPU '' @ dec (unat index) @ '' failed qualification: '' @ reason)
                 else Inr (''GPU '' @ dec (unat index) @ '' qualified: '' @ reason))"

section \<open>Facts\<close>

text \<open>
  The specification of a failure: an object anywhere in the report whose status is "fail", named
  by the nearest enclosing object that has a name.
\<close>

inductive reports_failure :: "json \<Rightarrow> string option \<Rightarrow> string \<Rightarrow> bool" where
  rf_here: "object_fails obj \<Longrightarrow>
     reports_failure (JObject obj) name (unwrap_or (object_name obj name) ''unnamed test'')"
| rf_field: "(k, child) \<in> set obj \<Longrightarrow> reports_failure child (object_name obj name) n
     \<Longrightarrow> reports_failure (JObject obj) name n"
| rf_item: "child \<in> set items \<Longrightarrow> reports_failure child name n \<Longrightarrow> reports_failure (JArray items) name n"

inductive_simps reports_failure_simps:
  "reports_failure (JObject obj) name n" "reports_failure (JArray items) name n"
  "reports_failure JNull name n" "reports_failure (JBool b) name n"
  "reports_failure (JNumber i) name n" "reports_failure (JString s) name n"

lemma set_push_new [simp]: "set (push_new n failed) = insert n (set failed)"
  by (auto simp: push_new_def)

lemma distinct_push_new: "distinct failed \<Longrightarrow> distinct (push_new n failed)"
  by (simp add: push_new_def)

lemma walk_set:
  "set (walk v name failed) = set failed \<union> {n. reports_failure v name n}"
  "set (walk_fields obj name failed) = set failed \<union> {n. \<exists>(k, child) \<in> set obj. reports_failure child name n}"
  "set (walk_items items name failed) = set failed \<union> {n. \<exists>child \<in> set items. reports_failure child name n}"
proof (induction v name failed and obj name failed and items name failed rule: walk_walk_fields_walk_items.induct)
  case (1 obj name failed)
  then show ?case by (auto simp: Let_def reports_failure_simps)
qed (auto simp: reports_failure_simps)

lemma walk_distinct:
  "distinct failed \<Longrightarrow> distinct (walk v name failed)"
  "distinct failed \<Longrightarrow> distinct (walk_fields obj name failed)"
  "distinct failed \<Longrightarrow> distinct (walk_items items name failed)"
  by (induction v name failed and obj name failed and items name failed rule: walk_walk_fields_walk_items.induct)
    (auto simp: Let_def distinct_push_new)

lemma discovery_rows_result:
  assumes "discovery_rows rows uuid current = Some n" "current = None"
  shows "\<exists>before row after k. rows = before @ row # after \<and> contains row uuid
    \<and> (\<forall>r \<in> set before. \<not> contains r uuid)
    \<and> k < Suc (length before) \<and> parse_uint 32 (first_cell ((before @ [row]) ! k)) = Some n
    \<and> (\<forall>j. k < j \<and> j < Suc (length before) \<longrightarrow> parse_uint 32 (first_cell ((before @ [row]) ! j)) = None)"
proof -
  have "discovery_rows rows uuid current = Some n \<Longrightarrow>
    \<exists>before row after. rows = before @ row # after \<and> contains row uuid \<and> (\<forall>r \<in> set before. \<not> contains r uuid)
      \<and> ((current = Some n \<and> (\<forall>j < Suc (length before). parse_uint 32 (first_cell ((before @ [row]) ! j)) = None))
        \<or> (\<exists>k < Suc (length before). parse_uint 32 (first_cell ((before @ [row]) ! k)) = Some n
           \<and> (\<forall>j. k < j \<and> j < Suc (length before) \<longrightarrow> parse_uint 32 (first_cell ((before @ [row]) ! j)) = None)))"
    for current
  proof (induction rows uuid current rule: discovery_rows.induct)
    case (2 line rows uuid current)
    let ?p = "\<lambda>l. parse_uint 32 (first_cell l)"
    define current' where "current' = (case ?p line of Some n \<Rightarrow> Some n | None \<Rightarrow> current)"
    show ?case
    proof (cases "contains line uuid")
      case True
      then have "current' = Some n" using "2.prems" by (simp add: current'_def)
      then show ?thesis using True
        by (intro exI [of _ "[]"] exI [of _ line] exI [of _ rows]) (auto simp: current'_def split: option.splits)
    next
      case False
      then have "discovery_rows rows uuid current' = Some n" using "2.prems" by (simp add: current'_def)
      from "2.IH" [OF current'_def False] this obtain before row after where IH: "rows = before @ row # after"
        "contains row uuid" "\<forall>r \<in> set before. \<not> contains r uuid"
        "(current' = Some n \<and> (\<forall>j < Suc (length before). ?p ((before @ [row]) ! j) = None))
         \<or> (\<exists>k < Suc (length before). ?p ((before @ [row]) ! k) = Some n
           \<and> (\<forall>j. k < j \<and> j < Suc (length before) \<longrightarrow> ?p ((before @ [row]) ! j) = None))"
        by blast
      have "(current = Some n \<and> (\<forall>j < Suc (length (line # before)). ?p (((line # before) @ [row]) ! j) = None))
         \<or> (\<exists>k < Suc (length (line # before)). ?p (((line # before) @ [row]) ! k) = Some n
           \<and> (\<forall>j. k < j \<and> j < Suc (length (line # before)) \<longrightarrow> ?p (((line # before) @ [row]) ! j) = None))"
        using IH(4)
      proof
        assume a: "current' = Some n \<and> (\<forall>j < Suc (length before). ?p ((before @ [row]) ! j) = None)"
        show ?thesis
        proof (cases "?p line")
          case None
          then show ?thesis using a by (auto simp: current'_def less_Suc_eq_0_disj)
        next
          case (Some m)
          then show ?thesis using a by (intro disjI2 exI [of _ 0]) (auto simp: current'_def gr0_conv_Suc)
        qed
      next
        assume "\<exists>k < Suc (length before). ?p ((before @ [row]) ! k) = Some n
           \<and> (\<forall>j. k < j \<and> j < Suc (length before) \<longrightarrow> ?p ((before @ [row]) ! j) = None)"
        then obtain k where k: "k < Suc (length before)" "?p ((before @ [row]) ! k) = Some n"
          "\<forall>j. k < j \<and> j < Suc (length before) \<longrightarrow> ?p ((before @ [row]) ! j) = None" by blast
        then show ?thesis by (intro disjI2 exI [of _ "Suc k"]) (auto simp: Suc_less_eq2)
      qed
      then show ?thesis using IH(1-3) False
        by (intro exI [of _ "line # before"] exI [of _ row] exI [of _ after]) simp
    qed
  qed simp
  from this [OF assms(1)] assms(2) show ?thesis by auto
qed

section \<open>Properties of qualification\<close>

lemma failed_tests_empty_iff: "failed_tests report = [] \<longleftrightarrow> (\<nexists>n. reports_failure report None n)"
  using walk_set(1) [of report None "[]"] by (auto simp: failed_tests_def simp flip: set_empty)

lemma dcgm_diag_passes_iff:
  "dcgm_diag dcgm gpu level = Inr () \<longleftrightarrow>
     (\<exists>status report. dcgm_diag_run dcgm level gpu = Inr (True, status, report) \<and> (\<nexists>n. reports_failure report None n))"
  by (auto simp: dcgm_diag_def Let_def failed_tests_empty_iff split: sum.split)

lemma qualify_test_passes_iff:
  "(\<exists>tests. qualify_test kt dcgm index uuid retest = Inr tests) \<longleftrightarrow>
     (\<forall>reason. kt \<noteq> Some (Inl reason))
     \<and> (\<forall>gpu. dcgm_gpu_id dcgm index uuid = Some gpu \<longrightarrow> dcgm_diag dcgm gpu (if retest then 2 else 1) = Inr ())"
  by (auto simp: qualify_test_def Let_def split: option.split sum.split)

text \<open>
  Whatever the layout of a DCGM report, the failed tests are exactly the names of the
  objects in it that report a failure, each once: a failure anywhere in the report is seen, and
  nothing else is. So the diagnostic passes a card exactly when it ran, exited well and its
  report has no failure in it.
\<close>

theorem dcgm_report_verdict:
  "set (failed_tests report) = {n. reports_failure report None n} \<and> distinct (failed_tests report)
   \<and> (dcgm_diag dcgm gpu level = Inr () \<longleftrightarrow>
       (\<exists>status report. dcgm_diag_run dcgm level gpu = Inr (True, status, report) \<and> (\<nexists>n. reports_failure report None n)))"
  using walk_set(1) [of report None "[]"] walk_distinct(1) [of "[]" report None] dcgm_diag_passes_iff
  by (simp add: failed_tests_def)

text \<open>
  The id handed to DCGM for a card with a UUID is the one in the last numbered row at or
  above the first row of the discovery table that lists the UUID; no id is made up when the
  table does not list the card.
\<close>

theorem discovery_id_nearest_above:
  assumes "discovery_id table uuid = Some n"
  shows "\<exists>before row after k. str_lines table = before @ row # after \<and> contains row uuid
    \<and> (\<forall>r \<in> set before. \<not> contains r uuid)
    \<and> k < Suc (length before) \<and> parse_uint 32 (first_cell ((before @ [row]) ! k)) = Some n
    \<and> (\<forall>j. k < j \<and> j < Suc (length before) \<longrightarrow> parse_uint 32 (first_cell ((before @ [row]) ! j)) = None)"
  using discovery_rows_result [OF assms [unfolded discovery_id_def] refl] by blast

definition demo_table :: string where
  "demo_table = ''|0|A|'' @ [newline] @ ''|1|B|'' @ [newline] @ ''| |G|''"

lemma demo_table_eval:
  "str_lines demo_table = [''|0|A|'', ''|1|B|'', ''| |G|'']"
  "first_cell ''|0|A|'' = ''0''" "first_cell ''|1|B|'' = ''1''" "first_cell ''| |G|'' = []"
  by code_simp+

lemma demo_cells:
  "parse_uint 32 ''0'' = Some 0" "parse_uint 32 ''1'' = Some 1" "parse_uint 32 [] = None"
  by (simp_all add: parse_uint_def is_digit_def digits_val_def digit_val_def)

theorem discovery_id_nearest_above_witness:
  "discovery_id demo_table ''G'' = Some 1
   \<and> (\<exists>before row after. str_lines demo_table = before @ row # after \<and> contains row ''G'')"
proof -
  have "discovery_id demo_table ''G'' = Some 1"
    by (simp add: discovery_id_def demo_table_eval demo_cells is_prefix_def)
  from this discovery_id_nearest_above [OF this] show ?thesis by blast
qed



end
