(* ===== verification/Command_Line.thy ===== *)
theory Command_Line
  imports Instance Qualify
begin

text \<open>
  The commands that start and stop the daemon (src/src/main.rs) and the client they use
  (src/src/ipc/client.rs). A command changes the world: the clock, the systemd unit, nodes.yaml, the
  files of the daemons, what was printed, sent, run, signalled and spawned. What the outside answers
  is a function of that world, so it may depend on everything done so far and on the time. Errors
  are texts in anyhow's one-line form, a context first. \<open>None\<close> is a command that does not come to
  an end of its own: it waits for an answer that never comes, or it panics.
\<close>

section \<open>The world\<close>

record world =
  wd_time :: nat
  wd_unit :: "string option"
  wd_nodes :: file_read
  wd_host :: host
  wd_out :: string
  wd_sent :: "request list"
  wd_ran :: "(string \<times> string list) list"
  wd_signalled :: "i32 list"
  wd_spawned :: "(string \<times> string list \<times> (string \<times> string) list) list"

text \<open>What asking the daemon gives; a refused connection sends nothing.\<close>

datatype client_answer = ConnectionRefused string | ConnectionLost string | Unanswered | Answered response

text \<open>
  \<open>ou_run\<close> is the success and the error output of a program that ran, \<open>ou_alive\<close> what signal 0 finds,
  \<open>ou_exited\<close> what \<open>try_wait\<close> gives, \<open>ou_lag\<close> and \<open>ou_late\<close> the time an answer and a sleep take. The
  fields from \<open>ou_codecs\<close> on are what the daemon started in the foreground uses.
\<close>

record outside =
  ou_env :: environment
  ou_ask :: "request \<Rightarrow> world \<Rightarrow> client_answer"
  ou_lag :: "world \<Rightarrow> nat"
  ou_late :: "world \<Rightarrow> nat"
  ou_run :: "string \<Rightarrow> string list \<Rightarrow> world \<Rightarrow> string + bool \<times> string"
  ou_kill :: "i32 \<Rightarrow> world \<Rightarrow> string + unit"
  ou_alive :: "i32 \<Rightarrow> world \<Rightarrow> bool"
  ou_spawn :: "world \<Rightarrow> string + unit"
  ou_exited :: "world \<Rightarrow> string + string option"
  ou_exe :: "string + string"
  ou_canonical :: "string \<Rightarrow> string + string"
  ou_log_dir :: "string + unit"
  ou_log_open :: "string + unit"
  ou_rust_log :: bool
  ou_unit_dir :: "string + unit"
  ou_unit_write :: "string + unit"
  ou_unit_remove :: "string + unit"
  ou_resources_file :: "string \<Rightarrow> string + string + system_resources"
  ou_inventory :: "nat \<times> u64 \<times> nvml_answers option"
  ou_debug :: "response \<Rightarrow> string"
  ou_now :: datetime
  ou_opened :: "node_config \<Rightarrow> string + node_info"
  ou_codecs :: codecs
  ou_machine :: machine
  ou_pid :: u32
  ou_db :: "string + store"
  ou_db_read :: "string option"
  ou_socket_dir :: "string option"
  ou_events :: "listen_event list"

type_synonym 'a command = "world \<Rightarrow> ((string + 'a) \<times> world) option"

section \<open>Sequences of calls\<close>

definition returns :: "'a \<Rightarrow> 'a command" where
  "returns x = (\<lambda>w. Some (Inr x, w))"

definition bail :: "string \<Rightarrow> 'a command" where
  "bail e = (\<lambda>w. Some (Inl e, w))"

definition and_then :: "'a command \<Rightarrow> ('a \<Rightarrow> 'b command) \<Rightarrow> 'b command" where
  "and_then c f = (\<lambda>w. case c w of
     None \<Rightarrow> None
   | Some (Inl e, w') \<Rightarrow> Some (Inl e, w')
   | Some (Inr x, w') \<Rightarrow> f x w')"

definition with_context :: "string \<Rightarrow> 'a command \<Rightarrow> 'a command" where
  "with_context text' c = (\<lambda>w. case c w of
     Some (Inl e, w') \<Rightarrow> Some (Inl (text' @ '': '' @ e), w')
   | r \<Rightarrow> r)"

definition attempt :: "string + 'a \<Rightarrow> 'a command" where
  "attempt r = (\<lambda>w. Some (r, w))"

text \<open>\<open>expect\<close>: a path that needs HOME where it is not set.\<close>

definition expected :: "'a option \<Rightarrow> 'a command" where
  "expected x = (\<lambda>w. map_option (\<lambda>y. (Inr y, w)) x)"

definition println :: "string \<Rightarrow> unit command" where
  "println s = (\<lambda>w. Some (Inr (), w\<lparr>wd_out := wd_out w @ s @ [newline]\<rparr>))"

section \<open>Asking the daemon\<close>

definition client_send :: "outside \<Rightarrow> request \<Rightarrow> response command" where
  "client_send ou req = and_then (expected (socket_path (ou_env ou))) (\<lambda>_ w.
     let w' = w\<lparr>wd_time := wd_time w + ou_lag ou w, wd_sent := wd_sent w @ [req]\<rparr> in
     case ou_ask ou req w of
       ConnectionRefused e \<Rightarrow> Some (Inl e, w)
     | ConnectionLost e \<Rightarrow> Some (Inl e, w')
     | Unanswered \<Rightarrow> None
     | Answered r \<Rightarrow> Some (Inr r, w'))"

definition daemon_info :: "outside \<Rightarrow> node_info option command" where
  "daemon_info ou = and_then (expected (socket_path (ou_env ou))) (\<lambda>_ w.
     let w' = w\<lparr>wd_time := wd_time w + ou_lag ou w, wd_sent := wd_sent w @ [Info]\<rparr> in
     case ou_ask ou Info w of
       ConnectionRefused _ \<Rightarrow> Some (Inr None, w)
     | ConnectionLost e \<Rightarrow> Some (Inl e, w')
     | Unanswered \<Rightarrow> None
     | Answered (InfoReply info) \<Rightarrow> Some (Inr (Some info), w')
     | Answered other \<Rightarrow> Some (Inl (''unexpected reply: '' @ ou_debug ou other), w'))"

definition unit_exists :: "outside \<Rightarrow> bool command" where
  "unit_exists ou = and_then (expected (unit_path (ou_env ou))) (\<lambda>_ w. Some (Inr (wd_unit w \<noteq> None), w))"

definition run_program :: "outside \<Rightarrow> string \<Rightarrow> string list \<Rightarrow> unit command" where
  "run_program ou prog args = (\<lambda>w.
     case ou_run ou prog args w of
       Inl e \<Rightarrow> Some (Inl (''failed to run '' @ prog @ '': '' @ e), w)
     | Inr (success, stderr) \<Rightarrow>
         let w' = w\<lparr>wd_ran := wd_ran w @ [(prog, args)]\<rparr> in
         if success then Some (Inr (), w')
         else Some (Inl (''`'' @ prog @ '' '' @ join '' '' args @ ''` failed: '' @ trim (from_utf8_lossy stderr)), w'))"

definition sleep :: "outside \<Rightarrow> nat \<Rightarrow> world \<Rightarrow> world" where
  "sleep ou ms w = w\<lparr>wd_time := wd_time w + ms + ou_late ou w\<rparr>"

section \<open>Waiting for the daemon\<close>

definition JOURNAL :: string where
  "JOURNAL = ''journalctl --user -u roster''"

text \<open>The loop; \<open>child\<close> says whether there is a process to watch.\<close>

partial_function (option) wait_loop :: "outside \<Rightarrow> bool \<Rightarrow> string \<Rightarrow> nat \<Rightarrow> world \<Rightarrow> ((string + node_info) \<times> world) option" where
  "wait_loop ou child log deadline w =
     (case daemon_info ou w of
        None \<Rightarrow> None
      | Some (Inl e, w') \<Rightarrow> Some (Inl e, w')
      | Some (Inr (Some info), w') \<Rightarrow> Some (Inr info, w')
      | Some (Inr None, w') \<Rightarrow>
          (case (if child then ou_exited ou w' else Inr None) of
             Inl e \<Rightarrow> Some (Inl e, w')
           | Inr (Some status) \<Rightarrow> Some (Inl (''daemon exited ('' @ status @ ''), see '' @ log), w')
           | Inr None \<Rightarrow>
               if deadline \<le> wd_time w' then Some (Inl (''daemon did not answer within 60 s, see '' @ log), w')
               else wait_loop ou child log deadline (sleep ou 100 w')))"

definition wait_for_daemon :: "outside \<Rightarrow> bool \<Rightarrow> string \<Rightarrow> node_info command" where
  "wait_for_daemon ou child log = (\<lambda>w. wait_loop ou child log (wd_time w + 60000) w)"

text \<open>After the signal: as long as the process is there, for 10 s.\<close>

function wait_exit :: "outside \<Rightarrow> u32 \<Rightarrow> i32 \<Rightarrow> nat \<Rightarrow> world \<Rightarrow> (string + unit) \<times> world" where
  "wait_exit ou shown pid deadline w =
     (if \<not> ou_alive ou pid w then (Inr (), w)
      else if deadline \<le> wd_time w
      then (Inl (''daemon (pid '' @ dec (unat shown) @ '') still running 10 s after SIGTERM''), w)
      else wait_exit ou shown pid deadline (sleep ou 100 w))"
  by pat_completeness auto
termination
  by (relation "measure (\<lambda>(ou, shown, pid, deadline, w). deadline - wd_time w)") (auto simp: sleep_def)

declare wait_exit.simps [simp del]

section \<open>The commands\<close>

text \<open>An inventory file, or this machine's discovered one.\<close>

definition load_resources :: "outside \<Rightarrow> string option \<Rightarrow> system_resources command" where
  "load_resources ou path =
     (case path of
        None \<Rightarrow> (case ou_inventory ou of (cpus, memory, nvml) \<Rightarrow> returns (discover cpus memory nvml))
      | Some p \<Rightarrow> (case ou_resources_file ou p of
          Inl e \<Rightarrow> bail (''failed to read '' @ p @ '': '' @ e)
        | Inr (Inl e) \<Rightarrow> bail (''invalid resources file '' @ p @ '': '' @ e)
        | Inr (Inr resources) \<Rightarrow> returns resources))"

definition kill_process :: "outside \<Rightarrow> i32 \<Rightarrow> unit command" where
  "kill_process ou pid = (\<lambda>w. case ou_kill ou pid w of
     Inl e \<Rightarrow> Some (Inl e, w)
   | Inr _ \<Rightarrow> Some (Inr (), w\<lparr>wd_signalled := wd_signalled w @ [pid]\<rparr>))"

definition stopped :: "node_info \<Rightarrow> unit command" where
  "stopped info = println (''stopped (pid '' @ dec (unat (ni_pid info)) @ '')'')"

text \<open>What \<open>stop\<close> does once it may: through systemd where the unit exists, else by signal.\<close>

definition end_daemon :: "outside \<Rightarrow> node_info \<Rightarrow> unit command" where
  "end_daemon ou info = and_then (unit_exists ou) (\<lambda>enabled.
     if enabled then and_then (run_program ou ''systemctl'' [''--user'', ''stop'', ''roster'']) (\<lambda>_. stopped info)
     else
       let pid = as_i32 (int (unat (ni_pid info))) in
       and_then (with_context ''failed to signal the daemon'' (kill_process ou pid))
         (\<lambda>_. and_then (\<lambda>w. Some (wait_exit ou (ni_pid info) pid (wd_time w + 10000) w)) (\<lambda>_. stopped info)))"

definition stop :: "outside \<Rightarrow> bool \<Rightarrow> unit command" where
  "stop ou force = and_then (daemon_info ou) (\<lambda>answer. case answer of
     None \<Rightarrow> println ''not running''
   | Some info \<Rightarrow>
       if ni_running_jobs info > 0 \<and> \<not> ni_jobs_survive_restart info \<and> \<not> force
       then bail (dec (ni_running_jobs info) @ '' jobs are running and would keep running untracked; wait for them or use --force'')
       else end_daemon ou info)"

definition spawn_daemon :: "outside \<Rightarrow> string \<Rightarrow> string option \<Rightarrow> unit command" where
  "spawn_daemon ou exe resources = (\<lambda>w. case ou_spawn ou w of
     Inl e \<Rightarrow> Some (Inl (''failed to start the daemon: '' @ e), w)
   | Inr _ \<Rightarrow> Some (Inr (), w\<lparr>wd_spawned := wd_spawned w @
       [(exe, [''start'', ''--foreground''] @ (case resources of Some p \<Rightarrow> [''--resources'', p] | None \<Rightarrow> []),
         if ou_rust_log ou then [] else [(''RUST_LOG'', ''info'')])]\<rparr>))"

definition start :: "outside \<Rightarrow> string option \<Rightarrow> unit command" where
  "start ou resources = and_then (daemon_info ou) (\<lambda>answer. case answer of
     Some info \<Rightarrow> println (''already running (pid '' @ dec (unat (ni_pid info)) @ '')'')
   | None \<Rightarrow> and_then (unit_exists ou) (\<lambda>enabled.
       if enabled
       then if resources \<noteq> None
         then bail ''the daemon runs under systemd; change its inventory with `roster enable --resources FILE`''
         else and_then (run_program ou ''systemctl'' [''--user'', ''start'', ''roster''])
           (\<lambda>_. and_then (wait_for_daemon ou False JOURNAL)
           (\<lambda>info. println (''started (pid '' @ dec (unat (ni_pid info)) @ ''), log `'' @ JOURNAL @ ''`'')))
       else and_then (expected (daemon_log_path (ou_env ou))) (\<lambda>log.
         and_then (attempt (ou_log_dir ou)) (\<lambda>_.
         and_then (with_context (''failed to open '' @ log) (attempt (ou_log_open ou))) (\<lambda>_.
         and_then (attempt (ou_exe ou)) (\<lambda>exe.
         and_then (spawn_daemon ou exe resources) (\<lambda>_.
         and_then (wait_for_daemon ou True log) (\<lambda>info.
         println (''started (pid '' @ dec (unat (ni_pid info)) @ ''), log '' @ log)))))))))"

text \<open>The unit; a line is followed by a newline character.\<close>

definition in_quotes :: "string \<Rightarrow> string" where
  "in_quotes s = [CHR 0x22] @ s @ [CHR 0x22]"

definition unit_text :: "string \<Rightarrow> string" where
  "unit_text exec = concat (map (\<lambda>l. l @ [newline])
     [''[Unit]'', ''Description=roster daemon'', '''', ''[Service]'', ''ExecStart='' @ exec, ''Environment=RUST_LOG=info'',
      ''KillMode=process'', ''Restart=on-failure'', '''', ''[Install]'', ''WantedBy=default.target''])"

definition unit_file :: "outside \<Rightarrow> string option \<Rightarrow> string command" where
  "unit_file ou resources = and_then (attempt (ou_exe ou)) (\<lambda>exe.
     let exec = in_quotes exe @ '' start --foreground'' in
     case resources of
       None \<Rightarrow> returns (unit_text exec)
     | Some p \<Rightarrow> and_then (with_context (''no resources file '' @ p) (attempt (ou_canonical ou p)))
         (\<lambda>path. returns (unit_text (exec @ '' --resources '' @ in_quotes path))))"

definition write_unit :: "outside \<Rightarrow> string \<Rightarrow> unit command" where
  "write_unit ou text' = and_then (attempt (ou_unit_dir ou)) (\<lambda>_. and_then (attempt (ou_unit_write ou))
     (\<lambda>_ w. Some (Inr (), w\<lparr>wd_unit := Some text'\<rparr>)))"

definition read_unit :: "string option command" where
  "read_unit = (\<lambda>w. Some (Inr (wd_unit w), w))"

definition when_command :: "bool \<Rightarrow> unit command \<Rightarrow> unit command" where
  "when_command b c = (if b then c else returns ())"

text \<open>\<open>enable\<close> in its parts: a daemon started by hand is stopped, the unit installed, the service started.\<close>

definition hand_over :: "outside \<Rightarrow> bool \<Rightarrow> unit command" where
  "hand_over ou enabled = when_command (\<not> enabled)
     (and_then (daemon_info ou) (\<lambda>info. when_command (info \<noteq> None) (stop ou False)))"

definition install_unit :: "outside \<Rightarrow> string option \<Rightarrow> bool \<Rightarrow> unit command" where
  "install_unit ou resources enabled = when_command (\<not> enabled \<or> resources \<noteq> None)
     (and_then (unit_file ou resources) (\<lambda>text'. and_then read_unit (\<lambda>old.
      when_command (old \<noteq> Some text')
        (and_then (write_unit ou text') (\<lambda>_.
         and_then (run_program ou ''systemctl'' [''--user'', ''daemon-reload'']) (\<lambda>_.
         when_command enabled (println ''unit updated, run `roster restart` to apply'')))))))"

definition enable_now :: "outside \<Rightarrow> unit command" where
  "enable_now ou =
     and_then (run_program ou ''systemctl'' [''--user'', ''enable'', ''--now'', ''roster'']) (\<lambda>_.
     and_then (wait_for_daemon ou False JOURNAL) (\<lambda>info.
     println (''enabled, running (pid '' @ dec (unat (ni_pid info)) @ ''), log `'' @ JOURNAL @ ''`'')))"

definition enable :: "outside \<Rightarrow> string option \<Rightarrow> unit command" where
  "enable ou resources =
     and_then (with_context ''run `sudo loginctl enable-linger $USER` once, then `roster enable` again''
       (run_program ou ''loginctl'' [''enable-linger''])) (\<lambda>_.
     and_then (unit_exists ou) (\<lambda>enabled.
     and_then (hand_over ou enabled) (\<lambda>_.
     and_then (install_unit ou resources enabled) (\<lambda>_.
     enable_now ou))))"

definition remove_unit :: "outside \<Rightarrow> unit command" where
  "remove_unit ou = and_then (attempt (ou_unit_remove ou)) (\<lambda>_ w. Some (Inr (), w\<lparr>wd_unit := None\<rparr>))"

definition disable :: "outside \<Rightarrow> bool \<Rightarrow> unit command" where
  "disable ou force = and_then (unit_exists ou) (\<lambda>enabled.
     if \<not> enabled then println ''not enabled''
     else and_then (stop ou force) (\<lambda>_.
       and_then (run_program ou ''systemctl'' [''--user'', ''disable'', ''roster'']) (\<lambda>_.
       and_then (remove_unit ou) (\<lambda>_.
       and_then (run_program ou ''systemctl'' [''--user'', ''daemon-reload'']) (\<lambda>_.
       println ''disabled'')))))"

definition restart :: "outside \<Rightarrow> string option \<Rightarrow> bool \<Rightarrow> unit command" where
  "restart ou resources force = and_then (stop ou force) (\<lambda>_. start ou resources)"

text \<open>
  The daemon in this process: it does not start, nor open a tunnel, when one answers. \<open>connect\<close> is
  given the local end of each tunnel, whose path needs what the socket's path needs.
\<close>

definition run_daemon :: "outside \<Rightarrow> system_resources \<Rightarrow> node list \<times> resource_pool list \<Rightarrow> unit command" where
  "run_daemon ou resources nodes_pools = (\<lambda>w.
     case daemon_run (ou_codecs ou) (ou_env ou) (ou_machine ou) (ou_now ou) (ou_pid ou) resources (fst nodes_pools) (snd nodes_pools)
       (ou_db ou) (ou_db_read ou) (ou_socket_dir ou) (ou_events ou) (wd_host w) of
       None \<Rightarrow> None
     | Some (result, cap, h) \<Rightarrow>
         Some (map_sum id (\<lambda>_. ()) result,
               w\<lparr>wd_host := h, wd_ran := wd_ran w @ (case cap of Some args \<Rightarrow> [(''systemctl'', args)] | None \<Rightarrow> [])\<rparr>))"

definition start_foreground :: "outside \<Rightarrow> string option \<Rightarrow> unit command" where
  "start_foreground ou resources = and_then (daemon_info ou) (\<lambda>answer. case answer of
     Some info \<Rightarrow> bail (''a daemon is already running here (pid '' @ dec (unat (ni_pid info)) @ '')'')
   | None \<Rightarrow> and_then (load_resources ou resources) (\<lambda>inventory.
       and_then (expected (nodes_path (ou_env ou))) (\<lambda>path.
       and_then (\<lambda>w. Some (nodes_load path (wd_nodes w), w)) (\<lambda>configs.
       and_then (attempt (connect (ou_now ou) inventory (ou_opened ou)
         (\<lambda>name. unwrap_or (node_socket_path (ou_env ou) name) []) configs))
       (\<lambda>nodes_pools. run_daemon ou inventory nodes_pools)))))"

end
