(* ===== verification/Command_Main.thy ===== *)
theory Command_Main
  imports Command_Line
begin

text \<open>
  What the commands print, and \<open>main\<close>'s choice of the command (src/src/main.rs). The JSON forms and
  the local time are arguments. Columns are padded by characters, of which an ASCII text has as
  many as bytes.
\<close>

section \<open>Reports\<close>

definition pad :: "nat \<Rightarrow> string \<Rightarrow> string" where
  "pad n s = s @ replicate (n - length s) (CHR '' '')"

definition gpu_line :: "gpu_info \<Rightarrow> string \<Rightarrow> gpu_health option \<Rightarrow> string option \<Rightarrow> string" where
  "gpu_line gpu mem health_of note =
     ''gpu '' @ pad 3 (dec (unat (gi_index gpu))) @ '' '' @ gi_name gpu @ '', '' @ mem
     @ (case health_of of Some h \<Rightarrow> health_display h | None \<Rightarrow> []) @ unwrap_or note []"

definition info_lines :: "node_info \<Rightarrow> string list" where
  "info_lines info =
     [''roster '' @ ni_version info @ '', daemon pid '' @ dec (unat (ni_pid info)) @ '', '' @ dec (ni_running_jobs info) @ '' jobs running'',
      ''socket  '' @ ni_socket info,
      ''cpu     '' @ dec (unat (cpu_cores (ni_resources info))) @ '' cores'',
      ''memory  '' @ dec (unat (memory_mb (ni_resources info))) @ '' MB'']
     @ (if gpus (ni_resources info) = [] then [''gpu     none''] else [])
     @ map (\<lambda>gpu.
         let h = find (\<lambda>h. gh_index h = gi_index gpu) (ni_gpu_health info) in
         gpu_line gpu (dec (unat (gi_vram_mb gpu)) @ '' MB'') h
           (map_option (\<lambda>reason. '', quarantined: '' @ reason) (Option.bind h quarantined)))
       (gpus (ni_resources info))"

definition node_lines :: "(string \<Rightarrow> datetime \<Rightarrow> string) \<Rightarrow> node_status \<Rightarrow> string list" where
  "node_lines local_time st =
     (let held = (if ns_online st \<or> ns_running_jobs st = 0 then [] else '', held until the node answers'') in
     [''node    '' @ ns_name st @ '' ('' @ unwrap_or (ns_ssh st) ''this machine'' @ '')'',
      ''state   '' @ ns_state st @ '', since '' @ local_time ''%Y-%m-%d %H:%M:%S'' (ns_since st),
      ''jobs    '' @ dec (ns_running_jobs st) @ '' running'' @ held,
      ''cpu     '' @ dec (unat (ns_free_cpu st)) @ ''/'' @ dec (unat (cpu_cores (ns_total st))) @ '' cores free'',
      ''memory  '' @ dec (unat (ns_free_memory_mb st)) @ ''/'' @ dec (unat (memory_mb (ns_total st))) @ '' MB free'']
     @ (if gpus (ns_total st) = [] then [''gpu     none''] else [])
     @ map (\<lambda>(gpu, free).
         let h = find (\<lambda>h. gh_index h = gi_index gpu) (ns_gpu_health st) in
         gpu_line gpu (dec (unat free) @ ''/'' @ dec (unat (gi_vram_mb gpu)) @ '' MB free'') h
           (map_option (\<lambda>reason. '', not handed out: '' @ reason)
             (Option.bind h (\<lambda>h. health_blocked h (free = gi_vram_mb gpu)))))
       (zip (gpus (ns_total st)) (ns_free_vram_mb st)))"

definition offline_row :: "node_config \<Rightarrow> string" where
  "offline_row c = pad 12 (nc_name c) @ '' '' @ pad 20 (unwrap_or (nc_ssh c) ''-'') @ '' daemon not running''"

definition table_row :: "string \<Rightarrow> string \<Rightarrow> string \<Rightarrow> string \<Rightarrow> string \<Rightarrow> string" where
  "table_row name ssh running since state =
     pad 12 name @ '' '' @ pad 20 ssh @ '' '' @ pad 8 running @ '' '' @ pad 12 since @ '' '' @ state"

definition node_row :: "(string \<Rightarrow> datetime \<Rightarrow> string) \<Rightarrow> node_status \<Rightarrow> string" where
  "node_row local_time st =
     table_row (ns_name st) (unwrap_or (ns_ssh st) ''-'') (dec (ns_running_jobs st))
       (local_time ''%m-%d %H:%M'' (ns_since st)) (ns_state st)"

fun println_all :: "string list \<Rightarrow> unit command" where
  "println_all [] = returns ()"
| "println_all (l # ls) = and_then (println l) (\<lambda>_. println_all ls)"

section \<open>Commands that ask the daemon\<close>

definition node_statuses :: "outside \<Rightarrow> node_status list command" where
  "node_statuses ou =
     and_then (with_context ''no daemon is running here, start it with `roster start`'' (client_send ou Nodes))
       (\<lambda>r. case r of NodesReply nodes \<Rightarrow> returns nodes | other \<Rightarrow> bail (''unexpected reply: '' @ ou_debug ou other))"

definition load_nodes :: "outside \<Rightarrow> node_config list command" where
  "load_nodes ou = and_then (expected (nodes_path (ou_env ou))) (\<lambda>path w. Some (nodes_load path (wd_nodes w), w))"

definition list_nodes :: "outside \<Rightarrow> (string \<Rightarrow> datetime \<Rightarrow> string) \<Rightarrow> unit command" where
  "list_nodes ou local_time = and_then (daemon_info ou) (\<lambda>answer.
     if answer = None
     then and_then (load_nodes ou) (\<lambda>configs. println_all (map offline_row configs))
     else and_then (println (table_row ''NAME'' ''SSH'' ''RUNNING'' ''SINCE'' ''STATE'')) (\<lambda>_.
       and_then (node_statuses ou) (\<lambda>nodes. println_all (map (node_row local_time) nodes))))"

text \<open>\<open>id.splitn(2, '/')\<close>: what is before the first slash and after it.\<close>

definition split_job :: "string \<Rightarrow> (string \<times> string) option" where
  "split_job s =
     (case dropWhile (\<lambda>c. c \<noteq> CHR ''/'') s of
        [] \<Rightarrow> None
      | _ # job_id \<Rightarrow> Some (takeWhile (\<lambda>c. c \<noteq> CHR ''/'') s, job_id))"

definition logs :: "outside \<Rightarrow> string \<Rightarrow> unit command" where
  "logs ou s =
     (case split_job s of
        None \<Rightarrow> bail ''logs requires <run_id>/<job_id>''
      | Some (run_id, job_id) \<Rightarrow> and_then (client_send ou (Logs run_id job_id)) (\<lambda>r.
          case r of
            Log text' \<Rightarrow> (\<lambda>w. Some (Inr (), w\<lparr>wd_out := wd_out w @ text'\<rparr>))
          | other \<Rightarrow> println (ou_debug ou other)))"

definition print_reply :: "outside \<Rightarrow> request \<Rightarrow> unit command" where
  "print_reply ou req = and_then (client_send ou req) (\<lambda>r. println (ou_debug ou r))"

definition clear_gpu :: "outside \<Rightarrow> string \<Rightarrow> u32 \<Rightarrow> unit command" where
  "clear_gpu ou name gpu = and_then (client_send ou (ClearGpu (Some name) gpu)) (\<lambda>r.
     case r of
       GpuCleared \<Rightarrow> println (''GPU '' @ dec (unat gpu) @ '' on '' @ name @ '' is back in service'')
     | ErrorReply message \<Rightarrow> bail message
     | other \<Rightarrow> bail (''unexpected reply: '' @ ou_debug ou other))"

text \<open>\<open>roster qualify\<close>: the tests of \<open>Qualify\<close>, then the report.\<close>

definition qualify :: "outside \<Rightarrow> (string + unit) option \<Rightarrow> dcgm_answers \<Rightarrow> u32 \<Rightarrow> string option \<Rightarrow> bool \<Rightarrow> unit command" where
  "qualify ou kt dcgm index uuid retest =
     (let result = qualify_test kt dcgm index uuid retest; (passed, reason) = qualify_report result in
      and_then (client_send ou (GpuQualified index passed reason)) (\<lambda>r.
      and_then (attempt (qualify_run index result
        (case r of Recorded \<Rightarrow> Inr () | other \<Rightarrow> Inl (''unexpected reply: '' @ ou_debug ou other)))) println))"

text \<open>The list of nodes changes when the saved file has taken its place.\<close>

definition save_nodes :: "'t save_outcome \<Rightarrow> string \<Rightarrow> node_config list \<Rightarrow> unit command" where
  "save_nodes outcome error configs = (\<lambda>w. case outcome of
     SaveOk \<Rightarrow> Some (Inr (), w\<lparr>wd_nodes := FileText (Inr configs)\<rparr>)
   | _ \<Rightarrow> Some (Inl error, w))"

definition add_node :: "outside \<Rightarrow> string \<Rightarrow> ssh_output \<Rightarrow> 't save_outcome \<Rightarrow> string \<Rightarrow> string \<Rightarrow> string option \<Rightarrow> unit command" where
  "add_node ou version ssh outcome error target name =
     and_then (expected (nodes_path (ou_env ou))) (\<lambda>path.
     and_then (\<lambda>w. Some (node_add version path (wd_nodes w) target name ssh, w)) (\<lambda>(info, configs).
     and_then (save_nodes outcome error configs) (\<lambda>_.
     println (''added '' @ target @ '': '' @ dec (unat (cpu_cores (ni_resources info))) @ '' cores, ''
       @ dec (unat (memory_mb (ni_resources info))) @ '' MB, '' @ dec (length (gpus (ni_resources info)))
       @ '' GPUs; run `roster restart` to use it''))))"

definition rm_node :: "outside \<Rightarrow> 't save_outcome \<Rightarrow> string \<Rightarrow> string \<Rightarrow> unit command" where
  "rm_node ou outcome error name =
     and_then (expected (nodes_path (ou_env ou))) (\<lambda>path.
     and_then (\<lambda>w. Some (node_remove path (wd_nodes w) name, w)) (\<lambda>configs.
     and_then (save_nodes outcome error configs) (\<lambda>_.
     println (''removed '' @ name @ ''; run `roster restart` to apply''))))"

section \<open>The program\<close>

datatype node_command = NodeAdd string "string option" | NodeLs | NodeRm string

datatype cli_command =
    CmdStart "string option" bool
  | CmdStop bool
  | CmdRestart "string option" bool
  | CmdEnable "string option"
  | CmdDisable bool
  | CmdInfo "string option" bool
  | CmdNode node_command
  | CmdGpuClear string u32
  | CmdQualify u32 "string option" bool
  | CmdSubmit string
  | CmdPs
  | CmdStatus string
  | CmdLogs string
  | CmdCancel string

text \<open>What the reports and the remaining commands use besides: the file to submit, JSON, time, ssh, the card's tests.\<close>

record terminal =
  tm_read :: "string \<Rightarrow> string + string"
  tm_json_info :: "node_info \<Rightarrow> string"
  tm_json_status :: "node_status \<Rightarrow> string"
  tm_local_time :: "string \<Rightarrow> datetime \<Rightarrow> string"
  tm_version :: string
  tm_ssh :: "string \<Rightarrow> ssh_output"
  tm_save :: "unit save_outcome"
  tm_save_error :: string
  tm_kernel :: "(string + unit) option"
  tm_dcgm :: dcgm_answers

definition info_command :: "outside \<Rightarrow> terminal \<Rightarrow> bool \<Rightarrow> unit command" where
  "info_command ou tm as_json = and_then (daemon_info ou) (\<lambda>answer. case answer of
     None \<Rightarrow> bail ''no daemon is running here, start it with `roster start`''
   | Some info \<Rightarrow> if as_json then println (tm_json_info tm info) else println_all (info_lines info))"

definition node_info_command :: "outside \<Rightarrow> terminal \<Rightarrow> string \<Rightarrow> bool \<Rightarrow> unit command" where
  "node_info_command ou tm name as_json = and_then (node_statuses ou) (\<lambda>nodes.
     case find (\<lambda>st. ns_name st = name) nodes of
       None \<Rightarrow> bail (''no node '' @ quoted name @ '' in this daemon, see `roster node ls`'')
     | Some st \<Rightarrow> if as_json then println (tm_json_status tm st) else println_all (node_lines (tm_local_time tm) st))"

text \<open>\<open>roster cancel\<close> is \<open>unimplemented!\<close>, a panic.\<close>

fun roster_main :: "outside \<Rightarrow> terminal \<Rightarrow> cli_command \<Rightarrow> unit command" where
  "roster_main ou tm (CmdStart resources foreground) = (if foreground then start_foreground ou resources else start ou resources)"
| "roster_main ou tm (CmdEnable resources) = enable ou resources"
| "roster_main ou tm (CmdDisable force) = disable ou force"
| "roster_main ou tm (CmdStop force) = stop ou force"
| "roster_main ou tm (CmdRestart resources force) = restart ou resources force"
| "roster_main ou tm (CmdInfo None as_json) = info_command ou tm as_json"
| "roster_main ou tm (CmdInfo (Some name) as_json) = node_info_command ou tm name as_json"
| "roster_main ou tm (CmdNode (NodeAdd target name)) =
     add_node ou (tm_version tm) (tm_ssh tm target) (tm_save tm) (tm_save_error tm) target name"
| "roster_main ou tm (CmdNode NodeLs) = list_nodes ou (tm_local_time tm)"
| "roster_main ou tm (CmdNode (NodeRm name)) = rm_node ou (tm_save tm) (tm_save_error tm) name"
| "roster_main ou tm (CmdQualify index uuid retest) = qualify ou (tm_kernel tm) (tm_dcgm tm) index uuid retest"
| "roster_main ou tm (CmdGpuClear name gpu) = clear_gpu ou name gpu"
| "roster_main ou tm (CmdSubmit path) =
     (case tm_read tm path of
        Inl e \<Rightarrow> bail (''failed to read '' @ path @ '': '' @ e)
      | Inr spec_yaml \<Rightarrow> print_reply ou (Submit spec_yaml))"
| "roster_main ou tm CmdPs = print_reply ou Ps"
| "roster_main ou tm (CmdStatus run_id) = print_reply ou (Status run_id)"
| "roster_main ou tm (CmdLogs s) = logs ou s"
| "roster_main ou tm (CmdCancel s) = (\<lambda>w. None)"

end
