(* ===== verification/Command_Facts.thy ===== *)
theory Command_Facts
  imports Command_Main
begin

text \<open>
  What the commands promise (src/src/main.rs): waiting ends, nothing is stopped against the user's
  jobs, enabling and disabling undo each other, a second daemon is refused.
\<close>

section \<open>Running a sequence\<close>

named_theorems calls \<open>elimination of a call that came to an end\<close>

lemma and_thenE [calls]:
  assumes "and_then c f w = Some (r, w')"
  obtains (error) e where "c w = Some (Inl e, w')" "r = Inl e"
  | (more) x w1 where "c w = Some (Inr x, w1)" "f x w1 = Some (r, w')"
  using assms by (auto simp: and_then_def split: option.splits sum.splits)

lemma and_then_okE:
  assumes "and_then c f w = Some (Inr y, w')"
  obtains x w1 where "c w = Some (Inr x, w1)" "f x w1 = Some (Inr y, w')"
  using assms by (auto simp: and_then_def split: option.splits sum.splits)

lemma and_then_simps [simp]:
  "c w = Some (Inr x, w1) \<Longrightarrow> and_then c f w = f x w1"
  "c w = Some (Inl e, w1) \<Longrightarrow> and_then c f w = Some (Inl e, w1)"
  "c w = None \<Longrightarrow> and_then c f w = None"
  "b w = Some (Inr True, w1) \<Longrightarrow> and_then b g w = g True w1"
  "b w = Some (Inr False, w1) \<Longrightarrow> and_then b g w = g False w1"
  by (simp_all add: and_then_def)

lemma with_context_ok [simp]: "with_context text' c w = Some (Inr x, w') \<longleftrightarrow> c w = Some (Inr x, w')"
  by (auto simp: with_context_def split: option.splits sum.splits)

lemmas call_defs = returns_def bail_def attempt_def expected_def println_def

text \<open>What a command leaves alone, whatever it answers.\<close>

definition keeps :: "(world \<Rightarrow> 'x) \<Rightarrow> 'a command \<Rightarrow> bool" where
  "keeps f c \<longleftrightarrow> (\<forall>w r w'. c w = Some (r, w') \<longrightarrow> f w' = f w)"

named_theorems keeping \<open>calls that leave a part of the world alone\<close>

lemma keeps_and_then [keeping]:
  "keeps f c \<Longrightarrow> (\<And>x. keeps f (g x)) \<Longrightarrow> keeps f (and_then c g)"
  unfolding keeps_def by (metis and_thenE)

lemma keeps_with_context [keeping]: "keeps f c \<Longrightarrow> keeps f (with_context text' c)"
  by (fastforce simp: keeps_def with_context_def split: option.splits sum.splits)

lemma keeps_pure [keeping]:
  "keeps f (returns x)" "keeps f (bail e)" "keeps f (attempt s)" "keeps f (expected p)" "keeps f (\<lambda>w. None)"
  by (auto simp: keeps_def call_defs)

lemma keeps_when [keeping]: "keeps f c \<Longrightarrow> keeps f (when_command b c)"
  by (simp add: when_command_def keeping)

section \<open>Asking\<close>

text \<open>Only the clock and the requests sent have changed.\<close>

definition only_asked :: "world \<Rightarrow> world \<Rightarrow> bool" where
  "only_asked w w' \<longleftrightarrow> w' = w\<lparr>wd_time := wd_time w', wd_sent := wd_sent w'\<rparr>"

lemma only_asked_refl [simp]: "only_asked w w"
  by (simp add: only_asked_def)

lemma only_asked_trans [trans]: "only_asked u v \<Longrightarrow> only_asked v w \<Longrightarrow> only_asked u w"
  unfolding only_asked_def by (cases u, cases v, cases w) simp

lemma only_asked_parts:
  assumes "only_asked w w'"
  shows "wd_unit w' = wd_unit w" "wd_nodes w' = wd_nodes w" "wd_host w' = wd_host w" "wd_out w' = wd_out w"
    "wd_ran w' = wd_ran w" "wd_signalled w' = wd_signalled w" "wd_spawned w' = wd_spawned w"
  by (subst assms [unfolded only_asked_def], simp)+

lemma only_asked_sleep: "only_asked w (sleep ou ms w)"
  by (simp add: only_asked_def sleep_def)

definition asked :: "outside \<Rightarrow> request \<Rightarrow> world \<Rightarrow> world" where
  "asked ou req w = w\<lparr>wd_time := wd_time w + ou_lag ou w, wd_sent := wd_sent w @ [req]\<rparr>"

lemma only_asked_asked [simp]: "only_asked w (asked ou req w)"
  by (simp add: only_asked_def asked_def)

lemma daemon_info_cases:
  assumes "daemon_info ou w = Some (r, w')"
  obtains (refused) e where "ou_ask ou Info w = ConnectionRefused e" "r = Inr None" "w' = w"
  | (answered) info where "ou_ask ou Info w = Answered (InfoReply info)" "r = Inr (Some info)" "w' = asked ou Info w"
  | (failed) e where "r = Inl e" "w' = asked ou Info w"
  using assms
  by (cases "ou_ask ou Info w")
    (auto simp: daemon_info_def and_then_def expected_def asked_def Let_def split: option.splits response.splits intro: that)

lemma daemon_info_only_asked: "daemon_info ou w = Some (r, w') \<Longrightarrow> only_asked w w'"
  by (erule daemon_info_cases) auto

lemma client_send_only_asked: "client_send ou req w = Some (r, w') \<Longrightarrow> only_asked w w'"
  unfolding client_send_def asked_def [symmetric]
  by (auto simp: and_then_def expected_def Let_def split: option.splits client_answer.splits)

section \<open>Waiting\<close>

lemma daemon_info_returns:
  assumes "socket_path (ou_env ou) \<noteq> None" "ou_ask ou Info w \<noteq> Unanswered"
  shows "daemon_info ou w \<noteq> None"
proof -
  obtain y where "socket_path (ou_env ou) = Some y" using assms(1) by blast
  then have "expected (socket_path (ou_env ou)) w = Some (Inr y, w)" by (simp add: expected_def)
  then show ?thesis using assms(2)
    by (cases "ou_ask ou Info w") (auto simp: daemon_info_def Let_def split: response.split)
qed

lemma daemon_info_silent: "ou_ask ou Info w = Unanswered \<Longrightarrow> daemon_info ou w = None"
  by (auto simp: daemon_info_def and_then_def expected_def Let_def split: option.splits)

lemma daemon_info_refused:
  "ou_ask ou Info w = ConnectionRefused e \<Longrightarrow>
   daemon_info ou w = (case socket_path (ou_env ou) of None \<Rightarrow> None | Some _ \<Rightarrow> Some (Inr None, w))"
  by (simp add: daemon_info_def and_then_def expected_def split: option.split)

lemma daemon_info_answered:
  "ou_ask ou Info w = Answered (InfoReply info) \<Longrightarrow>
   daemon_info ou w = (case socket_path (ou_env ou) of None \<Rightarrow> None | Some _ \<Rightarrow> Some (Inr (Some info), asked ou Info w))"
  by (simp add: daemon_info_def and_then_def expected_def asked_def Let_def split: option.split)

text \<open>One round of the loop: only a refusal before the deadline leads to another.\<close>

lemma wait_round:
  obtains (silent) "daemon_info ou w = None" "wait_loop ou child log deadline w = None"
  | (failed) e w' where "wait_loop ou child log deadline w = Some (Inl e, w')" "w' = w \<or> w' = asked ou Info w"
      "\<And>x. ou_ask ou Info w = ConnectionRefused x \<Longrightarrow> \<not> child \<Longrightarrow> deadline \<le> wd_time w"
      "\<And>info. ou_ask ou Info w \<noteq> Answered (InfoReply info)"
  | (found) info where "ou_ask ou Info w = Answered (InfoReply info)" "wait_loop ou child log deadline w = Some (Inr info, asked ou Info w)"
  | (again) e where "ou_ask ou Info w = ConnectionRefused e" "wd_time w < deadline"
      "wait_loop ou child log deadline w = wait_loop ou child log deadline (sleep ou 100 w)"
proof (cases "daemon_info ou w")
  case None
  then have "wait_loop ou child log deadline w = None" by (subst wait_loop.simps) simp
  with None show ?thesis by (rule silent)
next
  case (Some p)
  obtain r w' where d: "daemon_info ou w = Some (r, w')" using Some by (cases p) auto
  then show ?thesis
  proof (cases rule: daemon_info_cases)
    case (refused e)
    let ?x = "if child then ou_exited ou w else Inr None"
    note loop = wait_loop.simps [of ou child log deadline w, unfolded d refused(2,3) option.case sum.case prod.case]
    show ?thesis
    proof (cases ?x)
      case (Inl e')
      then show ?thesis using loop refused by (intro failed [of e' w]) (auto split: if_splits)
    next
      case (Inr x)
      then show ?thesis using loop refused again failed
        by (cases x; cases "deadline \<le> wd_time w") (auto split: if_splits)
    qed
  next
    case (answered info)
    then show ?thesis using d wait_loop.simps [of ou child log deadline w] by (intro found) simp_all
  next
    case (failed e)
    have no: "ou_ask ou Info w \<noteq> ConnectionRefused x" for x
    proof
      assume "ou_ask ou Info w = ConnectionRefused x"
      from daemon_info_refused [OF this] show False using d failed(1) by (cases "socket_path (ou_env ou)") simp_all
    qed
    have other: "ou_ask ou Info w \<noteq> Answered (InfoReply info)" for info
    proof
      assume "ou_ask ou Info w = Answered (InfoReply info)"
      from daemon_info_answered [OF this] show False using d failed(1) by (cases "socket_path (ou_env ou)") simp_all
    qed
    have "wait_loop ou child log deadline w = Some (Inl e, w')"
      using d failed(1) by (subst wait_loop.simps) simp
    then show ?thesis using no other failed(2) that(2) [of e w'] by blast
  qed
qed

lemma wait_induct [case_names round]:
  assumes "\<And>w. (wd_time w < deadline \<Longrightarrow> P (sleep ou 100 w)) \<Longrightarrow> P w"
  shows "P w"
proof (induction "deadline - wd_time w" arbitrary: w rule: less_induct)
  case less
  show ?case by (rule assms, rule less) (simp add: sleep_def)
qed

lemma wait_loop_only_asked:
  "wait_loop ou child log deadline w = Some (r, w') \<Longrightarrow>
   only_asked w w' \<and> (\<forall>info. r = Inr info \<longrightarrow> (\<exists>u. ou_ask ou Info u = Answered (InfoReply info)))"
proof (induction w rule: wait_induct [where ou = ou and deadline = deadline])
  case (round w)
  show ?case
  proof (cases rule: wait_round [of ou w child log deadline])
    case (again e)
    then have "only_asked (sleep ou 100 w) w' \<and> (\<forall>info. r = Inr info \<longrightarrow> (\<exists>u. ou_ask ou Info u = Answered (InfoReply info)))"
      using round by simp
    then show ?thesis using only_asked_trans [OF only_asked_sleep] by blast
  qed (use round.prems in auto)
qed

lemma wait_loop_ends:
  assumes path: "socket_path (ou_env ou) \<noteq> None" and answers: "\<And>u. ou_ask ou Info u \<noteq> Unanswered"
  shows "\<exists>r w'. wait_loop ou child log deadline w = Some (r, w') \<and> length (wd_sent w') \<le> length (wd_sent w) + 1"
proof (induction w rule: wait_induct [where ou = ou and deadline = deadline])
  case (round w)
  show ?case
  proof (cases rule: wait_round [of ou w child log deadline])
    case silent
    then show ?thesis using daemon_info_returns [OF path answers] by simp
  next
    case (again e)
    then show ?thesis using round by (simp add: sleep_def)
  qed (auto simp: asked_def)
qed

text \<open>A daemon that answers from some time before the deadline on is found.\<close>

lemma wait_loop_finds:
  assumes path: "socket_path (ou_env ou) \<noteq> None" and t: "t \<le> deadline"
    and early: "\<And>u. wd_time u < t \<Longrightarrow> \<exists>e. ou_ask ou Info u = ConnectionRefused e"
    and late: "\<And>u. t \<le> wd_time u \<Longrightarrow> \<exists>info. ou_ask ou Info u = Answered (InfoReply info)"
  shows "\<exists>info w'. wait_loop ou False log deadline w = Some (Inr info, w')"
proof (induction w rule: wait_induct [where ou = ou and deadline = deadline])
  case (round w)
  have some: "ou_ask ou Info w \<noteq> Unanswered" using early [of w] late [of w] by (cases "wd_time w < t") auto
  show ?case
  proof (cases rule: wait_round [of ou w False log deadline])
    case silent
    then show ?thesis using daemon_info_returns [OF path some] by simp
  next
    case (failed e w')
    then show ?thesis using early [of w] late [of w] t by (cases "wd_time w < t") force+
  qed (use round in auto)
qed

section \<open>Parts of the world that asking and printing leave alone\<close>

definition settled :: "(world \<Rightarrow> 'x) \<Rightarrow> bool" where
  "settled f \<longleftrightarrow> (\<forall>w w'. only_asked w w' \<longrightarrow> f w' = f w) \<and> (\<forall>w s. f (w\<lparr>wd_out := s\<rparr>) = f w)"

lemma keeps_asking [keeping]:
  assumes "settled f"
  shows "keeps f (daemon_info ou)" "keeps f (client_send ou req)" "keeps f (wait_for_daemon ou child log)" "keeps f (println s)"
    "keeps f (println_all ls)" "keeps f (unit_exists ou)" "keeps f read_unit"
proof -
  show line: "keeps f (println s)" for s using assms by (simp add: keeps_def println_def settled_def)
  show "keeps f (println_all ls)" by (induction ls) (simp_all add: keeping line)
  show "keeps f (daemon_info ou)" "keeps f (client_send ou req)" "keeps f (wait_for_daemon ou child log)"
    using assms daemon_info_only_asked client_send_only_asked wait_loop_only_asked
    unfolding keeps_def settled_def wait_for_daemon_def by blast+
  show "keeps f (unit_exists ou)" "keeps f read_unit"
    by (auto simp: keeps_def unit_exists_def read_unit_def expected_def elim!: and_thenE)
qed

lemma keeps_and_then_given:
  "keeps f c \<Longrightarrow> (\<And>w x w'. c w = Some (Inr x, w') \<Longrightarrow> keeps f (g x)) \<Longrightarrow> keeps f (and_then c g)"
  unfolding keeps_def by (metis and_thenE)

text \<open>Calls that end daemons.\<close>

definition stopping :: "string \<times> string list \<Rightarrow> bool" where
  "stopping call \<longleftrightarrow> call = (''systemctl'', [''--user'', ''stop'', ''roster''])"

definition halts :: "world \<Rightarrow> i32 list \<times> (string \<times> string list) list" where
  "halts w = (wd_signalled w, filter stopping (wd_ran w))"

lemma settled_parts [simp]: "settled halts" "settled wd_unit" "settled wd_host" "settled wd_spawned"
  by (auto simp: settled_def halts_def only_asked_parts)

lemma keeps_run_program [keeping]:
  "\<not> stopping (prog, args) \<Longrightarrow> keeps halts (run_program ou prog args)"
  "keeps wd_unit (run_program ou prog args)" "keeps wd_host (run_program ou prog args)" "keeps wd_spawned (run_program ou prog args)"
  by (auto simp: keeps_def run_program_def halts_def Let_def split: sum.splits if_splits)

lemma keeps_halts [keeping]:
  "keeps halts (spawn_daemon ou exe resources)" "keeps halts (write_unit ou text')" "keeps halts (remove_unit ou)"
  "keeps halts (save_nodes outcome error configs)" "keeps halts (\<lambda>w. Some (g w, w))"
  "keeps halts (\<lambda>w. Some (Inr (), w\<lparr>wd_out := h w\<rparr>))"
  by (auto simp: keeps_def halts_def spawn_daemon_def write_unit_def remove_unit_def save_nodes_def attempt_def
      elim!: and_thenE split: sum.splits save_outcome.splits)

lemma keeps_run_daemon [keeping]: "keeps halts (run_daemon ou inventory nodes_pools)"
  by (auto simp: keeps_def halts_def run_daemon_def limit_jobs_def daemon_run_def Let_def stopping_def
      split: option.splits sum.splits prod.splits if_splits bind_splits)

lemma keeps_unit_file [keeping]: "keeps f (unit_file ou resources)"
  by (auto simp: unit_file_def Let_def intro!: keeping split: option.split)

lemma keeps_load [keeping]: "keeps f (load_resources ou path)"
  by (auto simp: load_resources_def intro!: keeping split: option.split sum.split prod.split)

lemma keeps_start [keeping]: "keeps halts (start ou resources)"
  by (auto simp: start_def stopping_def intro!: keeping split: option.split)

lemma keeps_start_foreground [keeping]: "keeps halts (start_foreground ou resources)"
  by (auto simp: start_foreground_def intro!: keeping split: option.split)

text \<open>Whenever the daemon answers, it reports jobs that would not survive its stop.\<close>

definition busy_daemon :: "outside \<Rightarrow> bool" where
  "busy_daemon ou \<longleftrightarrow> (\<forall>w info. ou_ask ou Info w = Answered (InfoReply info) \<longrightarrow>
     0 < ni_running_jobs info \<and> \<not> ni_jobs_survive_restart info)"

lemma busy_daemonD:
  "busy_daemon ou \<Longrightarrow> ou_ask ou Info w = Answered (InfoReply info) \<Longrightarrow> ni_running_jobs info \<noteq> 0 \<and> \<not> ni_jobs_survive_restart info"
  by (auto simp: busy_daemon_def)

lemma keeps_stop: "busy_daemon ou \<Longrightarrow> keeps halts (stop ou False)"
  unfolding stop_def
  by (rule keeps_and_then_given)
    (auto simp: keeping dest: busy_daemonD elim!: daemon_info_cases intro!: keeping split: option.split)

definition forced :: "cli_command \<Rightarrow> bool" where
  "forced cmd = (case cmd of CmdStop f \<Rightarrow> f | CmdRestart _ f \<Rightarrow> f | CmdDisable f \<Rightarrow> f | _ \<Rightarrow> False)"

lemma keeps_main: "busy_daemon ou \<Longrightarrow> \<not> forced cmd \<Longrightarrow> keeps halts (roster_main ou tm cmd)"
proof (cases "(ou, tm, cmd)" rule: roster_main.cases)
qed (auto simp: forced_def keeps_stop restart_def enable_def hand_over_def install_unit_def enable_now_def disable_def info_command_def node_info_command_def node_statuses_def
    add_node_def rm_node_def list_nodes_def load_nodes_def qualify_def clear_gpu_def print_reply_def logs_def stopping_def Let_def
    intro!: keeping split: option.split sum.split prod.split response.split)

section \<open>What a command that succeeded has done\<close>

lemma run_program_ok: "run_program ou prog args w = Some (Inr (), w') \<Longrightarrow> w' = w\<lparr>wd_ran := wd_ran w @ [(prog, args)]\<rparr>"
  by (auto simp: run_program_def Let_def split: sum.splits if_splits)

lemma println_ok: "println s w = Some (r, w') \<longleftrightarrow> r = Inr () \<and> w' = w\<lparr>wd_out := wd_out w @ s @ [newline]\<rparr>"
  by (auto simp: println_def)

lemma unit_exists_ok: "unit_exists ou w = Some (Inr b, w') \<Longrightarrow> w' = w \<and> b = (wd_unit w \<noteq> None)"
  by (auto simp: unit_exists_def expected_def elim!: and_thenE)

lemma kill_process_ok: "kill_process ou pid w = Some (Inr (), w') \<Longrightarrow> w' = w\<lparr>wd_signalled := wd_signalled w @ [pid]\<rparr>"
  by (auto simp: kill_process_def split: sum.splits)

lemma wait_exit_only_asked:
  "wait_exit ou shown pid deadline w = (r, w') \<Longrightarrow> only_asked w w' \<and> (r = Inr () \<longleftrightarrow> \<not> ou_alive ou pid w')"
proof (induction ou shown pid deadline w rule: wait_exit.induct)
  case (1 ou shown pid deadline w)
  show ?case
  proof (cases "ou_alive ou pid w \<and> wd_time w < deadline")
    case True
    then have "only_asked (sleep ou 100 w) w' \<and> (r = Inr () \<longleftrightarrow> \<not> ou_alive ou pid w')"
      using 1 by (simp add: wait_exit.simps [of ou shown pid deadline w])
    then show ?thesis using only_asked_trans [OF only_asked_sleep] by blast
  next
    case False
    then show ?thesis using "1.prems" by (auto simp: wait_exit.simps [of ou shown pid deadline w] split: if_splits)
  qed
qed

lemma stop_ok:
  assumes "stop ou force w = Some (Inr (), w')"
  obtains (absent) e where "ou_ask ou Info w = ConnectionRefused e" "println ''not running'' w = Some (Inr (), w')"
  | (ended) info where "ou_ask ou Info w = Answered (InfoReply info)"
      "ni_running_jobs info = 0 \<or> ni_jobs_survive_restart info \<or> force"
      "end_daemon ou info (asked ou Info w) = Some (Inr (), w')"
  using assms unfolding stop_def
  by (elim and_then_okE daemon_info_cases) (auto simp: bail_def split: if_splits intro: that)

lemma end_daemon_ok:
  assumes "end_daemon ou info w = Some (Inr (), w')"
  obtains (systemd) u where "wd_unit w \<noteq> None" "u = w\<lparr>wd_ran := wd_ran w @ [(''systemctl'', [''--user'', ''stop'', ''roster''])]\<rparr>"
      "stopped info u = Some (Inr (), w')"
  | (signal) u where "wd_unit w = None" "\<not> ou_alive ou (as_i32 (int (unat (ni_pid info)))) u"
      "only_asked (w\<lparr>wd_signalled := wd_signalled w @ [as_i32 (int (unat (ni_pid info)))]\<rparr>) u"
      "stopped info u = Some (Inr (), w')"
  using assms unfolding end_daemon_def Let_def
  by (elim and_then_okE)
    (auto split: if_splits dest!: unit_exists_ok run_program_ok kill_process_ok wait_exit_only_asked elim!: and_then_okE intro: that)

definition answers_info :: "outside \<Rightarrow> bool" where
  "answers_info ou \<longleftrightarrow> (\<exists>u info. ou_ask ou Info u = Answered (InfoReply info))"

lemma wait_ok: "wait_for_daemon ou child log w = Some (Inr info, w') \<Longrightarrow> only_asked w w' \<and> answers_info ou"
  using wait_loop_only_asked unfolding wait_for_daemon_def answers_info_def by blast

lemma start_ok:
  assumes "start ou resources w = Some (Inr (), w')"
  shows "answers_info ou \<and> length (wd_spawned w') \<le> length (wd_spawned w) + 1"
proof -
  obtain answer w1 where d: "daemon_info ou w = Some (Inr answer, w1)"
    using assms unfolding start_def by (rule and_then_okE)
  from d show ?thesis
  proof (cases rule: daemon_info_cases)
    case (answered info)
    obtain s where "start ou resources w = println s w1" using d answered(2) by (simp add: start_def)
    then have "println s w1 = Some (Inr (), w')" using assms by simp
    then have "wd_spawned w' = wd_spawned w1" by (simp add: println_ok)
    then show ?thesis using answered by (auto simp: asked_def answers_info_def)
  next
    case (refused e)
    show ?thesis
      using assms d refused(2,3) unfolding start_def
      by (auto simp: spawn_daemon_def bail_def attempt_def expected_def println_ok only_asked_parts elim!: and_then_okE
          split: if_splits option.splits sum.splits dest!: unit_exists_ok run_program_ok wait_ok)
  qed auto
qed

lemma keepsD: "keeps f c \<Longrightarrow> c w = Some (r, w') \<Longrightarrow> f w' = f w"
  by (simp add: keeps_def)

lemma keeps_stop_unit [keeping]: "keeps wd_unit (stop ou force)"
proof -
  have exit: "keeps wd_unit (\<lambda>w. Some (wait_exit ou shown pid (wd_time w + 10000) w))" for shown pid
    by (auto simp: keeps_def only_asked_parts dest!: wait_exit_only_asked)
  have kill: "keeps wd_unit (kill_process ou pid)" for pid
    by (auto simp: keeps_def kill_process_def split: sum.splits)
  show ?thesis
    by (auto simp: stop_def end_daemon_def stopped_def Let_def intro!: keeping exit kill split: option.split)
qed

lemma enable_now_ok:
  assumes "enable_now ou w = Some (Inr (), w')"
  shows "answers_info ou \<and> wd_unit w' = wd_unit w \<and> halts w' = halts w \<and> wd_spawned w' = wd_spawned w"
  using assms
  by (auto simp: enable_now_def println_ok halts_def stopping_def only_asked_parts elim!: and_then_okE dest!: run_program_ok wait_ok)

lemma write_unit_ok: "write_unit ou text' w = Some (Inr (), w') \<Longrightarrow> w' = w\<lparr>wd_unit := Some text'\<rparr>"
  by (auto simp: write_unit_def attempt_def elim!: and_then_okE)

lemma hand_over_ok:
  assumes "hand_over ou enabled w = Some (Inr (), w')"
  shows "wd_unit w' = wd_unit w" "enabled \<Longrightarrow> w' = w"
proof -
  have "keeps wd_unit (hand_over ou enabled)" by (simp add: hand_over_def keeping)
  then show "wd_unit w' = wd_unit w" using keepsD assms by blast
  show "enabled \<Longrightarrow> w' = w" using assms by (simp add: hand_over_def when_command_def returns_def)
qed

lemma install_unit_ok:
  assumes "install_unit ou resources enabled w = Some (Inr (), w')" "enabled \<longleftrightarrow> wd_unit w \<noteq> None"
  shows "wd_unit w' \<noteq> None" "resources = None \<Longrightarrow> enabled \<Longrightarrow> w' = w"
proof -
  have file': "unit_file ou resources w = Some (Inr text', u) \<Longrightarrow> u = w" for text' u
    by (auto simp: unit_file_def attempt_def returns_def Let_def elim!: and_then_okE split: option.splits)
  show "wd_unit w' \<noteq> None" using assms
    by (auto simp: install_unit_def when_command_def returns_def read_unit_def println_ok elim!: and_then_okE split: if_splits
        dest!: file' write_unit_ok run_program_ok)
  show "w' = w" if "resources = None" enabled
    using assms(1) that by (simp add: install_unit_def when_command_def returns_def)
qed

lemma enable_ok:
  assumes "enable ou resources w = Some (Inr (), w')"
  shows "answers_info ou \<and> wd_unit w' \<noteq> None \<and> (resources = None \<and> wd_unit w \<noteq> None \<longrightarrow>
      wd_unit w' = wd_unit w \<and> halts w' = halts w \<and> wd_spawned w' = wd_spawned w)"
proof -
  obtain u1 u2 u3 enabled where u1: "run_program ou ''loginctl'' [''enable-linger''] w = Some (Inr (), u1)"
    and en: "enabled \<longleftrightarrow> wd_unit u1 \<noteq> None" and u2: "hand_over ou enabled u1 = Some (Inr (), u2)"
    and u3: "install_unit ou resources enabled u2 = Some (Inr (), u3)" and last: "enable_now ou u3 = Some (Inr (), w')"
    using assms unfolding enable_def by (elim and_then_okE) (auto dest!: unit_exists_ok)
  have e1: "wd_unit u1 = wd_unit w" "halts u1 = halts w" "wd_spawned u1 = wd_spawned w"
    using run_program_ok [OF u1] by (simp_all add: halts_def stopping_def)
  have en': "enabled \<longleftrightarrow> wd_unit u2 \<noteq> None" using en hand_over_ok(1) [OF u2] by simp
  show ?thesis
    using e1 en enable_now_ok [OF last] install_unit_ok [OF u3 en'] hand_over_ok [OF u2] by auto
qed

lemma disable_ok: "disable ou force w = Some (Inr (), w') \<Longrightarrow> wd_unit w' = None"
  by (auto simp: disable_def println_ok remove_unit_def attempt_def elim!: and_then_okE split: if_splits
      dest!: unit_exists_ok run_program_ok)

section \<open>Properties\<close>

text \<open>
  C11: Waiting for the daemon ends, unless the daemon takes a connection and never answers: with every
  question answered or refused, it returns a result, which is an answer the daemon gave or an error,
  and it has done nothing but ask, at most one request having been taken. A daemon that is first
  refused and answers from within the 60 s on is found. One that takes the connection and stays
  silent is waited for without end.
\<close>

theorem wait_for_daemon_ends:
  assumes path: "socket_path (ou_env ou) \<noteq> None"
  shows "((\<forall>u. ou_ask ou Info u \<noteq> Unanswered) \<longrightarrow>
      (\<exists>r w'. wait_for_daemon ou child log w = Some (r, w') \<and> only_asked w w' \<and> length (wd_sent w') \<le> length (wd_sent w) + 1
        \<and> (\<forall>info. r = Inr info \<longrightarrow> (\<exists>u. ou_ask ou Info u = Answered (InfoReply info)))))
    \<and> (t \<le> wd_time w + 60000
        \<and> (\<forall>u. if t \<le> wd_time u then \<exists>info. ou_ask ou Info u = Answered (InfoReply info) else \<exists>e. ou_ask ou Info u = ConnectionRefused e)
       \<longrightarrow> (\<exists>info w'. wait_for_daemon ou False log w = Some (Inr info, w')))
    \<and> (ou_ask ou Info w = Unanswered \<longrightarrow> wait_for_daemon ou child log w = None)"
proof (intro conjI impI)
  assume "\<forall>u. ou_ask ou Info u \<noteq> Unanswered"
  then obtain r w' where "wait_for_daemon ou child log w = Some (r, w')" "length (wd_sent w') \<le> length (wd_sent w) + 1"
    using wait_loop_ends [OF path] unfolding wait_for_daemon_def by blast
  then show "\<exists>r w'. wait_for_daemon ou child log w = Some (r, w') \<and> only_asked w w' \<and> length (wd_sent w') \<le> length (wd_sent w) + 1
        \<and> (\<forall>info. r = Inr info \<longrightarrow> (\<exists>u. ou_ask ou Info u = Answered (InfoReply info)))"
    using wait_loop_only_asked unfolding wait_for_daemon_def by blast
next
  assume *: "t \<le> wd_time w + 60000
        \<and> (\<forall>u. if t \<le> wd_time u then \<exists>info. ou_ask ou Info u = Answered (InfoReply info) else \<exists>e. ou_ask ou Info u = ConnectionRefused e)"
  have "\<exists>e. ou_ask ou Info u = ConnectionRefused e" if "wd_time u < t" for u using * that by (meson leD)
  moreover have "\<exists>info. ou_ask ou Info u = Answered (InfoReply info)" if "t \<le> wd_time u" for u using * that by meson
  ultimately show "\<exists>info w'. wait_for_daemon ou False log w = Some (Inr info, w')"
    using wait_loop_finds [OF path, of t "wd_time w + 60000"] * unfolding wait_for_daemon_def by blast
next
  assume "ou_ask ou Info w = Unanswered"
  then show "wait_for_daemon ou child log w = None"
    using daemon_info_silent by (simp add: wait_for_daemon_def wait_loop.simps [of ou child log "wd_time w + 60000" w])
qed

text \<open>
  C10: No command stops the daemon against the user's jobs. As long as the daemon reports, whenever it
  answers, jobs that would not survive its stop, no command without the force flag signals it or has
  systemd stop it, whatever else it does.
\<close>

theorem no_untracked_jobs:
  assumes "busy_daemon ou" "\<not> forced cmd" "roster_main ou tm cmd w = Some (r, w')"
  shows "wd_signalled w' = wd_signalled w \<and> filter stopping (wd_ran w') = filter stopping (wd_ran w)"
  using keeps_main [OF assms(1,2), of tm] assms(3) by (simp add: keeps_def halts_def)



text \<open>What the foreground start does before it is a daemon is ask.\<close>

lemma start_foreground_ends:
  assumes "start_foreground ou resources w = Some (r, w')"
  obtains (early) e where "r = Inl e" "only_asked w w'"
  | (late) u inventory nodes_pools where "only_asked w u" "run_daemon ou inventory nodes_pools u = Some (r, w')"
proof -
  obtain answer where d: "daemon_info ou w = Some (answer, if answer = Inr None then w else asked ou Info w)"
    using assms unfolding start_foreground_def by (elim and_thenE) (auto elim!: daemon_info_cases)
  show thesis
  proof (cases "answer = Inr None")
    case True
    then show ?thesis using assms d
      by (auto simp: start_foreground_def load_resources_def call_defs elim!: and_thenE
          split: option.splits sum.splits prod.splits intro: early late [OF only_asked_refl])
  next
    case False
    then show ?thesis using assms d
      by (cases answer) (auto simp: start_foreground_def bail_def split: option.splits intro: early)
  qed
qed

lemma run_daemon_refused:
  assumes "ho_pid (wd_host w) = Some i" "ho_lock (wd_host w) i = Some q" "running_pid (wd_host w) = q"
  shows "run_daemon ou inventory nodes_pools w = Some (Inl (''daemon is already running (pid '' @ dec (unat q) @ '')''), w)"
  using assms by (simp add: run_daemon_def daemon_run_def lock_pid_file_def open_pid_file_def flock_cases roster_error_display_def)

text \<open>
  A second daemon is refused even when the first cannot be asked. In every state the daemons of
  a host reach in which one runs and has written its pid, starting another in the foreground ends
  with an error, and neither the files of the daemon that runs nor systemd were touched.
\<close>

theorem second_start_refused:
  assumes "reach host_init (host_step True) \<lparr>hd_host = wd_host w, hd_stage = st\<rparr>" "written (st q) \<noteq> None"
    and "start_foreground ou resources w = Some (r, w')"
  shows "(\<exists>e. r = Inl e) \<and> only_asked w w'"
proof -
  note now = host_invD [OF instances.inv_reach [OF assms(1)]]
  obtain i where i: "written (st q) = Some i" using assms(2) by blast
  have run: "running_on (st q) = Some i" using stage_kinds(2) [OF i] .
  have pid: "ho_pid (wd_host w) = Some i" "ho_lock (wd_host w) i = Some q" "running_pid (wd_host w) = q"
    using now(5) [OF run] now(2) stage_kinds(1) [OF run] running_pid_read now(6) [OF i] by simp_all
  from assms(3) show ?thesis
  proof (cases rule: start_foreground_ends)
    case (late u inventory nodes_pools)
    have "wd_host u = wd_host w" using only_asked_parts(3) [OF late(1)] .
    then show ?thesis using late run_daemon_refused [of u i q] pid by auto
  qed auto
qed

lemma takeWhile_slash: "c \<notin> set a \<Longrightarrow> takeWhile (\<lambda>x. x \<noteq> c) (a @ c # b) = a \<and> dropWhile (\<lambda>x. x \<noteq> c) (a @ c # b) = c # b"
  by (induction a) auto

text \<open>
  The name of a job on the command line is read back: a text names the run and the job just when
  it is the run's id without a slash, a slash, and the job's id, whatever that holds.
\<close>

theorem split_job_iff:
  "split_job s = Some (run_id, job_id) \<longleftrightarrow> s = run_id @ CHR ''/'' # job_id \<and> CHR ''/'' \<notin> set run_id"
proof
  assume *: "split_job s = Some (run_id, job_id)"
  then obtain c where c: "dropWhile (\<lambda>c. c \<noteq> CHR ''/'') s = c # job_id" "takeWhile (\<lambda>c. c \<noteq> CHR ''/'') s = run_id"
    by (auto simp: split_job_def split: list.splits)
  have "c = CHR ''/''" using hd_dropWhile [of "\<lambda>c. c \<noteq> CHR ''/''" s] c(1) by auto
  moreover have "s = run_id @ c # job_id" using takeWhile_dropWhile_id [of "\<lambda>c. c \<noteq> CHR ''/''" s] c by simp
  moreover have "CHR ''/'' \<notin> set run_id" using c(2) set_takeWhileD by fastforce
  ultimately show "s = run_id @ CHR ''/'' # job_id \<and> CHR ''/'' \<notin> set run_id" by simp
qed (simp add: split_job_def takeWhile_slash)

section \<open>Concrete runs\<close>

text \<open>A machine where every call succeeds; \<open>ask\<close> is the daemon.\<close>

definition demo_outside :: "(request \<Rightarrow> world \<Rightarrow> client_answer) \<Rightarrow> outside" where
  "demo_outside ask = \<lparr>ou_env = demo_env, ou_ask = ask, ou_lag = (\<lambda>_. 1), ou_late = (\<lambda>_. 0), ou_run = (\<lambda>_ _ _. Inr (True, [])),
     ou_kill = (\<lambda>_ _. Inr ()), ou_alive = (\<lambda>pid w. pid \<notin> set (wd_signalled w)), ou_spawn = (\<lambda>_. Inr ()), ou_exited = (\<lambda>_. Inr None),
     ou_exe = Inr ''/bin/roster'', ou_canonical = Inr, ou_log_dir = Inr (), ou_log_open = Inr (), ou_rust_log = False,
     ou_unit_dir = Inr (), ou_unit_write = Inr (), ou_unit_remove = Inr (), ou_resources_file = (\<lambda>_. Inl []),
     ou_inventory = (4, 0, None), ou_debug = (\<lambda>_. []), ou_now = 0, ou_opened = (\<lambda>_. Inl []),
     ou_codecs = demo_codecs, ou_machine = demo_machine, ou_pid = 2, ou_db = Inl [], ou_db_read = None, ou_socket_dir = None,
     ou_events = []\<rparr>"

definition demo_world :: world where
  "demo_world = \<lparr>wd_time = 0, wd_unit = None, wd_nodes = NotFound, wd_host = empty_host, wd_out = [], wd_sent = [], wd_ran = [],
     wd_signalled = [], wd_spawned = []\<rparr>"

definition demo_info :: "nat \<Rightarrow> node_info" where
  "demo_info jobs = \<lparr>ni_version = ''0.1.0'', ni_pid = 7, ni_socket = [], ni_running_jobs = jobs, ni_jobs_survive_restart = False,
     ni_resources = demo_resources, ni_gpu_health = []\<rparr>"

lemma demo_paths:
  "\<exists>p. socket_path (ou_env (demo_outside ask)) = Some p" "\<exists>p. unit_path (ou_env (demo_outside ask)) = Some p"
  "\<exists>p. nodes_path (ou_env (demo_outside ask)) = Some p"
  by (simp_all add: demo_outside_def demo_env_def socket_path_def runtime_dir_def unit_path_def nodes_path_def in_home_def)

lemma demo_unit_exists: "unit_exists (demo_outside ask) w = Some (Inr (wd_unit w \<noteq> None), w)"
  using demo_paths(2) [of ask] by (auto simp: unit_exists_def and_then_def expected_def)

lemma demo_daemon_info:
  "ask Info w = Answered (InfoReply info) \<Longrightarrow> daemon_info (demo_outside ask) w = Some (Inr (Some info), asked (demo_outside ask) Info w)"
  "ask Info w = ConnectionRefused e \<Longrightarrow> daemon_info (demo_outside ask) w = Some (Inr None, w)"
  using demo_paths(1) [of ask] by (auto simp: daemon_info_def and_then_def expected_def asked_def demo_outside_def Let_def)

definition demo_late :: "request \<Rightarrow> world \<Rightarrow> client_answer" where
  "demo_late req w = (if 250 \<le> wd_time w then Answered (InfoReply (demo_info 0)) else ConnectionRefused [])"

theorem wait_for_daemon_ends_witness:
  "\<exists>info w'. wait_for_daemon (demo_outside demo_late) False JOURNAL demo_world = Some (Inr info, w')"
proof -
  have "socket_path (ou_env (demo_outside demo_late)) \<noteq> None" using demo_paths(1) [of demo_late] by auto
  from wait_for_daemon_ends [OF this, where t = 250 and w = demo_world and log = JOURNAL] show ?thesis
    by (auto simp: demo_world_def demo_late_def demo_outside_def)
qed

definition demo_busy :: "request \<Rightarrow> world \<Rightarrow> client_answer" where
  "demo_busy req w = Answered (InfoReply (demo_info 2))"

lemma demo_busy_stop:
  "\<exists>e. stop (demo_outside demo_busy) False w = Some (Inl e, asked (demo_outside demo_busy) Info w)"
  using demo_daemon_info(1) [of demo_busy w "demo_info 2"] by (simp add: stop_def demo_busy_def demo_info_def bail_def)

theorem no_untracked_jobs_witness:
  "\<exists>e w'. disable (demo_outside demo_busy) False (demo_world\<lparr>wd_unit := Some ''u''\<rparr>) = Some (Inl e, w') \<and> wd_signalled w' = []"
proof -
  let ?w = "demo_world\<lparr>wd_unit := Some ''u''\<rparr>"
  have busy: "busy_daemon (demo_outside demo_busy)"
    by (simp add: busy_daemon_def demo_outside_def demo_busy_def demo_info_def)
  have unforced: "\<not> forced (CmdDisable False)" by (simp add: forced_def)
  obtain e w' where "disable (demo_outside demo_busy) False ?w = Some (Inl e, w')"
    using demo_unit_exists [of demo_busy ?w] demo_busy_stop [of ?w] by (auto simp: disable_def)
  then show ?thesis
    using no_untracked_jobs [OF busy unforced, of tm ?w "Inl e" w'] by (auto simp: demo_world_def)
qed

definition demo_idle :: "request \<Rightarrow> world \<Rightarrow> client_answer" where
  "demo_idle req w = Answered (InfoReply (demo_info 0))"

lemma demo_idle_info:
  "daemon_info (demo_outside demo_idle) w = Some (Inr (Some (demo_info 0)), asked (demo_outside demo_idle) Info w)"
  by (rule demo_daemon_info) (simp add: demo_idle_def)

lemma demo_pid: "as_i32 (int (unat (ni_pid (demo_info n)))) = 7" "as_i32 (uint (ni_pid (demo_info n))) = 7"
proof -
  have "int (unat (ni_pid (demo_info n))) = 7" by (simp add: demo_info_def)
  moreover have "as_i32 7 = 7" by (simp add: as_i32_id is_i32_def)
  ultimately show "as_i32 (int (unat (ni_pid (demo_info n)))) = 7" "as_i32 (uint (ni_pid (demo_info n))) = 7" by simp_all
qed

lemma demo_stop: "wd_unit w = None \<Longrightarrow> \<exists>w'. stop (demo_outside demo_idle) False w = Some (Inr (), w') \<and> wd_unit w' = None"
proof -
  let ?o = "demo_outside demo_idle" and ?w = "asked (demo_outside demo_idle) Info w"
  assume "wd_unit w = None"
  then have u: "wd_unit ?w = None" by (simp add: asked_def)
  let ?w2 = "?w\<lparr>wd_signalled := wd_signalled ?w @ [7]\<rparr>"
  have "wait_exit ?o (ni_pid (demo_info 0)) 7 d ?w2 = (Inr (), ?w2)" for d
    by (subst wait_exit.simps) (simp add: demo_outside_def)
  moreover have "kill_process ?o 7 ?w = Some (Inr (), ?w2)" by (simp add: kill_process_def demo_outside_def)
  ultimately have "end_daemon ?o (demo_info 0) ?w = stopped (demo_info 0) ?w2"
    using u demo_unit_exists [of demo_idle ?w] by (simp add: end_daemon_def demo_pid Let_def)
  moreover have "stop ?o False w = end_daemon ?o (demo_info 0) ?w"
    using demo_idle_info [of w] by (simp add: stop_def demo_info_def)
  ultimately show ?thesis using u by (simp add: stopped_def println_def)
qed



definition demo_unreachable :: "request \<Rightarrow> world \<Rightarrow> client_answer" where
  "demo_unreachable req w = ConnectionRefused []"

theorem second_start_refused_witness:
  "\<exists>h e w'. reach host_init (host_step True) \<lparr>hd_host = h, hd_stage = (\<lambda>_. Absent)(1 := Serving 0)\<rparr>
     \<and> start_foreground (demo_outside demo_unreachable) None (demo_world\<lparr>wd_host := h\<rparr>) = Some (Inl e, w') \<and> wd_host w' = h"
proof -
  let ?o = "demo_outside demo_unreachable"
  obtain h where h: "reach host_init (host_step True) \<lparr>hd_host = h, hd_stage = (\<lambda>_. Absent)(1 := Serving 0)\<rparr>"
    "ho_pid h = Some 0" "ho_lock h = (\<lambda>_. None)(0 := Some 1)"
    by (rule first_serves)
  let ?w = "demo_world\<lparr>wd_host := h\<rparr>"
  have info: "daemon_info ?o ?w = Some (Inr None, ?w)" by (rule demo_daemon_info) (simp add: demo_unreachable_def)
  obtain path where path: "nodes_path (ou_env ?o) = Some path" using demo_paths(3) by blast
  have run: "\<exists>e. run_daemon ?o inventory nodes_pools ?w = Some (Inl e, ?w)" for inventory nodes_pools
    using h(2,3) by (simp add: run_daemon_def daemon_run_def lock_pid_file_def open_pid_file_def flock_cases)
  have "\<exists>e. start_foreground ?o None ?w = Some (Inl e, ?w)"
    using info path run
    by (auto simp: start_foreground_def load_resources_def call_defs nodes_load_def local_config_def and_then_def
        demo_world_def demo_outside_def split: prod.split)
  then obtain e where s: "start_foreground ?o None ?w = Some (Inl e, ?w)" by blast
  have "only_asked ?w ?w"
    using second_start_refused [of ?w "(\<lambda>_. Absent)(1 := Serving 0)" 1 ?o None "Inl e" ?w] h(1) s by simp
  then show ?thesis using h(1) s by fastforce
qed

end
