(* ===== verification/Crash_Facts.thy ===== *)
theory Crash_Facts
  imports Restarts Worker
begin

text \<open>
  What becomes of the runs when a daemon dies in the middle of a turn or of a submission: the next
  daemon always takes them back, each job as it was last written, and what had not been written
  yet is forgotten.
\<close>

section \<open>An example: two nodes\<close>

text \<open>
  Of two remote nodes the first is online (\<open>twin_daemon True\<close>) or not. A run is submitted, and the
  daemon dies in its first turn, after its sixth write: the job \<open>root\<close> is queued on record, and has been
  launched on the first node.
\<close>

definition twin_nodes :: "bool \<Rightarrow> node list" where
  "twin_nodes up = [demo_node\<lparr>nd_ssh := Some ''h1'', nd_online := up\<rparr>, demo_node\<lparr>nd_name := ''n2'', nd_ssh := Some ''h2''\<rparr>]"

definition twin_daemon :: "bool \<Rightarrow> daemon" where
  "twin_daemon up = daemon_new demo_resources (twin_nodes up) [pool_new demo_resources, pool_new demo_resources]"

definition twin_life :: life where
  "twin_life = \<lparr>lf_checks = gpu_checks_default, lf_daemon = start_run ''r1'' 0 diamond (twin_daemon True),
     lf_begun = \<lparr>st_runs = [], st_jobs = []\<rparr>\<rparr>"

lemma twin_life_reach: "reach (life_init demo_env) (life_step demo_env demo_codecs) twin_life"
proof -
  let ?s = "\<lparr>lf_checks = gpu_checks_default, lf_daemon = twin_daemon True, lf_begun = \<lparr>st_runs = [], st_jobs = []\<rparr>\<rparr>"
  have "\<forall>p \<in> set [pool_new demo_resources, pool_new demo_resources]. ledger p {#}" using ledger_new [OF demo_dense] by simp
  then have "initial demo_env (idle (twin_daemon True) gpu_checks_default)"
    unfolding initial_def twin_daemon_def
    by (intro conjI exI [of _ demo_resources] exI [of _ "twin_nodes True"] exI [of _ "[pool_new demo_resources, pool_new demo_resources]"])
      (simp_all add: demo_env_def twin_nodes_def)
  then have "life_init demo_env ?s"
    by (simp add: life_init_def store_ok_def twin_daemon_def daemon_new_def twin_nodes_def demo_node_def)
  moreover have "misfit (dm_pools (twin_daemon True)) diamond = None" by code_simp
  then have "life_step demo_env demo_codecs ?s twin_life"
    unfolding twin_life_def
    by (intro lf_submit diamond_well_formed) (simp_all add: twin_daemon_def daemon_new_def database_def)
  ultimately show ?thesis by (blast intro: reach_init reach_step)
qed

text \<open>Every launch succeeds; the handle tells the node.\<close>

definition launches :: launcher where
  "launches n r job a = Inr (job_handle_process (of_nat n) None None)"

definition twin_turn :: "daemon \<Rightarrow> (gpu_checks \<times> daemon) option" where
  "twin_turn d = scheduler_turn 7 demo_env 0 0 0 launches (\<lambda>_ _. Inr StillRunning) (\<lambda>_ _ _ _. Inl (Unreachable [])) (\<lambda>_. []) []
     (gpu_checks_default, d)"

definition root_runs_on :: "daemon \<Rightarrow> nat list" where
  "root_runs_on d = (case get_job (dm_runs d) ''r1'' ''root'' of None \<Rightarrow> [] | Some job \<Rightarrow> map ex_node (ji_executions job))"

definition twin_begun :: store where
  "twin_begun = \<lparr>st_runs = [], st_jobs = []\<rparr>"

definition twin_back :: "daemon \<Rightarrow> (daemon \<times> store) option" where
  "twin_back d = take_back_runs demo_codecs demo_env demo_machine 5 (twin_daemon False) (written_until demo_codecs twin_begun 6 d)"

text \<open>The turn, the restart with the first node offline, and the next turn.\<close>

lemma twin_first: "map_option (\<lambda>(c, d). (root_runs_on d, length (dm_store d), drop 5 (take 6 (dm_store d)))) (twin_turn (lf_daemon twin_life))
    = Some ([0], 7, [UpsertJob ''r1'' (queue_job (job_instance_new (mk_job ''root'' []) 0)) None])"
  by code_simp

lemma twin_second: "map_option (\<lambda>(c, d). map_option (\<lambda>(d2, st2). (hm_get (dm_runs d2) ''r1'' = None,
      map_option (\<lambda>(c3, d3). root_runs_on d3) (twin_turn d2))) (twin_back d)) (twin_turn (lf_daemon twin_life))
    = Some (Some (False, Some [1]))"
  by code_simp

lemma twin_turns:
  obtains c1 d1 d2 st2 c3 d3 where "twin_turn (lf_daemon twin_life) = Some (c1, d1)" "root_runs_on d1 = [0]"
    "length (dm_store d1) = 7" "drop 5 (take 6 (dm_store d1)) = [UpsertJob ''r1'' (queue_job (job_instance_new (mk_job ''root'' []) 0)) None]"
    "twin_back d1 = Some (d2, st2)" "hm_get (dm_runs d2) ''r1'' \<noteq> None" "twin_turn d2 = Some (c3, d3)" "root_runs_on d3 = [1]"
  using twin_first twin_second by (auto split: prod.splits)

lemma twin_begin: "length (dm_store (lf_daemon twin_life)) = 5"
  by code_simp

lemma twin_fresh: "fresh_daemon (lf_daemon twin_life) (twin_daemon False)"
  using ledger_new [OF demo_dense]
  by (simp add: fresh_daemon_def twin_life_def start_run_def Let_def twin_daemon_def daemon_new_def twin_nodes_def)

lemma new_job_readable [simp]: "readable_job cd (queue_job (job_instance_new spec n))" "readable_job cd (job_instance_new spec n)"
  by (simp_all add: readable_job_def job_instance_new_def)

lemma twin_readable: "readable_runs demo_codecs (lf_daemon twin_life)"
proof -
  have jobs: "\<forall>(_, job) \<in> set (wr_jobs (workflow_run_new 0 ''r1'' 0 diamond 0)). readable_job demo_codecs job"
    by (simp add: workflow_run_new_def, rule collect_jobs_all) simp_all
  have time: "parse_i32 (dec_int 0) = Some 0" by code_simp
  have "dm_runs (lf_daemon twin_life) = [(''r1'', workflow_run_new 0 ''r1'' 0 diamond 0)]"
    by (simp add: twin_life_def start_run_def twin_daemon_def daemon_new_def Let_def)
  then show ?thesis
    using jobs time by (simp add: readable_runs_def readable_run_def workflow_run_new_def demo_codecs_def)
qed

lemma twin_writes:
  assumes turn: "twin_turn (lf_daemon twin_life) = Some (c1, d1)"
  shows "readable_writes demo_codecs 6 (lf_daemon twin_life) d1"
proof -
  obtain c d where t: "twin_turn (lf_daemon twin_life) = Some (c, d)"
    "drop 5 (take 6 (dm_store d)) = [UpsertJob ''r1'' (queue_job (job_instance_new (mk_job ''root'' []) 0)) None]" by (rule twin_turns)
  have "d = d1" using t(1) turn by simp
  then show ?thesis unfolding readable_writes_def twin_begin using t(2) by simp
qed

section \<open>In the middle of a turn\<close>

text \<open>
  C7: Runs survive a crash in the middle of a turn: whatever the turn was doing and however many of
  its writes had reached the database, the next daemon takes back the runs of that database without
  a panic. What it takes back is the record of a daemon in order: every job is as it was before the
  turn, or, moved on along the transitions, as the turn last wrote it. The new daemon's pools
  account for exactly what the jobs taken back hold, and its state is again one the theorems speak of.
\<close>

theorem runs_survive_crashes:
  assumes "reach (life_init env) (life_step env cd) s"
    and "scheduler_turn tick_no env now utc at launch poll tail run_id local (lf_checks s, lf_daemon s) = Some (c', d')"
    and "length (dm_store (lf_daemon s)) \<le> k" and "k \<le> length (dm_store d')"
    and "fresh_daemon (lf_daemon s) d0" and "readable_runs cd (lf_daemon s)" and "readable_writes cd k (lf_daemon s) d'"
  shows "\<exists>dk d'' st''. later (lf_daemon s) dk \<and> current cd dk {} (written_until cd (lf_begun s) k d')
    \<and> take_back_runs cd env m again d0 (written_until cd (lf_begun s) k d') = Some (d'', st'')
    \<and> came_back env m again dk d'' \<and> accounts (dm_pools d'') (runs_held (dm_runs d''))
    \<and> safe env (idle d'' gpu_checks_default)
    \<and> reach (life_init env) (life_step env cd) \<lparr>lf_checks = gpu_checks_default, lf_daemon = d'', lf_begun = st''\<rparr>"
proof -
  have s: "s = \<lparr>lf_checks = lf_checks s, lf_daemon = lf_daemon s, lf_begun = lf_begun s\<rparr>" by simp
  from crash_keeps [OF lives.inv_reach [OF assms(1)] assms(2-7), of m again] obtain dk d'' st'' where
    d'': "later (lf_daemon s) dk" "current cd dk {} (written_until cd (lf_begun s) k d')"
      "take_back_runs cd env m again d0 (written_until cd (lf_begun s) k d') = Some (d'', st'')"
      "came_back env m again dk d''" "accounts (dm_pools d'') (runs_held (dm_runs d''))"
      "life_inv env cd \<lparr>lf_checks = gpu_checks_default, lf_daemon = d'', lf_begun = st''\<rparr>" by blast
  have "life_step env cd s \<lparr>lf_checks = gpu_checks_default, lf_daemon = d'', lf_begun = st''\<rparr>"
    by (subst s, rule lf_crash [OF assms(2-7) d''(3)])
  then have "reach (life_init env) (life_step env cd) \<lparr>lf_checks = gpu_checks_default, lf_daemon = d'', lf_begun = st''\<rparr>"
    by (rule reach_step [OF assms(1)])
  then show ?thesis using d'' life_inv_safe [OF d''(6)] by auto
qed

theorem runs_survive_crashes_witness:
  "\<exists>c1 d1 dk d2 st2. twin_turn (lf_daemon twin_life) = Some (c1, d1)
    \<and> current demo_codecs dk {} (written_until demo_codecs twin_begun 6 d1)
    \<and> twin_back d1 = Some (d2, st2) \<and> came_back demo_env demo_machine 5 dk d2"
proof -
  obtain c1 d1 where t: "twin_turn (lf_daemon twin_life) = Some (c1, d1)" "length (dm_store d1) = 7" by (rule twin_turns)
  have begun: "lf_begun twin_life = twin_begun" "lf_checks twin_life = gpu_checks_default" by (simp_all add: twin_life_def twin_begun_def)
  from runs_survive_crashes [OF twin_life_reach t(1) [unfolded twin_turn_def, folded begun(2)] _ _ twin_fresh twin_readable
      twin_writes [OF t(1)], of demo_machine 5] t twin_begin
  show ?thesis unfolding twin_back_def begun by fastforce
qed

text \<open>
  C26: A launch that was not written down is forgotten: when the daemon dies after it has launched a
  job and before the job's row says Running, the job comes back as one that waits, with no node
  and nothing booked for it. The scheduler then places it anew, on whatever node has room.
\<close>

theorem unwritten_launch_forgotten:
  assumes "reach (life_init env) (life_step env cd) s"
    and "scheduler_turn tick_no env now utc at launch poll tail run_id local (lf_checks s, lf_daemon s) = Some (c', d')"
    and "length (dm_store (lf_daemon s)) \<le> k" and "k \<le> length (dm_store d')"
    and "fresh_daemon (lf_daemon s) d0" and "readable_runs cd (lf_daemon s)" and "readable_writes cd k (lf_daemon s) d'"
    and "take_back_runs cd env m again d0 (written_until cd (lf_begun s) k d') = Some (d'', st'')"
    and "hm_get (dm_runs d'') r \<noteq> None"
    and "get_job (dm_runs (lf_daemon s)) r j = Some job" and "ji_state job \<noteq> Running"
    and "\<forall>job' node. UpsertJob r job' node \<in> set (drop (length (dm_store (lf_daemon s))) (take k (dm_store d')))
      \<and> ji_job_id job' = j \<longrightarrow> ji_state job' \<noteq> Running"
  shows "\<exists>job''. get_job (dm_runs d'') r j = Some job'' \<and> ji_state job'' \<noteq> Running \<and> ji_executions job'' = []"
proof -
  from crash_keeps [OF lives.inv_reach [OF assms(1)] assms(2-7), of m again] assms(8) obtain dk where
    dk: "later (lf_daemon s) dk" "dm_store dk = take k (dm_store d')" "came_back env m again dk d''"
      "life_inv env cd \<lparr>lf_checks = gpu_checks_default, lf_daemon = d'', lf_begun = st''\<rparr>" "\<exists>R. daemon_ok R dk" by auto
  have ok: "runs_ok (job_ok (length (dm_nodes d''))) (dm_runs d'')"
    using dk(4) by (simp add: life_inv_def sys_inv_def daemon_ok_def)
  obtain us jobk where us: "dm_store dk = dm_store (lf_daemon s) @ us" and jobk: "get_job (dm_runs dk) r j = Some jobk"
    "get_job (dm_runs (lf_daemon s)) r j = Some jobk \<or> (\<exists>node. UpsertJob r jobk node \<in> set us)"
    using dk(1) assms(10) unfolding later_def by blast
  obtain seq where came: "get_job (dm_runs d'') r j = Some (taken_back env m again (dm_nodes d'') r jobk (job_instance_new (ji_spec jobk) seq))"
    using came_back_job [OF dk(3) assms(9), of j] jobk(1) by auto
  let ?job = "taken_back env m again (dm_nodes d'') r jobk (job_instance_new (ji_spec jobk) seq)"
  have id: "ji_job_id jobk = j" using dk(5) runs_ok_get(1) [OF _ jobk(1)] by (auto simp: daemon_ok_def)
  have "us = drop (length (dm_store (lf_daemon s))) (take k (dm_store d'))" using us dk(2) by (metis append_eq_conv_conj)
  then have "ji_state jobk \<noteq> Running" using jobk(2) id assms(10,11,12) by auto
  then have waits: "ji_state ?job \<noteq> Running" by (simp add: taken_back_def Let_def job_instance_new_def)
  have "ji_executions ?job = []" using runs_ok_get(2) [OF ok came] waits by (simp add: job_ok_def)
  then show ?thesis using came waits by blast
qed

theorem unwritten_launch_forgotten_witness:
  "\<exists>c1 d1 d2 st2 job c3 d3. twin_turn (lf_daemon twin_life) = Some (c1, d1) \<and> root_runs_on d1 = [0]
    \<and> twin_back d1 = Some (d2, st2) \<and> get_job (dm_runs d2) ''r1'' ''root'' = Some job \<and> ji_state job \<noteq> Running
    \<and> twin_turn d2 = Some (c3, d3) \<and> root_runs_on d3 = [1]"
proof -
  obtain c1 d1 d2 st2 c3 d3 where t: "twin_turn (lf_daemon twin_life) = Some (c1, d1)" "root_runs_on d1 = [0]"
    "length (dm_store d1) = 7" "drop 5 (take 6 (dm_store d1)) = [UpsertJob ''r1'' (queue_job (job_instance_new (mk_job ''root'' []) 0)) None]"
    "twin_back d1 = Some (d2, st2)" "hm_get (dm_runs d2) ''r1'' \<noteq> None" "twin_turn d2 = Some (c3, d3)" "root_runs_on d3 = [1]"
    by (rule twin_turns)
  have begun: "lf_begun twin_life = twin_begun" "lf_checks twin_life = gpu_checks_default" by (simp_all add: twin_life_def twin_begun_def)
  have job: "get_job (dm_runs (lf_daemon twin_life)) ''r1'' ''root'' = Some (job_instance_new (mk_job ''root'' []) 0)" by code_simp
  from unwritten_launch_forgotten [OF twin_life_reach t(1) [unfolded twin_turn_def, folded begun(2)] _ _ twin_fresh twin_readable
      twin_writes [OF t(1)], of demo_machine 5 d2 st2 "''r1''" "''root''", OF _ _ t(5) [unfolded twin_back_def begun [symmetric]] t(6) job]
    t twin_begin
  show ?thesis by (auto simp: job_instance_new_def)
qed

section \<open>In the middle of a submission\<close>

lemma store_reach_ok: "reach (life_init env) (life_step env cd) s \<Longrightarrow> store_ok (database cd (lf_begun s) (lf_daemon s))"
  using lives.inv_reach [of env cd s] by (auto simp: life_inv_def durable_def current_def)

text \<open>
  C27: A submission writes the run and then its jobs one by one. When the daemon dies in between, the
  run is listed as Pending from then on; the next daemon takes it back exactly when at least one of
  its jobs had been written. A run whose record alone was written stays Pending for good.
\<close>

theorem cut_off_submission:
  assumes "reach (life_init env) (life_step env cd) s" and "d = lf_daemon s" and "db = database cd (lf_begun s) d"
    and "r \<notin> rr_run_id ` set (st_runs db)" and "\<forall>row \<in> set (st_jobs db). jr_run_id (sj_row row) \<noteq> r"
    and "n \<le> length (wr_jobs (workflow_run_new now r (dm_run_counter d) spec (dm_job_counter d)))"
    and "db' = written_until cd (lf_begun s) (Suc (length (dm_store d) + n)) (start_run r now spec d)"
  shows "get_run r db' = Some \<lparr>rw_run_id = r, rw_workflow_name = ws_name spec, rw_status = ''Pending'', rw_created_at = cd_time cd now\<rparr>
    \<and> (r \<in> sr_run_id ` set (unfinished_runs db') \<longleftrightarrow> 0 < n)"
proof -
  define run where "run = workflow_run_new now r (dm_run_counter d) spec (dm_job_counter d)"
  let ?js = "take n (wr_jobs run)"
  have run: "wr_run_id run = r" "wr_workflow_name run = ws_name spec" "wr_created_at run = now"
    "wr_jobs run = collect_jobs (dm_job_counter d) (ws_jobs spec) []" by (simp_all add: run_def workflow_run_new_def)
  have all: "distinct (map fst (wr_jobs run))"
    "\<forall>(j, job) \<in> set (wr_jobs run). ji_job_id job = j \<and> ji_executions job = [] \<and> ji_state job = Pending"
    using collect_jobs_wf [of "[]" "dm_job_counter d" "ws_jobs spec"]
      collect_jobs_all [of "[]" "\<lambda>j job. ji_job_id job = j \<and> ji_executions job = [] \<and> ji_state job = Pending" "ws_jobs spec" "dm_job_counter d"]
    by (auto simp: run(4) hm_wf_def job_instance_new_def)
  have js: "distinct (map fst ?js)" "\<forall>(j, job) \<in> set ?js. ji_job_id job = j \<and> ji_executions job = []"
    using all by (auto simp: take_map [symmetric] dest: in_set_takeD)
  have pend: "\<forall>(j, job) \<in> set ?js. ji_state job = Pending" using all(2) by (auto dest: in_set_takeD)
  define st1 where "st1 = upsert_run cd run db"
  have "filter (\<lambda>x. rr_run_id x \<noteq> r) (st_runs db) = st_runs db" using assms(4) by (intro filter_True) auto
  then have st1: "st_runs st1 = st_runs db @ [record_of_run cd run]" "st_jobs st1 = st_jobs db"
    by (simp_all add: st1_def upsert_run_def record_of_run_def run(1))
  have "written_until cd (lf_begun s) (Suc (length (dm_store d) + n)) (start_run r now spec d)
      = fold (store_write_apply cd) (map (\<lambda>(_, job). UpsertJob r job None) ?js) st1"
    by (simp add: written_until_def start_run_def Let_def st1_def run_def assms(3) database_def assms(2) take_map)
  then have db': "db' = fold (store_write_apply cd) (map (\<lambda>(_, job). UpsertJob r job None) ?js) st1" by (simp add: assms(7))
  have no_rows: "\<forall>row \<in> set (st_jobs st1). fst (job_key row) \<noteq> r" using assms(5) st1 by (simp add: job_key_def)
  note rows = upsert_jobs_rows(1) [OF js no_rows, where cd = cd and ns = "dm_nodes d", folded db']
    upsert_jobs_rows(2) [OF js no_rows, where cd = cd, folded db']
  have jobs: "jobs_of r db' = map (\<lambda>(_, job). saved_of cd (dm_nodes d) r job) ?js"
    using assms(5) by (auto simp: jobs_of_def rows st1 saved_of_def row_of_job_def filter_empty_conv filter_id_conv case_prod_beta')
  have pending: "jr_state (sj_row x) = ''Pending''" if x: "x \<in> set (jobs_of r db')" for x
  proof -
    obtain j job where "(j, job) \<in> set ?js" "x = saved_of cd (dm_nodes d) r job" using x by (auto simp: jobs)
    then have "ji_state job = Pending" "x = saved_of cd (dm_nodes d) r job" using pend by auto
    then show ?thesis by (simp add: saved_of_def row_of_job_def as_str_def)
  qed
  have "store_ok st1" unfolding st1_def using store_reach_ok [OF assms(1)] assms(2,3) by (auto intro: upsert_run_ok)
  then have ok: "store_ok db'" unfolding db' by (rule store_writes_ok)
  have rec: "record_of_run cd run \<in> set (st_runs db')" by (simp add: rows st1)
  have "from_str ''Pending'' = Some Pending" by code_simp
  then have "set (read_states r db') \<subseteq> {Pending}" using pending by (auto simp: read_states_def)
  then have status: "get_run r db' = Some \<lparr>rw_run_id = r, rw_workflow_name = ws_name spec, rw_status = ''Pending'', rw_created_at = cd_time cd now\<rparr>"
    using get_run_summary [OF ok rec] run by (simp add: record_of_run_def summary_of_def derive_run_state_pending run_state_as_str_def)
  have "r \<in> sr_run_id ` set (unfinished_runs db') \<longleftrightarrow> (\<exists>x \<in> set (jobs_of r db'). jr_state (sj_row x) \<in> {''Pending'', ''Queued'', ''Running''})"
  proof -
    have "r \<in> rr_run_id ` set (st_runs db')" using rec run(1) by (force simp: record_of_run_def)
    then show ?thesis by (auto simp: unfinished_runs_def list_ex_iff image_iff)
  qed
  also have "\<dots> \<longleftrightarrow> jobs_of r db' \<noteq> []" using pending by (cases "jobs_of r db'") auto
  also have "\<dots> \<longleftrightarrow> 0 < n" using assms(6) by (auto simp: jobs run_def)
  finally show ?thesis using status by blast
qed

theorem cut_off_submission_witness:
  "get_run ''r2'' (written_until demo_codecs twin_begun 6 (start_run ''r2'' 0 diamond (lf_daemon twin_life)))
      = Some \<lparr>rw_run_id = ''r2'', rw_workflow_name = ws_name diamond, rw_status = ''Pending'', rw_created_at = cd_time demo_codecs 0\<rparr>
    \<and> ''r2'' \<notin> sr_run_id ` set (unfinished_runs (written_until demo_codecs twin_begun 6 (start_run ''r2'' 0 diamond (lf_daemon twin_life))))"
proof -
  let ?db = "database demo_codecs twin_begun (lf_daemon twin_life)"
  have begun: "lf_begun twin_life = twin_begun" by (simp add: twin_life_def twin_begun_def)
  have ids: "rr_run_id ` set (st_runs ?db) = {''r1''}" "(\<lambda>row. jr_run_id (sj_row row)) ` set (st_jobs ?db) = {''r1''}"
    by code_simp+
  have "jr_run_id (sj_row row) = ''r1''" if "row \<in> set (st_jobs ?db)" for row
    using imageI [OF that, of "\<lambda>row. jr_run_id (sj_row row)"] by (simp only: ids singleton_iff)
  then have fresh: "''r2'' \<notin> rr_run_id ` set (st_runs ?db)" "\<forall>row \<in> set (st_jobs ?db). jr_run_id (sj_row row) \<noteq> ''r2''"
    unfolding ids(1) by simp_all
  have "Suc (length (dm_store (lf_daemon twin_life)) + 0) = 6" by (simp add: twin_begin)
  then show ?thesis
    using cut_off_submission [OF twin_life_reach refl refl, unfolded begun, OF fresh, of 0, OF _ refl] by simp
qed

end
