(* ===== verification/Remote_Executor.thy ===== *)
theory Remote_Executor
  imports Worker
begin

text \<open>
  The controller's side of an execution on another node (src/src/executor/remote.rs): worker
  operations sent through the node's tunnel. What the network does is an argument: connecting
  succeeds or fails, and an exchange brings a reply, fails or takes too long. \<open>dbg\<close> is the debug
  form of a reply. Each operation returns its result and the node's online flag.
\<close>

section \<open>The operations\<close>

datatype exchange_answer = Answered response | ExchangeFailed string | NoReplyInTime

record network =
  nw_connect :: "string option"
  nw_exchange :: "request \<Rightarrow> exchange_answer"

definition lost :: "string \<Rightarrow> executor_error \<times> bool" where
  "lost reason = (Unreachable reason, False)"

text \<open>\<open>connect\<close>: an offline node is not tried.\<close>

definition connect :: "bool \<Rightarrow> network \<Rightarrow> (executor_error + unit) \<times> bool" where
  "connect online nw =
     (if \<not> online then (Inl (Unreachable ''node offline''), online)
      else case nw_connect nw of
        Some e \<Rightarrow> map_prod Inl (\<lambda>b. b) (lost e)
      | None \<Rightarrow> (Inr (), online))"

definition exchange :: "bool \<Rightarrow> network \<Rightarrow> request \<Rightarrow> (executor_error + response) \<times> bool" where
  "exchange online nw req =
     (case nw_exchange nw req of
        Answered (ErrorReply message) \<Rightarrow> (Inl (RemoteError message), online)
      | Answered response \<Rightarrow> (Inr response, online)
      | ExchangeFailed e \<Rightarrow> map_prod Inl (\<lambda>b. b) (lost e)
      | NoReplyInTime \<Rightarrow> map_prod Inl (\<lambda>b. b) (lost ''no reply''))"

definition handle_key :: "job_handle \<Rightarrow> executor_error + (string \<times> string)" where
  "handle_key handle =
     (case handle_backend handle of
        Remote run_id job_id \<Rightarrow> Inr (run_id, job_id)
      | _ \<Rightarrow> Inl (RemoteError ''not a remote handle''))"

definition unexpected :: "(response \<Rightarrow> string) \<Rightarrow> response \<Rightarrow> executor_error" where
  "unexpected dbg other = RemoteError (''unexpected reply: '' @ dbg other)"

definition remote_launch :: "(response \<Rightarrow> string) \<Rightarrow> network \<Rightarrow> string \<Rightarrow> job_instance \<Rightarrow> allocation \<Rightarrow> bool
    \<Rightarrow> (executor_error + job_handle) \<times> bool" where
  "remote_launch dbg nw run_id job placement online =
     (case connect online nw of
        (Inl e, up) \<Rightarrow> (Inl e, up)
      | (Inr _, up) \<Rightarrow>
          let (result, up') = exchange up nw (Launch run_id (ji_spec job) placement);
              handle = (\<lambda>pid. job_handle_remote pid run_id (ji_job_id job)) in
          (case result of
             Inr (Launched pid) \<Rightarrow> Inr (handle pid)
           | Inr (RejectedReply reason) \<Rightarrow> Inl (Rejected reason)
           | Inr other \<Rightarrow> Inl (unexpected dbg other)
           | Inl (Unreachable _) \<Rightarrow> Inr (handle 0)
           | Inl e \<Rightarrow> Inl e, up'))"

text \<open>The operations on a handle: its key, a connection, one exchange, and the reply they expect.\<close>

definition on_handle :: "network \<Rightarrow> (string \<Rightarrow> string \<Rightarrow> request) \<Rightarrow> (response \<Rightarrow> executor_error + 'r) \<Rightarrow> job_handle \<Rightarrow> bool
    \<Rightarrow> (executor_error + 'r) \<times> bool" where
  "on_handle nw req expected handle online =
     (case handle_key handle of
        Inl e \<Rightarrow> (Inl e, online)
      | Inr (run_id, job_id) \<Rightarrow> (case connect online nw of
          (Inl e, up) \<Rightarrow> (Inl e, up)
        | (Inr _, up) \<Rightarrow> (case exchange up nw (req run_id job_id) of
            (Inl e, up') \<Rightarrow> (Inl e, up')
          | (Inr response, up') \<Rightarrow> (expected response, up'))))"

definition remote_poll :: "(response \<Rightarrow> string) \<Rightarrow> network \<Rightarrow> job_handle \<Rightarrow> bool \<Rightarrow> (executor_error + poll_result) \<times> bool" where
  "remote_poll dbg nw =
     on_handle nw Poll (\<lambda>response. case response of
         Polled None \<Rightarrow> Inr StillRunning
       | Polled (Some code) \<Rightarrow> Inr (Exited code)
       | other \<Rightarrow> Inl (unexpected dbg other))"

definition remote_cancel :: "(response \<Rightarrow> string) \<Rightarrow> network \<Rightarrow> job_handle \<Rightarrow> bool \<Rightarrow> (executor_error + unit) \<times> bool" where
  "remote_cancel dbg nw =
     on_handle nw Kill (\<lambda>response. case response of
         Killed \<Rightarrow> Inr ()
       | other \<Rightarrow> Inl (unexpected dbg other))"

definition remote_tail :: "(response \<Rightarrow> string) \<Rightarrow> network \<Rightarrow> string \<Rightarrow> string \<Rightarrow> u64 \<Rightarrow> bool \<Rightarrow> (executor_error + string) \<times> bool" where
  "remote_tail dbg nw run_id job_id bytes online =
     (case connect online nw of
        (Inl e, up) \<Rightarrow> (Inl e, up)
      | (Inr _, up) \<Rightarrow> (case exchange up nw (LogTail run_id job_id bytes) of
          (Inl e, up') \<Rightarrow> (Inl e, up')
        | (Inr (Log content), up') \<Rightarrow> (Inr content, up')
        | (Inr other, up') \<Rightarrow> (Inl (unexpected dbg other), up')))"

section \<open>Facts\<close>

lemma connect_result:
  "connect online nw = (Inr (), up) \<longleftrightarrow> online \<and> nw_connect nw = None \<and> up"
  by (auto simp: connect_def lost_def split: option.splits)

text \<open>An operation fails as unreachable exactly when it leaves the node offline.\<close>

lemma connect_offline: "fst (connect online nw) \<noteq> Inr () \<longleftrightarrow> \<not> snd (connect online nw)"
  by (auto simp: connect_def lost_def split: option.splits)

lemma exchange_offline:
  "(\<exists>reason. fst (exchange True nw req) = Inl (Unreachable reason)) \<longleftrightarrow> \<not> snd (exchange True nw req)"
  by (auto simp: exchange_def lost_def split: exchange_answer.splits response.splits)

end
