(* ===== verification/Dispatch.thy ===== *)
theory Dispatch
  imports Server Store Remote_Executor
begin

text \<open>
  The daemon's side of a connection (src/src/ipc/server.rs) and the client's (src/src/ipc/client.rs):
  a line is read, dispatched and answered. The handlers that only read the database are here, the
  others in \<open>Server\<close> and \<open>Worker\<close>. What lies outside the program, from the YAML and JSON
  readers to the machine, is the argument \<open>ext\<close>; \<open>None\<close> is a panic.
\<close>

section \<open>Requests answered from the database\<close>

definition handle_ps :: "store \<Rightarrow> response" where
  "handle_ps st =
     PsResult (map (\<lambda>row. \<lparr>rs_run_id = rw_run_id row, rs_workflow_name = rw_workflow_name row, rs_status = rw_status row\<rparr>)
       (list_runs st))"

definition job_detail_of :: "job_row \<Rightarrow> job_detail" where
  "job_detail_of j =
     \<lparr>jd_job_id = jr_job_id j, jd_state = jr_state j, jd_exit_code = jr_exit_code j, jd_started_at = jr_started_at j,
      jd_ended_at = jr_ended_at j, jd_log_path = jr_log_path j, jd_reason = jr_reason j\<rparr>"

definition handle_status :: "string \<Rightarrow> store \<Rightarrow> response" where
  "handle_status run_id st =
     (case get_run run_id st of
        None \<Rightarrow> ErrorReply (''run '' @ quoted run_id @ '' not found'')
      | Some row \<Rightarrow>
          StatusResult \<lparr>rd_run_id = rw_run_id row, rd_workflow_name = rw_workflow_name row, rd_status = rw_status row,
            rd_created_at = rw_created_at row, rd_jobs = map job_detail_of (list_jobs run_id st)\<rparr>)"

definition LOG_BYTES :: u64 where "LOG_BYTES = push_bit 20 1"

text \<open>The node whose log path, as text, is the stored one.\<close>

fun find_log_node :: "environment \<Rightarrow> string \<Rightarrow> string \<Rightarrow> string \<Rightarrow> node list \<Rightarrow> node option option" where
  "find_log_node env run_id job_id path [] = Some None"
| "find_log_node env run_id job_id path (n # ns) = do {
     p \<leftarrow> log_path env n run_id job_id;
     if from_utf8_lossy p = path then Some (Some n) else find_log_node env run_id job_id path ns }"

definition handle_logs :: "environment \<Rightarrow> (node \<Rightarrow> string \<Rightarrow> string \<Rightarrow> u64 \<Rightarrow> executor_error + string) \<Rightarrow> node list
    \<Rightarrow> string \<Rightarrow> string \<Rightarrow> store \<Rightarrow> response option" where
  "handle_logs env tail ns run_id job_id st =
     (case find (\<lambda>j. jr_job_id j = job_id) (list_jobs run_id st) of
        None \<Rightarrow> Some (ErrorReply (''job '' @ quoted job_id @ '' not found in run '' @ quoted run_id))
      | Some job \<Rightarrow> (case jr_log_path job of
          None \<Rightarrow> Some (ErrorReply ''log not available yet'')
        | Some path \<Rightarrow> do {
            found \<leftarrow> find_log_node env run_id job_id path ns;
            Some (case found of
              None \<Rightarrow> ErrorReply (''the node that ran it is no longer in nodes.yaml; its log was '' @ path)
            | Some n \<Rightarrow> (case tail n run_id job_id LOG_BYTES of
                Inr content \<Rightarrow> Log content
              | Inl e \<Rightarrow> ErrorReply (''can'' @ [CHR 0x27] @ ''t read the log on '' @ nd_name n @ '': '' @ executor_error_display e))) }))"

section \<open>All requests\<close>

text \<open>What a request finds outside the program.\<close>

record external =
  ext_parse :: "string \<Rightarrow> string + workflow_spec"
  ext_ids :: "workflow_spec \<Rightarrow> string list"
  ext_run_id :: string
  ext_now :: datetime
  ext_codecs :: codecs
  ext_env :: environment
  ext_machine :: machine
  ext_launch :: launch_answers
  ext_term_error :: "string option"
  ext_log_file :: "string \<Rightarrow> string + string"
  ext_tail :: "node \<Rightarrow> string \<Rightarrow> string \<Rightarrow> u64 \<Rightarrow> executor_error + string"
  ext_forward :: "node \<Rightarrow> request \<Rightarrow> string + response"
  ext_readings :: "gpu_health list"
  ext_version :: string
  ext_pid :: u32
  ext_save :: "string save_outcome"
  ext_cards_json :: "card_map \<Rightarrow> string"

text \<open>What the handlers share: the daemon's state, its database, worker and quarantines.\<close>

record served =
  sv_daemon :: daemon
  sv_store :: store
  sv_processes :: processes
  sv_quarantines :: "string quarantines"

text \<open>The daemon's state after a request, with the rows it wrote in the database.\<close>

definition set_daemon :: "codecs \<Rightarrow> daemon \<Rightarrow> served \<Rightarrow> served" where
  "set_daemon cd d' s =
     s\<lparr>sv_daemon := d',
       sv_store := fold (store_write_apply cd) (drop (length (dm_store (sv_daemon s))) (dm_store d')) (sv_store s)\<rparr>"

definition dispatch_info :: "external \<Rightarrow> served \<Rightarrow> (response \<times> served) option" where
  "dispatch_info ext s = do {
     socket \<leftarrow> socket_path (ext_env ext);
     let (n, fx, ps) = worker_running (ext_machine ext) (sv_processes s);
     Some (handle_info (ext_version ext) (ext_pid ext) socket n (mc_scopes (ext_machine ext)) (ext_readings ext) (sv_daemon s),
           s\<lparr>sv_processes := ps\<rparr>) }"

definition dispatch_clear :: "external \<Rightarrow> string option \<Rightarrow> u32 \<Rightarrow> served \<Rightarrow> response \<times> served" where
  "dispatch_clear ext name gpu s =
     (case handle_clear_gpu (sv_daemon s) name gpu of
        Inl target \<Rightarrow>
          ((case ext_forward ext target (ClearGpu None gpu) of
              Inr reply \<Rightarrow> reply
            | Inl e \<Rightarrow> ErrorReply (''node '' @ quoted (unwrap_or name []) @ '': '' @ e)), s)
      | Inr (reply, None) \<Rightarrow> (reply, s)
      | Inr (reply, Some c) \<Rightarrow>
          (reply, s\<lparr>sv_quarantines :=
             monitor_clear (ext_cards_json ext) (ext_save ext) (ext_now ext) c (sv_quarantines s)\<rparr>))"

definition dispatch :: "external \<Rightarrow> request \<Rightarrow> served \<Rightarrow> (response \<times> served) option" where
  "dispatch ext req s =
     (let d = sv_daemon s; env = ext_env ext; m = ext_machine ext; keep = map_option (\<lambda>r. (r, s));
          worked = map_option (\<lambda>(r, ps). (r, s\<lparr>sv_processes := ps\<rparr>)) in
      case req of
        Ping \<Rightarrow> Some (Pong, s)
      | Submit yaml \<Rightarrow>
          map_option (\<lambda>(r, d'). (r, set_daemon (ext_codecs ext) d' s))
            (handle_submit (ext_parse ext) (ext_ids ext) (ext_run_id ext) (ext_now ext) yaml d)
      | Ps \<Rightarrow> Some (handle_ps (sv_store s), s)
      | Status run_id \<Rightarrow> Some (handle_status run_id (sv_store s), s)
      | Logs run_id job_id \<Rightarrow> keep (handle_logs env (ext_tail ext) (dm_nodes d) run_id job_id (sv_store s))
      | Cancel run_id \<Rightarrow> (let (r, handles, d') = handle_cancel run_id d in Some (r, s\<lparr>sv_daemon := d'\<rparr>))
      | Info \<Rightarrow> dispatch_info ext s
      | Nodes \<Rightarrow> keep (handle_nodes (ext_readings ext) d)
      | ClearGpu name gpu \<Rightarrow> Some (dispatch_clear ext name gpu s)
      | GpuQualified index passed reason \<Rightarrow>
          (let (r, q) = handle_gpu_qualified (ext_cards_json ext) (ext_save ext) (ext_now ext) d index passed reason (sv_quarantines s)
           in Some (r, s\<lparr>sv_quarantines := q\<rparr>))
      | Launch run_id job allocation \<Rightarrow>
          worked (map_option (\<lambda>(r, child, ps). (r, ps)) (worker_launch env m (ext_launch ext) run_id job allocation (sv_processes s)))
      | Poll run_id job_id \<Rightarrow> worked (map_option (\<lambda>(r, fx, ps). (r, ps)) (worker_poll env m run_id job_id (sv_processes s)))
      | Kill run_id job_id \<Rightarrow>
          worked (map_option (\<lambda>(r, fx, ps). (r, ps)) (worker_kill env m (ext_term_error ext) run_id job_id (sv_processes s)))
      | LogTail run_id job_id bytes \<Rightarrow> keep (worker_tail env (ext_log_file ext) run_id job_id bytes))"

section \<open>A connection\<close>

text \<open>What reading a line within five seconds brings; a line of no bytes is a closed connection.\<close>

datatype line_read = ReadElapsed | ReadFailed string | ReadLine string

definition read_request :: "(string \<Rightarrow> string + request) \<Rightarrow> line_read \<Rightarrow> string + request" where
  "read_request from_json result =
     (case result of
        ReadElapsed \<Rightarrow> Inl ''read timeout''
      | ReadFailed e \<Rightarrow> Inl (''io error: '' @ e)
      | ReadLine line \<Rightarrow>
          if line = [] then Inl ''client disconnected''
          else map_sum (\<lambda>e. ''deserialization error: '' @ e) (\<lambda>r. r) (from_json (trim line)))"

definition write_response :: "(response \<Rightarrow> string) \<Rightarrow> response \<Rightarrow> string" where
  "write_response to_json reply = to_json reply @ [newline]"

definition handle_connection :: "(string \<Rightarrow> string + request) \<Rightarrow> (response \<Rightarrow> string) \<Rightarrow> external \<Rightarrow> line_read \<Rightarrow> served
    \<Rightarrow> (string \<times> served) option" where
  "handle_connection from_json to_json ext result s =
     (case read_request from_json result of
        Inr req \<Rightarrow> map_option (map_prod (write_response to_json) (\<lambda>t. t)) (dispatch ext req s)
      | Inl message \<Rightarrow> Some (write_response to_json (ErrorReply message), s))"

text \<open>The client's side: the line it sends, and what it makes of the line it gets.\<close>

definition exchange_line :: "(request \<Rightarrow> string) \<Rightarrow> request \<Rightarrow> string" where
  "exchange_line to_json req = to_json req @ [newline]"

definition exchange_reply :: "(string \<Rightarrow> string + response) \<Rightarrow> string \<Rightarrow> string + response" where
  "exchange_reply from_json line = from_json (trim line)"

section \<open>A node over time\<close>

text \<open>One request served, whatever it finds outside.\<close>

inductive served_step :: "served \<Rightarrow> served \<Rightarrow> bool" where
  "dispatch ext req s = Some (reply, s') \<Longrightarrow> served_step s s'"

lemma set_daemon_processes [simp]: "sv_processes (set_daemon cd d s) = sv_processes s"
  by (simp add: set_daemon_def)

lemma dispatch_clear_processes: "sv_processes (snd (dispatch_clear ext name gpu s)) = sv_processes s"
  by (simp add: dispatch_clear_def split: sum.splits prod.splits option.splits)

lemma dispatch_worker:
  "dispatch ext (Launch run_id job a) s = Some (reply, s') \<Longrightarrow> remembers (sv_processes s) (sv_processes s')"
  "dispatch ext (Poll run_id job_id) s = Some (reply, s') \<Longrightarrow> remembers (sv_processes s) (sv_processes s')"
  "dispatch ext (Kill run_id job_id) s = Some (reply, s') \<Longrightarrow> remembers (sv_processes s) (sv_processes s')"
  using worker_launch_keeps(1) worker_poll_keeps(1) worker_kill_keeps by (auto simp: dispatch_def Let_def)

lemma dispatch_info_worker:
  assumes "dispatch ext Info s = Some (reply, s')"
  shows "remembers (sv_processes s) (sv_processes s')"
proof -
  obtain n fx ps where w: "worker_running (ext_machine ext) (sv_processes s) = (n, fx, ps)"
    by (cases "worker_running (ext_machine ext) (sv_processes s)") auto
  have "sv_processes s' = ps" using assms w by (auto simp: dispatch_def dispatch_info_def Let_def bind_eq_Some_conv)
  then show ?thesis using worker_running_keeps [OF w] by simp
qed

lemma dispatch_other:
  assumes "dispatch ext req s = Some (reply, s')"
    and "\<And>run_id job a. req \<noteq> Launch run_id job a" "\<And>run_id job_id. req \<noteq> Poll run_id job_id"
      "\<And>run_id job_id. req \<noteq> Kill run_id job_id" "req \<noteq> Info"
  shows "sv_processes s' = sv_processes s"
proof (cases req)
  case (ClearGpu name gpu)
  then show ?thesis using assms(1) dispatch_clear_processes [of ext name gpu s] by (simp add: dispatch_def Let_def)
qed (use assms in \<open>auto simp: dispatch_def Let_def split: prod.splits\<close>)

lemma dispatch_remembers:
  assumes "dispatch ext req s = Some (reply, s')"
  shows "remembers (sv_processes s) (sv_processes s')"
proof (cases "(\<exists>run_id job a. req = Launch run_id job a) \<or> (\<exists>run_id job_id. req = Poll run_id job_id)
    \<or> (\<exists>run_id job_id. req = Kill run_id job_id) \<or> req = Info")
  case True
  then show ?thesis
    by (elim disjE exE) (use assms in \<open>blast intro: dispatch_worker dispatch_info_worker\<close>)+
next
  case False
  then have "sv_processes s' = sv_processes s" using dispatch_other [OF assms] by blast
  then show ?thesis by (simp add: remembers_refl)
qed

lemma served_steps_remember: "served_step\<^sup>*\<^sup>* s s' \<Longrightarrow> remembers (sv_processes s) (sv_processes s')"
proof (induction rule: rtranclp_induct)
  case base
  show ?case by (rule remembers_refl)
next
  case (step t u)
  then show ?case by (auto elim!: served_step.cases dest!: dispatch_remembers intro: remembers_trans)
qed

section \<open>Properties\<close>

text \<open>
  C13: A launch whose reply is lost is neither lost nor repeated. When a node started a job and its
  reply did not reach the controller, the controller still holds a handle and the node counts as
  offline. Whatever the node serves in between, once it answers again the next poll on that handle
  gives the state of the job, never an unknown execution, and asking the node to launch the job
  again gives the process it started, without starting another.
\<close>

theorem lost_launch_not_repeated:
  assumes "dispatch ext (Launch run_id (ji_spec job) a) s = Some (Launched pid, s1)"
    and "nw_connect nw = None" "nw_exchange nw (Launch run_id (ji_spec job) a) = NoReplyInTime"
    and "served_step\<^sup>*\<^sup>* s1 s2"
    and "dispatch ext' (Poll run_id (ji_job_id job)) s2 = Some (reply, s3)"
    and "nw_connect nw' = None" "nw_exchange nw' (Poll run_id (ji_job_id job)) = Answered reply"
    and "js_id (ji_spec job) = ji_job_id job"
  shows "remote_launch dbg nw run_id job a True = (Inr (job_handle_remote 0 run_id (ji_job_id job)), False)
    \<and> (\<exists>result. remote_poll dbg nw' (job_handle_remote 0 run_id (ji_job_id job)) True = (result, True)
         \<and> (case result of
              Inr StillRunning \<Rightarrow> reply = Polled None
            | Inr (Exited code) \<Rightarrow> reply = Polled (Some code)
            | Inl e \<Rightarrow> \<exists>detail. e = RemoteError (''poll failed: '' @ detail)))
    \<and> (\<forall>ext'' a'. dispatch ext'' (Launch run_id (ji_spec job) a') s2 = Some (Launched pid, s2))"
proof -
  let ?key = "(run_id, ji_job_id job)"
  obtain child ps where "worker_launch (ext_env ext) (ext_machine ext) (ext_launch ext) run_id (ji_spec job) a (sv_processes s)
      = Some (Launched pid, child, ps)" and s1: "sv_processes s1 = ps"
    using assms(1) by (auto simp: dispatch_def Let_def)
  from worker_launch_keeps(2) [OF this(1) refl]
  obtain p1 where p1: "hm_get (sv_processes s1) ?key = Some p1" "host_pid (jp_handle p1) = pid"
    using s1 assms(8) by auto
  obtain p where p: "hm_get (sv_processes s2) ?key = Some p" "jp_handle p = jp_handle p1"
    using served_steps_remember [OF assms(4)] p1(1) unfolding remembers_def by blast
  have launch: "remote_launch dbg nw run_id job a True = (Inr (job_handle_remote 0 run_id (ji_job_id job)), False)"
    using assms(2,3) by (simp add: remote_launch_def connect_def exchange_def lost_def)
  obtain fx ps' where poll: "worker_poll (ext_env ext') (ext_machine ext') run_id (ji_job_id job) (sv_processes s2)
      = Some (reply, fx, ps')"
    using assms(5) by (auto simp: dispatch_def Let_def)
  have replies: "(\<exists>code. reply = Polled code) \<or> (\<exists>detail. reply = ErrorReply (''poll failed: '' @ detail))"
    using poll p(1) by (auto simp: worker_poll_def known_same Let_def split: prod.splits sum.splits)
  have "\<exists>result. remote_poll dbg nw' (job_handle_remote 0 run_id (ji_job_id job)) True = (result, True)
         \<and> (case result of
              Inr StillRunning \<Rightarrow> reply = Polled None
            | Inr (Exited code) \<Rightarrow> reply = Polled (Some code)
            | Inl e \<Rightarrow> \<exists>detail. e = RemoteError (''poll failed: '' @ detail))"
    using replies assms(6,7)
    by (auto simp: remote_poll_def on_handle_def handle_key_def job_handle_remote_def connect_def exchange_def
      split: option.splits)
  moreover have "dispatch ext'' (Launch run_id (ji_spec job) a') s2 = Some (Launched pid, s2)" for ext'' a'
    using p p1(2) assms(8) by (simp add: dispatch_def worker_launch_def Let_def)
  ultimately show ?thesis using launch by blast
qed

definition demo_codecs :: codecs where
  "demo_codecs = \<lparr>cd_time = dec_int, cd_parse_time = parse_i32, cd_spec = (\<lambda>_. []), cd_parse_spec = (\<lambda>_. None),
     cd_allocation = (\<lambda>_. []), cd_parse_allocation = (\<lambda>_. None)\<rparr>"

definition demo_external :: external where
  "demo_external = \<lparr>ext_parse = (\<lambda>_. Inl []), ext_ids = (\<lambda>_. []), ext_run_id = ''r'', ext_now = 0, ext_codecs = demo_codecs,
     ext_env = demo_worker_env, ext_machine = demo_machine, ext_launch = demo_answers, ext_term_error = None,
     ext_log_file = Inl, ext_tail = (\<lambda>_ _ _ _. Inr []), ext_forward = (\<lambda>_ _. Inl []), ext_readings = [],
     ext_version = ''0.1.0'', ext_pid = 7, ext_save = DirFailed, ext_cards_json = (\<lambda>_. [])\<rparr>"

definition demo_served :: "processes \<Rightarrow> served" where
  "demo_served ps = \<lparr>sv_daemon = daemon_new \<lparr>cpu_cores = 4, memory_mb = 8000, gpus = []\<rparr> [] [],
     sv_store = \<lparr>st_runs = [], st_jobs = []\<rparr>, sv_processes = ps,
     sv_quarantines = \<lparr>q_cards = [], q_tested = [], q_file = \<lparr>qf_main = None, qf_temp = None\<rparr>\<rparr>\<rparr>"

abbreviation demo_process :: "i32 option \<Rightarrow> processes" where
  "demo_process code \<equiv> [((''r'', ''j''), \<lparr>jp_handle = job_handle_process 41 None None, jp_exit_code = code\<rparr>)]"

abbreviation demo_placement :: allocation where
  "demo_placement \<equiv> \<lparr>al_cpu = 1, al_memory_mb = 512, al_gpus = []\<rparr>"

lemma demo_dispatch_launch:
  "dispatch demo_external (Launch ''r'' demo_task demo_placement) (demo_served []) = Some (Launched 41, demo_served (demo_process None))"
  by (simp add: dispatch_def demo_external_def demo_served_def Let_def demo_launch)

lemma demo_dispatch_poll:
  "dispatch demo_external (Poll ''r'' ''j'') (demo_served (demo_process None)) = Some (Polled (Some 3), demo_served (demo_process (Some 3)))"
  by (simp add: dispatch_def demo_external_def demo_served_def Let_def demo_poll)

theorem lost_launch_not_repeated_witness:
  "remote_launch (\<lambda>_. []) \<lparr>nw_connect = None, nw_exchange = \<lambda>_. NoReplyInTime\<rparr> ''r'' (job_instance_new demo_task 0) demo_placement True
     = (Inr (job_handle_remote 0 ''r'' ''j''), False)
   \<and> (\<exists>result. remote_poll (\<lambda>_. []) \<lparr>nw_connect = None, nw_exchange = \<lambda>_. Answered (Polled (Some 3))\<rparr>
         (job_handle_remote 0 ''r'' ''j'') True = (result, True))"
proof -
  let ?job = "job_instance_new demo_task 0"
  have job: "ji_spec ?job = demo_task" "ji_job_id ?job = ''j''" "js_id demo_task = ''j''"
    by (simp_all add: job_instance_new_def demo_task_def)
  have launched: "dispatch demo_external (Launch ''r'' (ji_spec ?job) demo_placement) (demo_served [])
      = Some (Launched 41, demo_served (demo_process None))"
    using demo_dispatch_launch job by simp
  have polled: "dispatch demo_external (Poll ''r'' (ji_job_id ?job)) (demo_served (demo_process None))
      = Some (Polled (Some 3), demo_served (demo_process (Some 3)))"
    using demo_dispatch_poll job by simp
  show ?thesis
    using lost_launch_not_repeated [OF launched _ _ rtranclp.rtrancl_refl polled,
        of "\<lparr>nw_connect = None, nw_exchange = \<lambda>_. NoReplyInTime\<rparr>"
           "\<lparr>nw_connect = None, nw_exchange = \<lambda>_. Answered (Polled (Some 3))\<rparr>" "\<lambda>_. []"] job
    by auto
qed

end
