(* ===== verification/Spec2Isabelle.thy ===== *)
theory Spec2Isabelle
  imports Bench Broadcast Command_Facts Crash_Facts Cuda Dag Discovery Dispatch Gpu_Checks Gpu_Facts Health Instance Job_Model
    Node Paths Placement Protocol Qualify Quarantine Resource_Pool Restarts Scheduler_Results Server Workflow_Spec
begin

text \<open>
  roster is a daemon that runs workflows of GPU jobs on a few machines. A user submits a YAML file
  of jobs with dependencies; the daemon of one machine, the controller, validates it, places each
  job that is ready on a node with room for it, starts it there, polls it until it ends, and keeps
  every change in a database. Nodes other than its own are reached through ssh tunnels and run the
  same daemon, which serves them as a worker. Cards that report faults are taken out of service
  and tested before they are used again. This library models the Rust sources under src/src and
  proves what its parts promise.

  The program's parts, in the order the library builds them:

  Data. \<open>Workflow_Spec\<close> is workflow/spec.rs: jobs, their resource requests, and the card
  counts a request is tried with. \<open>Job_Model\<close> is workflow/model.rs, executor/mod.rs and event.rs:
  the states of jobs and runs with their text and numeric forms, job instances, executions and
  handles, the events. \<open>Protocol\<close> is ipc/protocol.rs. \<open>Paths\<close> is paths.rs.

  Validation. \<open>Dag\<close> is workflow/dag.rs: duplicate ids, unknown dependencies, and cycles by Kahn's
  algorithm, whose iteration order over a hash map is an argument that theorems quantify over.

  Resources. \<open>Discovery\<close> is resource/discovery.rs, \<open>Resource_Pool\<close> resource/pool.rs: what is free
  of a node, who may reserve and what a release gives back. \<open>Placement\<close> is resource/placement.rs.
  It is written over the operations of a pool, whose contract is a locale: a reservation either
  succeeds, and releasing it restores the pool, or changes nothing. The pool of the program is its
  instance. The \<open>ledger\<close> of a pool is the abstract account its operations refine: what is free and
  the multiset of allocations held add up to the inventory.

  Cards. \<open>Quarantine\<close> is resource/quarantine.rs, \<open>Health\<close> resource/health.rs, \<open>Cuda\<close> the kernels
  and driver calls of resource/cuda.rs, register by register, \<open>Qualify\<close> resource/qualify.rs with the
  walk over DCGM's reports.

  Nodes and executors. \<open>Node\<close> is node.rs: nodes.yaml and the supervision of a tunnel. \<open>Shell\<close> is
  executor/shell.rs, \<open>Worker\<close> is worker.rs, \<open>Remote_Executor\<close> is executor/remote.rs.

  The scheduler. \<open>Scheduler\<close> is scheduler/mod.rs with the daemon's shared state of daemon/mod.rs: each
  function is one critical section, that is, the work done under the locks between two points
  where other tasks may run. \<open>Gpu_Checks\<close> is the part of scheduler/mod.rs that blocks and tests
  cards. \<open>Server\<close> and \<open>Dispatch\<close> are ipc/server.rs and ipc/client.rs: the handlers of all requests.
  \<open>Store\<close> is store/mod.rs, two tables of rows with the statements of the source as operations on
  them; \<open>Recover\<close> is daemon/recover.rs. \<open>Broadcast\<close> is broadcast.rs, the ring buffer of events, and
  \<open>Bench\<close> what bin/bench_broadcast.rs computes: its configurations, the events a producer sends, the
  account a consumer keeps of them, and the check that makes a run count.

  The process. \<open>Instance\<close> is the rest of daemon/mod.rs and error.rs: the pid file and its lock, the
  socket, the loop that accepts connections, and the run of a daemon; its step relation interleaves
  the system calls of any number of daemons, which may die between any two. \<open>Command_Line\<close> and
  \<open>Command_Main\<close> are main.rs: the commands that start, stop, enable and disable the daemon, the
  reports, and the choice of the command. A command changes a \<open>world\<close>, and what the outside
  answers is a function of the world so far.

  How the parts interact. \<open>Scheduler_System\<close> puts the critical sections of the scheduler, the
  requests that change its state, the nodes' online flags and the cards' readings into one step
  relation, so every interleaving at the points where locks are given up is covered.
  \<open>Scheduler_Facts\<close> and \<open>Gpu_Facts\<close> say what each operation does to jobs and ledgers; the
  invariant \<open>sys_inv\<close> ties the pools to what running jobs, launches under way and card tests hold.
  \<open>Scheduler_Safety\<close> draws from it what the daemon never does, \<open>Scheduler_Results\<close> what each
  operation achieves, and that a whole turn of the loop is a sequence of steps. \<open>Dispatch\<close> puts
  a node's worker behind the controller's remote executor. \<open>Broadcast\<close> has a step relation of its
  own, one step per atomic access. \<open>Durable\<close> shows what each critical section leaves in the
  database, \<open>Recovery\<close> that a daemon started on such a database takes back what the last one left.
  \<open>Crash\<close> lists the writes of a turn one by one and shows that a database which holds any first part
  of them is one a daemon can start on. \<open>Restarts\<close> puts turns of the loop, requests, restarts and
  crashes into one relation, over which the database is never behind the daemon: a daemon may end
  between two turns or after any write of a turn, and the next one has the same nodes. A request
  is not handled there between two writes of one turn. \<open>Crash_Facts\<close> shows that the runs survive, and
  two things that do not: a launch whose execution was not written yet, and a submission cut off
  between its two inserts. \<open>Command_Facts\<close> shows what the commands promise, and sets a second daemon
  that is started against the first one's lock.

  Conventions. \<open>Prelude\<close> holds the shared vocabulary: machine words, vectors whose index may be out
  of range, hash maps as association lists in their iteration order, text as lists of bytes,
  decimal printing and parsing, and two locales, the codec (a printer and its parser, interpreted
  for the states of jobs and runs) and the invariant of a transition system (interpreted for the
  pools, the scheduler and the ring buffer). A function that may panic returns an option whose
  outer \<open>None\<close> is the panic; an error the code returns is the left of a sum. u32 and u64 are words
  and wrap; an i32 is an integer with its bound where it matters. Clocks, fresh ids, and what
  lies outside the repository (NVML, the CUDA driver, DCGM, ssh, systemd, the file system, SQLite,
  YAML and JSON) are arguments. Theorems quantify over them; where they rely on such a thing
  the hypothesis says so.

  Bounds. There is no fuel: every recursion is structural or has its measure, but for the loop that
  waits for a daemon, which is partial and shown to return where every question is answered. Theorems on the ring
  buffer hold while the positions sent, twice and two more, fit a 64-bit word, the bound the
  source states. Capacities up to 2^62 are considered.

  Not modelled. Module declarations; of the benchmark its threads, their pinning, the clock and the
  printed report; of main.rs the
  parsing of arguments, the log and the session of the spawned process; the five seconds in which
  a daemon that ends waits for open connections. Failing database statements: the code ignores
  their errors, except at the start. Weak memory: the accesses of the ring buffer are taken in one
  total order.
\<close>

end
